(* ===== verification/Prelude.thy ===== *)
theory Prelude
  imports Main "HOL-Library.Word" "HOL-Library.Monad_Syntax"
begin

text \<open>
  The shared vocabulary of the development: the machine integers of the C code, the error
  codes it returns, \<open>size_t\<close> arithmetic, raw memory and the big-endian accessors of
  \<^verbatim>\<open><zephyr/sys/byteorder.h>\<close>.

  Conventions used by every other theory:
  \<^item> a C function that can run into undefined behaviour (an access outside an allocation, a
    NULL or dangling pointer) returns an \<open>option\<close>, and \<open>None\<close> is that undefined
    behaviour; a proof that an operation returns \<open>Some\<close> is a proof of memory safety;
  \<^item> a C error code is a value of type \<open>ret\<close>: \<open>OK\<close> for 0 and \<open>Err e\<close> for \<open>-e\<close>;
  \<^item> \<open>size_t\<close> is 32 bits wide, as on the nRF54L15 target: a \<open>nat\<close> with the wrap-around
    written out by \<open>szt_add\<close> and \<open>szt_sub\<close>.
\<close>

unbundle bit_operations_syntax

named_theorems mem_simps \<open>reading and writing raw memory\<close>
named_theorems heap_simps \<open>lookups in an updated heap\<close>

section \<open>Types and error codes\<close>

type_synonym u8 = "8 word"
type_synonym u16 = "16 word"
type_synonym u32 = "32 word"
type_synonym u64 = "64 word"
type_synonym addr = nat

datatype errno =
    EINVAL | ENOMEM | EALREADY | EIO | ENOTSUP | EBADMSG | EBUSY | EAGAIN | ENOTCONN
  | EPERM | ENOENT | ENODATA | EISDIR | ZCBOR_ERR nat

datatype ret = OK | Err errno

definition is_err :: "ret \<Rightarrow> bool" where
  "is_err r = (r \<noteq> OK)"

lemma is_err_simps [simp]: "\<not> is_err OK" "is_err (Err e)"
  by (simp_all add: is_err_def)

section \<open>size_t arithmetic\<close>

definition SIZE_MOD :: nat where
  "SIZE_MOD = 2 ^ 32"

definition szt_add :: "nat \<Rightarrow> nat \<Rightarrow> nat" where
  "szt_add a b = (a + b) mod SIZE_MOD"

definition szt_sub :: "nat \<Rightarrow> nat \<Rightarrow> nat" where
  "szt_sub a b = (a + (SIZE_MOD - b mod SIZE_MOD)) mod SIZE_MOD"

lemma szt_add_exact [simp]: "a + b < SIZE_MOD \<Longrightarrow> szt_add a b = a + b"
  by (simp add: szt_add_def)

lemma szt_sub_exact [simp]:
  assumes "b \<le> a" and "a < SIZE_MOD"
  shows "szt_sub a b = a - b"
proof -
  from assms have "b mod SIZE_MOD = b" by simp
  moreover from assms have "a + (SIZE_MOD - b) = (a - b) + SIZE_MOD" by simp
  ultimately have "szt_sub a b = ((a - b) + SIZE_MOD) mod SIZE_MOD"
    by (simp only: szt_sub_def)
  also have "\<dots> = (a - b) mod SIZE_MOD" by (rule mod_add_self2)
  also have "\<dots> = a - b" using assms by (intro mod_less) simp
  finally show ?thesis .
qed

lemma szt_sub_wraps:
  assumes "a < b" and "b < SIZE_MOD"
  shows "szt_sub a b = SIZE_MOD - (b - a)"
  using assms by (simp add: szt_sub_def)

declare add_2_eq_Suc [simp del] add_2_eq_Suc' [simp del]

section \<open>Raw memory\<close>

text \<open>
  An allocation is a list of bytes of fixed length. A write or a read that leaves it is
  undefined behaviour.
\<close>

definition mem_write :: "u8 list \<Rightarrow> nat \<Rightarrow> u8 list \<Rightarrow> u8 list option" where
  "mem_write m off bs =
     (if off + length bs \<le> length m
      then Some (take off m @ bs @ drop (off + length bs) m) else None)"

definition mem_read :: "u8 list \<Rightarrow> nat \<Rightarrow> nat \<Rightarrow> u8 list option" where
  "mem_read m off n =
     (if off + n \<le> length m then Some (take n (drop off m)) else None)"

lemma mem_write_None [mem_simps]: "mem_write m off bs = None \<longleftrightarrow> length m < off + length bs"
  by (auto simp: mem_write_def)

lemma mem_write_length: "mem_write m off bs = Some m' \<Longrightarrow> length m' = length m"
  by (auto simp: mem_write_def split: if_splits)

lemma mem_write_append:
  "mem_write m off bs = Some m' \<Longrightarrow> take (off + length bs) m' = take off m @ bs"
  by (auto simp: mem_write_def split: if_splits)

lemma mem_write_take:
  "mem_write m off bs = Some m' \<Longrightarrow> n \<le> off \<Longrightarrow> take n m' = take n m"
  by (auto simp: mem_write_def min_absorb1 split: if_splits)

lemma mem_write_drop:
  "mem_write m off bs = Some m' \<Longrightarrow> off + length bs \<le> n \<Longrightarrow> drop n m' = drop n m"
  by (auto simp: mem_write_def split: if_splits)

lemma mem_write_ex [mem_simps]:
  "off + length bs \<le> length m \<Longrightarrow> \<exists>m'. mem_write m off bs = Some m'"
  by (simp add: mem_write_def)

lemma mem_read_Some [mem_simps]:
  "off + n \<le> length m \<Longrightarrow> mem_read m off n = Some (take n (drop off m))"
  by (simp add: mem_read_def)

lemma mem_read_None [mem_simps]: "mem_read m off n = None \<longleftrightarrow> length m < off + n"
  by (auto simp: mem_read_def)

lemma mem_read_length: "mem_read m off n = Some bs \<Longrightarrow> length bs = n"
  by (auto simp: mem_read_def split: if_splits)

lemma take_split: "take n m = xs \<Longrightarrow> m = xs @ drop n m"
  by (metis append_take_drop_id)

text \<open>A read below the used length only sees the used prefix of the memory.\<close>

lemma mem_read_prefix:
  assumes "take k m = xs @ bs @ ys"
  shows "mem_read m (length xs) (length bs) = Some bs"
proof -
  have m: "m = xs @ bs @ ys @ drop k m"
    using take_split [OF assms] by simp
  have "mem_read (xs @ bs @ ys @ drop k m) (length xs) (length bs) = Some bs"
    by (simp add: mem_read_def)
  with m show ?thesis by simp
qed

section \<open>Big-endian accessors\<close>

definition put_be16 :: "u16 \<Rightarrow> u8 list" where
  "put_be16 w = [ucast (drop_bit 8 w), ucast w]"

definition put_be32 :: "u32 \<Rightarrow> u8 list" where
  "put_be32 w = put_be16 (ucast (drop_bit 16 w)) @ put_be16 (ucast w)"

definition put_be64 :: "u64 \<Rightarrow> u8 list" where
  "put_be64 w = put_be32 (ucast (drop_bit 32 w)) @ put_be32 (ucast w)"

definition get_be16 :: "u8 list \<Rightarrow> u16" where
  "get_be16 bs = push_bit 8 (ucast (bs ! 0)) OR ucast (bs ! 1)"

definition get_be32 :: "u8 list \<Rightarrow> u32" where
  "get_be32 bs = push_bit 16 (ucast (get_be16 bs)) OR ucast (get_be16 (drop 2 bs))"

definition get_be64 :: "u8 list \<Rightarrow> u64" where
  "get_be64 bs = push_bit 32 (ucast (get_be32 bs)) OR ucast (get_be32 (drop 4 bs))"

lemma length_put_be [simp]:
  "length (put_be16 w) = 2" "length (put_be32 v) = 4" "length (put_be64 x) = 8"
  by (simp_all add: put_be16_def put_be32_def put_be64_def)

lemma get_put_be16 [simp]: "get_be16 (put_be16 w @ rest) = w"
  by (rule bit_eqI) (auto simp: get_be16_def put_be16_def bit_simps)

lemma get_put_be32 [simp]: "get_be32 (put_be32 w @ rest) = w"
  by (rule bit_eqI) (auto simp: get_be32_def put_be32_def bit_simps)

lemma get_put_be64 [simp]: "get_be64 (put_be64 w @ rest) = w"
  by (rule bit_eqI) (auto simp: get_be64_def put_be64_def bit_simps)

lemma get_put_be16_nil [simp]: "get_be16 (put_be16 w) = w"
  using get_put_be16 [of w "[]"] by simp

lemma put_get_be16:
  assumes "length bs = 2"
  shows "put_be16 (get_be16 bs) = bs"
proof -
  from assms obtain a b where bs: "bs = [a, b]"
    by (auto simp: numeral_2_eq_2 length_Suc_conv)
  have "ucast (drop_bit 8 (get_be16 [a, b])) = a"
    by (rule bit_eqI) (auto simp: get_be16_def bit_simps dest: bit_imp_le_length)
  moreover have "ucast (get_be16 [a, b]) = b"
    by (rule bit_eqI) (auto simp: get_be16_def bit_simps)
  ultimately have "put_be16 (get_be16 [a, b]) = [a, b]"
    by (simp add: put_be16_def)
  then show ?thesis by (simp add: bs)
qed

lemma put_be16_inj: "put_be16 a = put_be16 b \<longleftrightarrow> a = b"
  by (metis get_put_be16_nil)

lemma unat_of_nat16 [simp]: "n < 65536 \<Longrightarrow> unat (of_nat n :: u16) = n"
  by (simp add: unat_of_nat)

lemma unat_of_nat8 [simp]: "n < 256 \<Longrightarrow> unat (of_nat n :: u8) = n"
  by (simp add: unat_of_nat)

lemma unat_u8_lt [simp]: "unat (w :: u8) < 256"
  by (rule unsigned_less [of w, simplified, THEN order_less_le_trans]) simp

lemma unat_u16_lt [simp]: "unat (w :: u16) < 65536"
  by (rule unsigned_less [of w, simplified, THEN order_less_le_trans]) simp

end
