(* ===== verification/Packetizer.thy ===== *)
theory Packetizer
  imports Prelude
begin

text \<open>
  The packetizer of \<^verbatim>\<open>lib/pouch_ble_gatt_common/packetizer.c\<close>: a byte stream is cut into GATT
  packets of one flag byte and a payload. The stream comes from a buffer or from a callback. A
  callback is a function of the room it has and of the state \<open>'w\<close> it works on; it yields its
  result, the bytes it stored and the new state. The function pointer is an argument of
  \<open>golioth_ble_gatt_packetizer_get\<close>; what the packetizer stores is the user argument.

  A destination of \<^verbatim>\<open>*dst_len\<close> bytes is the list of bytes stored in it, whose length is the value
  of \<^verbatim>\<open>*dst_len\<close> afterwards. A null packetizer and a destination of no bytes are undefined
  behaviour (\<open>None\<close>).
\<close>

section \<open>Data\<close>

definition GOLIOTH_BLE_GATT_PACKET_FIRST :: u8 where "GOLIOTH_BLE_GATT_PACKET_FIRST = 1"
definition GOLIOTH_BLE_GATT_PACKET_LAST :: u8 where "GOLIOTH_BLE_GATT_PACKET_LAST = 2"

datatype packetizer_result =
    GOLIOTH_BLE_GATT_PACKETIZER_MORE_DATA | GOLIOTH_BLE_GATT_PACKETIZER_NO_MORE_DATA
  | GOLIOTH_BLE_GATT_PACKETIZER_EMPTY_PAYLOAD | GOLIOTH_BLE_GATT_PACKETIZER_ERROR

text \<open>The union with its tag: the memory behind \<^verbatim>\<open>src\<close> and \<^verbatim>\<open>len\<close>, or the user argument.\<close>

datatype 'a packetizer_fill = Fill_buffer "u8 list" nat | Fill_callback 'a

record 'a packetizer =
  pz_fill :: "'a packetizer_fill"
  pz_is_first :: bool
  pz_error :: "errno option"

type_synonym ('a, 'w) fill_cb = "'a \<Rightarrow> nat \<Rightarrow> 'w \<Rightarrow> (packetizer_result \<times> u8 list \<times> 'w) option"

section \<open>Operations\<close>

text \<open>\<open>mem\<close> says whether \<^verbatim>\<open>malloc()\<close> succeeds.\<close>

definition packetizer_start_buffer :: "bool \<Rightarrow> u8 list \<Rightarrow> nat \<Rightarrow> 'a packetizer option" where
  "packetizer_start_buffer mem src src_len =
     (if mem then Some \<lparr>pz_fill = Fill_buffer src src_len, pz_is_first = True, pz_error = None\<rparr> else None)"

definition packetizer_start_callback :: "bool \<Rightarrow> 'a \<Rightarrow> 'a packetizer option" where
  "packetizer_start_callback mem user_arg =
     (if mem then Some \<lparr>pz_fill = Fill_callback user_arg, pz_is_first = True, pz_error = None\<rparr> else None)"

text \<open>The payload and the flags of a packet, by the kind of stream.\<close>

definition fill_payload ::
    "('a, 'w) fill_cb \<Rightarrow> 'a packetizer \<Rightarrow> u8 \<Rightarrow> nat \<Rightarrow> 'w \<Rightarrow> (packetizer_result \<times> u8 list \<times> 'a packetizer \<times> 'w) option" where
  "fill_payload func pz flags room w =
     (case pz_fill pz of
        Fill_buffer src len \<Rightarrow>
          let n = (if len \<le> room then len else room);
              flags = (if len \<le> room then flags OR GOLIOTH_BLE_GATT_PACKET_LAST else flags) in
          do { bs \<leftarrow> mem_read src 0 n;
               Some (if len \<le> room then GOLIOTH_BLE_GATT_PACKETIZER_NO_MORE_DATA
                     else GOLIOTH_BLE_GATT_PACKETIZER_MORE_DATA,
                     flags # bs, pz\<lparr>pz_fill := Fill_buffer (drop n src) (len - n)\<rparr>, w) }
      | Fill_callback user_arg \<Rightarrow> do {
          (cb_result, bs, w) \<leftarrow> func user_arg room w;
          if cb_result = GOLIOTH_BLE_GATT_PACKETIZER_ERROR
          then Some (GOLIOTH_BLE_GATT_PACKETIZER_ERROR, [], pz\<lparr>pz_error := Some ENODATA\<rparr>, w)
          else if cb_result = GOLIOTH_BLE_GATT_PACKETIZER_NO_MORE_DATA
          then Some (GOLIOTH_BLE_GATT_PACKETIZER_NO_MORE_DATA, (flags OR GOLIOTH_BLE_GATT_PACKET_LAST) # bs, pz, w)
          else Some (if bs = [] then GOLIOTH_BLE_GATT_PACKETIZER_EMPTY_PAYLOAD
                     else GOLIOTH_BLE_GATT_PACKETIZER_MORE_DATA, flags # bs, pz, w) })"

definition packetizer_get ::
    "('a, 'w) fill_cb \<Rightarrow> 'a packetizer option \<Rightarrow> nat \<Rightarrow> 'w \<Rightarrow> (packetizer_result \<times> u8 list \<times> 'a packetizer \<times> 'w) option" where
  "packetizer_get func packetizer dst_len w =
     (if dst_len = 0 then None
      else do {
        pz \<leftarrow> packetizer;
        if dst_len \<le> 1 then Some (GOLIOTH_BLE_GATT_PACKETIZER_ERROR, [0], pz\<lparr>pz_error := Some ENOMEM\<rparr>, w)
        else
          let flags = (if pz_is_first pz then GOLIOTH_BLE_GATT_PACKET_FIRST else 0);
              pz = pz\<lparr>pz_is_first := False\<rparr> in
          fill_payload func pz flags (dst_len - 1) w })"

definition packetizer_error :: "'a packetizer option \<Rightarrow> errno option option" where
  "packetizer_error packetizer = map_option pz_error packetizer"

text \<open>\<open>outs\<close> says that none of the three output pointers is null.\<close>

definition packetizer_decode :: "u8 list option \<Rightarrow> bool \<Rightarrow> errno + (u8 list \<times> bool \<times> bool)" where
  "packetizer_decode buf outs =
     (case buf of
        None \<Rightarrow> Inl EINVAL
      | Some bytes \<Rightarrow>
          if \<not> outs then Inl EINVAL
          else (case bytes of
            [] \<Rightarrow> Inl EINVAL
          | flags # payload \<Rightarrow> Inr (payload, flags AND GOLIOTH_BLE_GATT_PACKET_FIRST \<noteq> 0,
              flags AND GOLIOTH_BLE_GATT_PACKET_LAST \<noteq> 0)))"

section \<open>Packets of a stream\<close>

definition packet :: "bool \<Rightarrow> bool \<Rightarrow> u8 list \<Rightarrow> u8 list" where
  "packet first lst payload =
     ((if first then GOLIOTH_BLE_GATT_PACKET_FIRST else 0) OR (if lst then GOLIOTH_BLE_GATT_PACKET_LAST else 0)) # payload"

lemma decode_packet [simp]: "packetizer_decode (Some (packet first lst payload)) True = Inr (payload, first, lst)"
  by (simp add: packetizer_decode_def packet_def GOLIOTH_BLE_GATT_PACKET_FIRST_def GOLIOTH_BLE_GATT_PACKET_LAST_def)

text \<open>Getting packets until the packetizer says that there is no more data, within \<open>n\<close> calls.\<close>

fun drain ::
    "('a, 'w) fill_cb \<Rightarrow> nat \<Rightarrow> nat \<Rightarrow> 'a packetizer \<Rightarrow> 'w \<Rightarrow> (u8 list list \<times> 'w) option" where
  "drain func 0 mtu pz w = None"
| "drain func (Suc n) mtu pz w = do {
     (r, pkt, pz, w) \<leftarrow> packetizer_get func (Some pz) mtu w;
     case r of
       GOLIOTH_BLE_GATT_PACKETIZER_NO_MORE_DATA \<Rightarrow> Some ([pkt], w)
     | GOLIOTH_BLE_GATT_PACKETIZER_ERROR \<Rightarrow> None
     | _ \<Rightarrow> do { (pkts, w) \<leftarrow> drain func n mtu pz w; Some (pkt # pkts, w) } }"

text \<open>The receiver: packets in order, the first flag on the first and the last flag on the last only.\<close>

fun reassemble :: "bool \<Rightarrow> u8 list list \<Rightarrow> u8 list option" where
  "reassemble first [] = None"
| "reassemble first (pkt # pkts) =
     (case packetizer_decode (Some pkt) True of
        Inl e \<Rightarrow> None
      | Inr (payload, is_first, is_last) \<Rightarrow>
          if is_first \<noteq> first then None
          else if is_last then (if pkts = [] then Some payload else None)
          else map_option ((@) payload) (reassemble False pkts))"

lemma get_buffer:
  assumes "2 \<le> mtu" and "len \<le> length src"
  shows "packetizer_get func (Some \<lparr>pz_fill = Fill_buffer src len, pz_is_first = f, pz_error = e\<rparr>) mtu w =
    Some (if len \<le> mtu - 1
      then (GOLIOTH_BLE_GATT_PACKETIZER_NO_MORE_DATA, packet f True (take len src),
        \<lparr>pz_fill = Fill_buffer (drop len src) 0, pz_is_first = False, pz_error = e\<rparr>, w)
      else (GOLIOTH_BLE_GATT_PACKETIZER_MORE_DATA, packet f False (take (mtu - 1) src),
        \<lparr>pz_fill = Fill_buffer (drop (mtu - 1) src) (len - (mtu - 1)), pz_is_first = False, pz_error = e\<rparr>, w))"
  using assms
  by (simp add: packetizer_get_def fill_payload_def mem_read_def packet_def Let_def
      GOLIOTH_BLE_GATT_PACKET_FIRST_def GOLIOTH_BLE_GATT_PACKET_LAST_def)

lemma drain_buffer:
  assumes "2 \<le> mtu" and "len \<le> length src" and "len < n * (mtu - 1) \<or> (0 < n \<and> len \<le> n * (mtu - 1))"
  shows "\<exists>pkts. drain func n mtu \<lparr>pz_fill = Fill_buffer src len, pz_is_first = f, pz_error = e\<rparr> w = Some (pkts, w)
    \<and> reassemble f pkts = Some (take len src) \<and> (\<forall>p\<in>set pkts. length p \<le> mtu) \<and> length pkts \<le> n"
  using assms
proof (induction n arbitrary: src len f)
  case 0
  then show ?case by simp
next
  case (Suc n)
  note g = get_buffer [OF Suc.prems(1,2), of func f e w]
  show ?case
  proof (cases "len \<le> mtu - 1")
    case True
    then have p: "length (packet f True (take len src)) \<le> mtu" using Suc.prems(1) by (simp add: packet_def)
    then show ?thesis using g True Suc.prems(2) by simp
  next
    case False
    have n: "0 < n" using False Suc.prems(3) by (cases n) auto
    have l: "len - (mtu - 1) \<le> length (drop (mtu - 1) src)" "len - (mtu - 1) \<le> n * (mtu - 1)"
      using Suc.prems(2,3) by (auto simp: le_diff_conv add.commute)
    obtain pkts where ih: "drain func n mtu \<lparr>pz_fill = Fill_buffer (drop (mtu - 1) src) (len - (mtu - 1)),
          pz_is_first = False, pz_error = e\<rparr> w = Some (pkts, w)"
      "reassemble False pkts = Some (take (len - (mtu - 1)) (drop (mtu - 1) src))"
      "\<forall>p\<in>set pkts. length p \<le> mtu" "length pkts \<le> n"
      using Suc.IH [OF Suc.prems(1) l(1), of False] l(2) n by blast
    have "take (mtu - 1) src @ take (len - (mtu - 1)) (drop (mtu - 1) src) = take len src"
      using False by (metis le_add_diff_inverse nat_le_linear take_add)
    moreover have "length (packet f False (take (mtu - 1) src)) \<le> mtu" using Suc.prems(1) by (simp add: packet_def)
    ultimately show ?thesis using g False ih by simp
  qed
qed

text \<open>
  Property C11. Packets carry the stream exactly. A packetizer over a buffer, asked again and
  again with a packet size of at least two, finishes within one packet more than the length
  divided by the payload size; no packet is larger than asked; and a receiver that takes the
  packets in order, with the first flag on the first and the last flag on the last only, gets
  back the bytes of the buffer, also when it is empty.
\<close>

theorem packetizer_roundtrip:
  assumes "2 \<le> mtu" and "packetizer_start_buffer True src (length src) = Some pz"
  shows "\<exists>pkts. drain func (length src div (mtu - 1) + 1) mtu pz w = Some (pkts, w)
    \<and> reassemble True pkts = Some src \<and> (\<forall>p\<in>set pkts. length p \<le> mtu)"
proof -
  have pz: "pz = \<lparr>pz_fill = Fill_buffer src (length src), pz_is_first = True, pz_error = None\<rparr>"
    using assms(2) by (simp add: packetizer_start_buffer_def)
  have "length src < (length src div (mtu - 1) + 1) * (mtu - 1)"
    using dividend_less_div_times [of "mtu - 1" "length src"] assms(1) by simp
  then have "length src < (length src div (mtu - 1) + 1) * (mtu - 1)
      \<or> (0 < length src div (mtu - 1) + 1 \<and> length src \<le> (length src div (mtu - 1) + 1) * (mtu - 1))" by blast
  from drain_buffer [OF assms(1) order_refl this, of func True None w] show ?thesis
    unfolding pz by (simp only: take_all order_refl) blast
qed

lemma packetizer_roundtrip_witness:
  "\<exists>pz pkts. packetizer_start_buffer True [1, 2, 3, 4, 5] (length [1 :: u8, 2, 3, 4, 5]) = Some (pz :: unit packetizer)
    \<and> drain (\<lambda>_ _ _. None) 3 3 pz () = Some (pkts, ()) \<and> reassemble True pkts = Some [1, 2, 3, 4, 5]"
proof -
  obtain pz :: "unit packetizer" where pz: "packetizer_start_buffer True [1, 2, 3, 4, 5] (length [1 :: u8, 2, 3, 4, 5]) = Some pz"
    by (simp add: packetizer_start_buffer_def)
  have n: "length [1 :: u8, 2, 3, 4, 5] div (3 - 1) + 1 = 3" by simp
  have m: "(2 :: nat) \<le> 3" by simp
  from packetizer_roundtrip [OF m pz, of "\<lambda>_ _ _. None" "()", unfolded n] pz show ?thesis by blast
qed

section \<open>Streams from a callback\<close>

text \<open>
  What a callback must do for the packetizer to transfer the stream \<open>rest\<close> of its state: hand out
  as much as fits, and report the end together with the last bytes.
\<close>

locale fill_source =
  fixes func :: "('a, 'w) fill_cb"
    and ok :: "'w \<Rightarrow> bool"
    and rest :: "'w \<Rightarrow> u8 list"
  assumes fill_last: "ok w \<Longrightarrow> 0 < room \<Longrightarrow> length (rest w) \<le> room \<Longrightarrow>
      \<exists>w'. func a room w = Some (GOLIOTH_BLE_GATT_PACKETIZER_NO_MORE_DATA, rest w, w')"
    and fill_more: "ok w \<Longrightarrow> 0 < room \<Longrightarrow> room < length (rest w) \<Longrightarrow>
      \<exists>w'. func a room w = Some (GOLIOTH_BLE_GATT_PACKETIZER_MORE_DATA, take room (rest w), w')
        \<and> ok w' \<and> rest w' = drop room (rest w)"
begin

lemma drain_source:
  assumes "2 \<le> mtu" and "ok w" and "0 < n" and "length (rest w) \<le> n * (mtu - 1)"
  shows "\<exists>pkts w'. drain func n mtu \<lparr>pz_fill = Fill_callback a, pz_is_first = f, pz_error = e\<rparr> w = Some (pkts, w')
    \<and> reassemble f pkts = Some (rest w) \<and> (\<forall>p\<in>set pkts. length p \<le> mtu)"
  using assms
proof (induction n arbitrary: w f)
  case 0
  then show ?case by simp
next
  case (Suc n)
  let ?pz = "\<lparr>pz_fill = Fill_callback a, pz_is_first = f, pz_error = e\<rparr>"
  have room: "0 < mtu - 1" using Suc.prems(1) by simp
  show ?case
  proof (cases "length (rest w) \<le> mtu - 1")
    case True
    from fill_last [OF Suc.prems(2) room True] obtain w' where
      "func a (mtu - 1) w = Some (GOLIOTH_BLE_GATT_PACKETIZER_NO_MORE_DATA, rest w, w')" by blast
    then have "packetizer_get func (Some ?pz) mtu w =
        Some (GOLIOTH_BLE_GATT_PACKETIZER_NO_MORE_DATA, packet f True (rest w), ?pz\<lparr>pz_is_first := False\<rparr>, w')"
      using Suc.prems(1) by (simp add: packetizer_get_def fill_payload_def packet_def)
    moreover have "length (packet f True (rest w)) \<le> mtu" using True Suc.prems(1) by (simp add: packet_def)
    ultimately show ?thesis by simp
  next
    case False
    then have lt: "mtu - 1 < length (rest w)" by simp
    from fill_more [OF Suc.prems(2) room lt] obtain w' where
      w': "func a (mtu - 1) w = Some (GOLIOTH_BLE_GATT_PACKETIZER_MORE_DATA, take (mtu - 1) (rest w), w')"
        "ok w'" "rest w' = drop (mtu - 1) (rest w)" by blast
    have "take (mtu - 1) (rest w) \<noteq> []" using room lt by auto
    then have g: "packetizer_get func (Some ?pz) mtu w = Some (GOLIOTH_BLE_GATT_PACKETIZER_MORE_DATA,
        packet f False (take (mtu - 1) (rest w)), ?pz\<lparr>pz_is_first := False\<rparr>, w')"
      using Suc.prems(1) w'(1) by (simp add: packetizer_get_def fill_payload_def packet_def)
    have n: "0 < n" using lt Suc.prems(4) by (cases n) auto
    have "length (rest w') \<le> n * (mtu - 1)" using w'(3) Suc.prems(4) by (simp add: le_diff_conv add.commute)
    from Suc.IH [OF Suc.prems(1) w'(2) n this, of False] obtain pkts w'' where
      ih: "drain func n mtu \<lparr>pz_fill = Fill_callback a, pz_is_first = False, pz_error = e\<rparr> w' = Some (pkts, w'')"
        "reassemble False pkts = Some (drop (mtu - 1) (rest w))" "\<forall>p\<in>set pkts. length p \<le> mtu"
      using w'(3) by auto
    have "length (packet f False (take (mtu - 1) (rest w))) \<le> mtu" using Suc.prems(1) by (simp add: packet_def)
    then show ?thesis using g ih by simp
  qed
qed

end

end
