(* ===== verification/Buf.thy ===== *)
theory Buf
  imports Prelude
begin

text \<open>
  The buffers of \<^verbatim>\<open>src/buf.c\<close> and \<^verbatim>\<open>src/buf.h\<close>: allocation and release with the count of live
  buffers, claiming and writing bytes, rolling back, trimming, the FIFO queues of buffers and
  the read-only views.

  A function that takes a \<^verbatim>\<open>struct pouch_buf *\<close> and touches nothing else is a function on
  the value \<open>pouch_buf\<close>; \<open>upd_buf\<close> and \<open>read_buf\<close> apply it through a pointer into
  the heap. A view keeps the pointer, so it sees later changes of its buffer, as in C.
\<close>

section \<open>State\<close>

text \<open>\<^verbatim>\<open>struct pouch_buf\<close>: the number of bytes in use and the flexible array member.\<close>

record pouch_buf =
  pb_bytes :: nat
  pb_mem :: "u8 list"

text \<open>
  The C heap. \<open>store\<close> holds the live buffers, \<open>malloc_oracle n\<close> decides whether the
  \<open>n\<close>-th allocation succeeds and what the fresh memory happens to contain, \<open>bufs\<close> is
  the static counter of \<^verbatim>\<open>src/buf.c\<close>. Addresses are never reused.
\<close>

record heap =
  store :: "addr \<Rightarrow> pouch_buf option"
  next_addr :: addr
  malloc_oracle :: "addr \<Rightarrow> (nat \<Rightarrow> u8) option"
  bufs :: int

type_synonym ptr = "addr \<times> nat"
type_synonym pouch_buf_queue = "addr list"

text \<open>\<^verbatim>\<open>struct pouch_bufview\<close>: a pointer to a buffer, possibly NULL, and a read offset.\<close>

record pouch_bufview =
  bv_buf :: "addr option"
  bv_offset :: nat

section \<open>Operations on one buffer\<close>

definition buf_claim :: "pouch_buf \<Rightarrow> nat \<Rightarrow> nat \<times> pouch_buf" where
  "buf_claim b n = (pb_bytes b, b\<lparr>pb_bytes := szt_add (pb_bytes b) n\<rparr>)"

definition buf_next :: "pouch_buf \<Rightarrow> nat" where
  "buf_next b = pb_bytes b"

text \<open>Storing bytes through a pointer into the buffer's array.\<close>

definition put_at :: "nat \<Rightarrow> u8 list \<Rightarrow> pouch_buf \<Rightarrow> pouch_buf option" where
  "put_at p bs b = do { m \<leftarrow> mem_write (pb_mem b) p bs; Some (b\<lparr>pb_mem := m\<rparr>) }"

definition buf_write :: "pouch_buf \<Rightarrow> u8 list \<Rightarrow> pouch_buf option" where
  "buf_write b data = (let (p, b') = buf_claim b (length data) in put_at p data b')"

definition buf_bytes_get :: "pouch_buf \<Rightarrow> nat" where
  "buf_bytes_get b = pb_bytes b"

definition buf_bytes_set :: "pouch_buf \<Rightarrow> nat \<Rightarrow> pouch_buf" where
  "buf_bytes_set b off = b\<lparr>pb_bytes := off\<rparr>"

definition buf_state_get :: "pouch_buf \<Rightarrow> nat" where
  "buf_state_get b = pb_bytes b"

definition POUCH_BUF_STATE_INITIAL :: nat where
  "POUCH_BUF_STATE_INITIAL = 0"

definition buf_restore :: "pouch_buf \<Rightarrow> nat \<Rightarrow> pouch_buf" where
  "buf_restore b st = b\<lparr>pb_bytes := st\<rparr>"

definition buf_size_get :: "pouch_buf \<Rightarrow> nat" where
  "buf_size_get b = pb_bytes b"

definition buf_trim_start :: "pouch_buf \<Rightarrow> nat \<Rightarrow> (nat \<times> pouch_buf) option" where
  "buf_trim_start b n =
     (let k = min n (pb_bytes b); left = pb_bytes b - k in
      do { d \<leftarrow> mem_read (pb_mem b) k left;
           m \<leftarrow> mem_write (pb_mem b) 0 d;
           Some (k, b\<lparr>pb_bytes := left, pb_mem := m\<rparr>) })"

definition buf_trim_end :: "pouch_buf \<Rightarrow> nat \<Rightarrow> nat \<times> pouch_buf" where
  "buf_trim_end b n = (let k = min n (pb_bytes b) in (k, b\<lparr>pb_bytes := pb_bytes b - k\<rparr>))"

section \<open>The heap\<close>

definition buf_alloc :: "nat \<Rightarrow> heap \<Rightarrow> addr option \<times> heap" where
  "buf_alloc sz h =
     (let a = next_addr h; h' = h\<lparr>next_addr := Suc a\<rparr> in
      case malloc_oracle h a of
        None \<Rightarrow> (None, h')
      | Some g \<Rightarrow>
          (Some a, h'\<lparr>store := (store h)(a \<mapsto> \<lparr>pb_bytes = 0, pb_mem = map g [0..<sz]\<rparr>),
                      bufs := bufs h + 1\<rparr>))"

definition buf_free :: "addr option \<Rightarrow> heap \<Rightarrow> heap option" where
  "buf_free p h =
     (case p of
        None \<Rightarrow> Some h
      | Some a \<Rightarrow>
          (case store h a of
             None \<Rightarrow> None
           | Some b \<Rightarrow> Some (h\<lparr>store := (store h)(a := None), bufs := bufs h - 1\<rparr>)))"

definition buf_active_count :: "heap \<Rightarrow> int" where
  "buf_active_count h = bufs h"

definition upd_buf :: "addr \<Rightarrow> (pouch_buf \<Rightarrow> pouch_buf option) \<Rightarrow> heap \<Rightarrow> heap option" where
  "upd_buf a f h = do { b \<leftarrow> store h a; b' \<leftarrow> f b; Some (h\<lparr>store := (store h)(a \<mapsto> b')\<rparr>) }"

definition with_buf ::
    "addr \<Rightarrow> (pouch_buf \<Rightarrow> ('r \<times> pouch_buf) option) \<Rightarrow> heap \<Rightarrow> ('r \<times> heap) option" where
  "with_buf a f h =
     do { b \<leftarrow> store h a; (r, b') \<leftarrow> f b; Some (r, h\<lparr>store := (store h)(a \<mapsto> b')\<rparr>) }"

definition read_buf :: "addr \<Rightarrow> (pouch_buf \<Rightarrow> 'r) \<Rightarrow> heap \<Rightarrow> 'r option" where
  "read_buf a f h = map_option f (store h a)"

definition ptr_read :: "ptr \<Rightarrow> nat \<Rightarrow> heap \<Rightarrow> u8 list option" where
  "ptr_read p n h = do { b \<leftarrow> store h (fst p); mem_read (pb_mem b) (snd p) n }"

section \<open>Queues\<close>

definition buf_queue_init :: pouch_buf_queue where
  "buf_queue_init = []"

definition buf_queue_submit :: "pouch_buf_queue \<Rightarrow> addr \<Rightarrow> pouch_buf_queue" where
  "buf_queue_submit q a = q @ [a]"

definition buf_queue_get :: "pouch_buf_queue \<Rightarrow> addr option \<times> pouch_buf_queue" where
  "buf_queue_get q = (case q of [] \<Rightarrow> (None, []) | a # q' \<Rightarrow> (Some a, q'))"

definition buf_queue_peek :: "pouch_buf_queue \<Rightarrow> addr option" where
  "buf_queue_peek q = (case q of [] \<Rightarrow> None | a # _ \<Rightarrow> Some a)"

definition buf_queue_is_empty :: "pouch_buf_queue \<Rightarrow> bool" where
  "buf_queue_is_empty q = (buf_queue_peek q = None)"

section \<open>Views\<close>

definition pouch_bufview_init :: "addr \<Rightarrow> pouch_bufview" where
  "pouch_bufview_init a = \<lparr>bv_buf = Some a, bv_offset = 0\<rparr>"

definition bufview_read :: "pouch_bufview \<Rightarrow> nat \<Rightarrow> (ptr \<times> pouch_bufview) option" where
  "bufview_read v n =
     do { a \<leftarrow> bv_buf v;
          Some ((a, bv_offset v), v\<lparr>bv_offset := szt_add (bv_offset v) n\<rparr>) }"

definition pouch_bufview_available :: "pouch_bufview \<Rightarrow> heap \<Rightarrow> nat option" where
  "pouch_bufview_available v h =
     (case bv_buf v of
        None \<Rightarrow> Some 0
      | Some a \<Rightarrow> do { b \<leftarrow> store h a; Some (szt_sub (pb_bytes b) (bv_offset v)) })"

definition pouch_bufview_memcpy ::
    "pouch_bufview \<Rightarrow> nat \<Rightarrow> heap \<Rightarrow> (u8 list \<times> pouch_bufview) option" where
  "pouch_bufview_memcpy v n h =
     do { av \<leftarrow> pouch_bufview_available v h;
          (p, v') \<leftarrow> bufview_read v (min n av);
          bs \<leftarrow> ptr_read p (min n av) h;
          Some (bs, v') }"

definition pouch_bufview_read ::
    "pouch_bufview \<Rightarrow> nat \<Rightarrow> heap \<Rightarrow> (ptr option \<times> pouch_bufview) option" where
  "pouch_bufview_read v n h =
     do { av \<leftarrow> pouch_bufview_available v h;
          if av < n then Some (None, v)
          else do { (p, v') \<leftarrow> bufview_read v n; Some (Some p, v') } }"

definition pouch_bufview_read_byte :: "pouch_bufview \<Rightarrow> heap \<Rightarrow> (u8 \<times> pouch_bufview) option" where
  "pouch_bufview_read_byte v h =
     do { (p, v') \<leftarrow> bufview_read v 1; bs \<leftarrow> ptr_read p 1 h; Some (bs ! 0, v') }"

definition pouch_bufview_read_be16 :: "pouch_bufview \<Rightarrow> heap \<Rightarrow> (u16 \<times> pouch_bufview) option" where
  "pouch_bufview_read_be16 v h =
     do { (p, v') \<leftarrow> bufview_read v 2; bs \<leftarrow> ptr_read p 2 h; Some (get_be16 bs, v') }"

definition pouch_bufview_read_be32 :: "pouch_bufview \<Rightarrow> heap \<Rightarrow> (u32 \<times> pouch_bufview) option" where
  "pouch_bufview_read_be32 v h =
     do { (p, v') \<leftarrow> bufview_read v 4; bs \<leftarrow> ptr_read p 4 h; Some (get_be32 bs, v') }"

definition pouch_bufview_read_be64 :: "pouch_bufview \<Rightarrow> heap \<Rightarrow> (u64 \<times> pouch_bufview) option" where
  "pouch_bufview_read_be64 v h =
     do { (p, v') \<leftarrow> bufview_read v 8; bs \<leftarrow> ptr_read p 8 h; Some (get_be64 bs, v') }"

definition pouch_bufview_is_ready :: "pouch_bufview \<Rightarrow> heap \<Rightarrow> bool option" where
  "pouch_bufview_is_ready v h =
     (if bv_buf v = None then Some False
      else do { av \<leftarrow> pouch_bufview_available v h; Some (0 < av) })"

definition pouch_bufview_free :: "pouch_bufview \<Rightarrow> heap \<Rightarrow> (pouch_bufview \<times> heap) option" where
  "pouch_bufview_free v h =
     do { h' \<leftarrow> buf_free (bv_buf v) h; Some (\<lparr>bv_buf = None, bv_offset = 0\<rparr>, h') }"

section \<open>What a buffer holds\<close>

text \<open>
  The abstract value of a buffer is the list of its used bytes; \<open>cap\<close> is the size it was
  allocated with. Writing within the capacity is appending.
\<close>

definition contents :: "pouch_buf \<Rightarrow> u8 list" where
  "contents b = take (pb_bytes b) (pb_mem b)"

definition cap :: "pouch_buf \<Rightarrow> nat" where
  "cap b = length (pb_mem b)"

definition buf_ok :: "pouch_buf \<Rightarrow> bool" where
  "buf_ok b \<longleftrightarrow> pb_bytes b \<le> cap b \<and> cap b < SIZE_MOD"

definition fits :: "pouch_buf \<Rightarrow> nat \<Rightarrow> bool" where
  "fits b n \<longleftrightarrow> buf_ok b \<and> pb_bytes b + n \<le> cap b"

definition append_buf :: "pouch_buf \<Rightarrow> u8 list \<Rightarrow> pouch_buf" where
  "append_buf b d =
     b\<lparr>pb_bytes := pb_bytes b + length d,
       pb_mem := take (pb_bytes b) (pb_mem b) @ d @ drop (pb_bytes b + length d) (pb_mem b)\<rparr>"

lemma length_contents [simp]: "buf_ok b \<Longrightarrow> length (contents b) = pb_bytes b"
  by (simp add: contents_def buf_ok_def cap_def)

lemma fits_buf_ok [simp]: "fits b n \<Longrightarrow> buf_ok b"
  by (simp add: fits_def)

lemma buf_write_fits: "fits b (length d) \<Longrightarrow> buf_write b d = Some (append_buf b d)"
  by (simp add: buf_write_def buf_claim_def put_at_def mem_write_def fits_def buf_ok_def cap_def
      append_buf_def)

text \<open>A write that does not fit leaves the allocation: undefined behaviour.\<close>

lemma buf_write_overflow:
  assumes "buf_ok b" and "cap b < pb_bytes b + length d"
  shows "buf_write b d = None"
  using assms
  by (simp add: buf_write_def buf_claim_def put_at_def mem_write_def buf_ok_def cap_def)

lemma append_buf_simps:
  assumes "fits b (length d)"
  shows "contents (append_buf b d) = contents b @ d"
    and "pb_bytes (append_buf b d) = pb_bytes b + length d"
    and "cap (append_buf b d) = cap b"
    and "buf_ok (append_buf b d)"
    and "fits (append_buf b d) n = fits b (length d + n)"
  using assms by (auto simp: contents_def append_buf_def cap_def buf_ok_def fits_def)

lemma append_buf_append_buf:
  assumes "fits b (length d + length e)"
  shows "append_buf (append_buf b d) e = append_buf b (d @ e)"
  using assms
  by (simp add: append_buf_def fits_def buf_ok_def cap_def add.commute add.left_commute)

lemma fits_mono: "fits b n \<Longrightarrow> m \<le> n \<Longrightarrow> fits b m"
  by (auto simp: fits_def)

text \<open>Two writes in a row are one write of the concatenation.\<close>

lemma buf_write_seq:
  assumes "fits b (length d + length e)"
  shows "Option.bind (buf_write b d) (\<lambda>b'. buf_write b' e) = buf_write b (d @ e)"
proof -
  have "fits b (length d)" using assms by (rule fits_mono) simp
  moreover from this assms have "fits (append_buf b d) (length e)"
    by (simp add: append_buf_simps)
  ultimately show ?thesis using assms
    by (simp add: buf_write_fits append_buf_append_buf)
qed

lemma buf_trim_start_ok:
  assumes "buf_ok b"
  shows "\<exists>b'. buf_trim_start b n = Some (min n (pb_bytes b), b') \<and> buf_ok b' \<and> cap b' = cap b
           \<and> contents b' = drop n (contents b)"
proof -
  let ?k = "min n (pb_bytes b)"
  let ?d = "take (pb_bytes b - ?k) (drop ?k (pb_mem b))"
  have rd: "mem_read (pb_mem b) ?k (pb_bytes b - ?k) = Some ?d"
    using assms by (simp add: mem_read_def buf_ok_def cap_def)
  have len: "length ?d = pb_bytes b - ?k"
    using assms by (auto simp: buf_ok_def cap_def min_def)
  have "0 + length ?d \<le> length (pb_mem b)"
    using assms unfolding len buf_ok_def cap_def by linarith
  from mem_write_ex [OF this] obtain m where m: "mem_write (pb_mem b) 0 ?d = Some m" ..
  let ?b = "b\<lparr>pb_bytes := pb_bytes b - ?k, pb_mem := m\<rparr>"
  have "contents ?b = ?d"
    using mem_write_append [OF m] len by (simp add: contents_def)
  also have "?d = drop n (contents b)"
    using assms by (auto simp: contents_def buf_ok_def cap_def drop_take min_def)
  finally have "contents ?b = drop n (contents b)" .
  moreover have "buf_ok ?b" "cap ?b = cap b"
    using assms mem_write_length [OF m] by (auto simp: buf_ok_def cap_def)
  ultimately show ?thesis
    unfolding buf_trim_start_def Let_def rd by (simp add: m)
qed

lemma buf_trim_end_ok:
  assumes "buf_ok b"
  shows "contents (snd (buf_trim_end b n)) = take (pb_bytes b - n) (contents b)"
    and "buf_ok (snd (buf_trim_end b n))" and "cap (snd (buf_trim_end b n)) = cap b"
    and "pb_bytes (snd (buf_trim_end b n)) = pb_bytes b - n"
    and "fst (buf_trim_end b n) = min n (pb_bytes b)"
  using assms by (auto simp: buf_trim_end_def contents_def buf_ok_def cap_def Let_def min_def)

section \<open>Well-formed heaps\<close>

text \<open>
  Every live buffer lies below the allocation frontier and is well-formed, and the counter of
  \<^verbatim>\<open>buf_active_count()\<close> is the number of live buffers.
\<close>

definition heap_ok :: "heap \<Rightarrow> bool" where
  "heap_ok h \<longleftrightarrow> finite (dom (store h)) \<and> (\<forall>a\<in>dom (store h). a < next_addr h)
     \<and> (\<forall>b\<in>ran (store h). buf_ok b) \<and> bufs h = int (card (dom (store h)))"

definition live :: "heap \<Rightarrow> addr set" where
  "live h = dom (store h)"

text \<open>\<open>heap_same A h h'\<close>: apart from the addresses in \<open>A\<close> the two heaps agree.\<close>

definition heap_same :: "addr set \<Rightarrow> heap \<Rightarrow> heap \<Rightarrow> bool" where
  "heap_same A h h' \<longleftrightarrow> (\<forall>a. a \<notin> A \<longrightarrow> store h' a = store h a)"

text \<open>What the buffer behind an address holds.\<close>

definition buf_contents :: "heap \<Rightarrow> addr \<Rightarrow> u8 list" where
  "buf_contents h a = (case store h a of None \<Rightarrow> [] | Some b \<Rightarrow> contents b)"

lemma buf_contents_eq: "store h a = Some b \<Longrightarrow> buf_contents h a = contents b"
  by (simp add: buf_contents_def)

lemma heap_ok_buf_ok: "heap_ok h \<Longrightarrow> store h a = Some b \<Longrightarrow> buf_ok b"
  by (auto simp: heap_ok_def ran_def)

lemma heap_ok_fresh: "heap_ok h \<Longrightarrow> next_addr h \<le> a \<Longrightarrow> store h a = None"
  by (auto simp: heap_ok_def dom_def)

lemma in_live_iff: "a \<in> live h \<longleftrightarrow> (\<exists>b. store h a = Some b)"
  by (auto simp: live_def)

text \<open>The two outcomes of \<^verbatim>\<open>buf_alloc\<close>.\<close>

lemma buf_alloc_cases:
  assumes "heap_ok h" and "sz < SIZE_MOD"
  obtains (fail) h' where "buf_alloc sz h = (None, h')" "heap_ok h'" "store h' = store h"
      "bufs h' = bufs h" "malloc_oracle h' = malloc_oracle h" "next_addr h < next_addr h'"
      "malloc_oracle h (next_addr h) = None"
    | (ok) a b h' where "buf_alloc sz h = (Some a, h')" "heap_ok h'" "store h a = None"
      "store h' = (store h)(a \<mapsto> b)" "contents b = []" "pb_bytes b = 0" "cap b = sz" "buf_ok b"
      "bufs h' = bufs h + 1" "malloc_oracle h' = malloc_oracle h" "next_addr h < next_addr h'"
      "malloc_oracle h (next_addr h) \<noteq> None"
proof (cases "malloc_oracle h (next_addr h)")
  case None
  then show ?thesis using assms
    by (intro fail [of "h\<lparr>next_addr := Suc (next_addr h)\<rparr>"])
       (auto simp: buf_alloc_def heap_ok_def less_Suc_eq Let_def)
next
  case (Some g)
  let ?a = "next_addr h"
  let ?b = "\<lparr>pb_bytes = 0, pb_mem = map g [0..<sz]\<rparr>"
  let ?h = "h\<lparr>next_addr := Suc ?a, store := (store h)(?a \<mapsto> ?b), bufs := bufs h + 1\<rparr>"
  have fresh: "store h ?a = None" using assms(1) by (rule heap_ok_fresh) simp
  have b: "buf_ok ?b" using assms(2) by (simp add: buf_ok_def cap_def)
  have ran: "buf_ok x" if "x \<in> ran ((store h)(?a \<mapsto> ?b))" for x
    using that assms(1) b by (auto simp: heap_ok_def ran_def split: if_splits)
  have hok: "heap_ok ?h"
    using assms(1) fresh ran
    by (auto simp: heap_ok_def less_Suc_eq card_insert_if domIff)
  show ?thesis
    by (rule ok [of ?a ?h ?b])
       (use Some fresh b hok in \<open>simp_all add: buf_alloc_def contents_def cap_def Let_def\<close>)
qed


lemma buf_alloc_oracle:
  "buf_alloc sz h = (p, h') \<Longrightarrow> p = None \<longleftrightarrow> malloc_oracle h (next_addr h) = None"
  by (auto simp: buf_alloc_def Let_def split: option.splits)

lemma buf_free_live:
  assumes "heap_ok h" and "a \<in> live h"
  shows "\<exists>h'. buf_free (Some a) h = Some h' \<and> heap_ok h' \<and> store h' = (store h)(a := None)
           \<and> bufs h' = bufs h - 1 \<and> malloc_oracle h' = malloc_oracle h
           \<and> next_addr h' = next_addr h"
proof -
  from assms(2) obtain b where b: "store h a = Some b" by (auto simp: in_live_iff)
  let ?h = "h\<lparr>store := (store h)(a := None), bufs := bufs h - 1\<rparr>"
  have "a \<in> dom (store h)" using b by auto
  then have "heap_ok ?h"
    using assms(1) card_gt_0_iff [of "dom (store h)"]
    by (auto simp: heap_ok_def ran_def of_nat_diff)
  then show ?thesis using b by (auto simp: buf_free_def)
qed

text \<open>Releasing a buffer twice is undefined behaviour.\<close>

lemma buf_free_dead: "a \<notin> live h \<Longrightarrow> buf_free (Some a) h = None"
  by (auto simp: buf_free_def live_def split: option.splits)

lemma buf_free_None [simp]: "buf_free None h = Some h"
  by (simp add: buf_free_def)

lemma upd_buf_eq:
  "store h a = Some b \<Longrightarrow> f b = Some b' \<Longrightarrow>
     upd_buf a f h = Some (h\<lparr>store := (store h)(a \<mapsto> b')\<rparr>)"
  by (simp add: upd_buf_def)

lemma with_buf_eq:
  "store h a = Some b \<Longrightarrow> f b = Some (r, b') \<Longrightarrow>
     with_buf a f h = Some (r, h\<lparr>store := (store h)(a \<mapsto> b')\<rparr>)"
  by (simp add: with_buf_def)

lemma heap_ok_upd:
  assumes "heap_ok h" and "store h a = Some b" and "buf_ok b'"
  shows "heap_ok (h\<lparr>store := (store h)(a \<mapsto> b')\<rparr>)"
  using assms by (auto simp: heap_ok_def ran_def insert_absorb domI split: if_splits)

lemma read_buf_eq [simp]: "store h a = Some b \<Longrightarrow> read_buf a f h = Some (f b)"
  by (simp add: read_buf_def)

section \<open>Views see the contents\<close>

text \<open>
  \<open>view_at v h b n\<close>: the view \<open>v\<close> is on the live buffer value \<open>b\<close> and has read its
  first \<open>n\<close> bytes.
\<close>

definition view_at :: "pouch_bufview \<Rightarrow> heap \<Rightarrow> pouch_buf \<Rightarrow> nat \<Rightarrow> bool" where
  "view_at v h b n \<longleftrightarrow>
     (\<exists>a. bv_buf v = Some a \<and> store h a = Some b) \<and> bv_offset v = n \<and> buf_ok b \<and> n \<le> pb_bytes b"

lemma view_at_init: "store h a = Some b \<Longrightarrow> buf_ok b \<Longrightarrow> view_at (pouch_bufview_init a) h b 0"
  by (simp add: view_at_def pouch_bufview_init_def)

lemma pouch_bufview_available_view:
  "view_at v h b n \<Longrightarrow> pouch_bufview_available v h = Some (pb_bytes b - n)"
  by (auto simp: view_at_def pouch_bufview_available_def buf_ok_def)

lemma bufview_read_view:
  assumes "view_at v h b n" and "n + k \<le> pb_bytes b"
  shows "\<exists>p v'. bufview_read v k = Some (p, v') \<and> view_at v' h b (n + k)
           \<and> ptr_read p k h = Some (take k (drop n (contents b)))"
proof -
  from assms obtain a where a: "bv_buf v = Some a" "store h a = Some b" "bv_offset v = n"
      "buf_ok b" by (auto simp: view_at_def)
  have "n + k < SIZE_MOD" using assms a(4) by (simp add: buf_ok_def)
  moreover have "mem_read (pb_mem b) n k = Some (take k (drop n (contents b)))"
    using assms a(4) by (auto simp: mem_read_def contents_def buf_ok_def cap_def drop_take min_def)
  ultimately show ?thesis using a assms(2)
    by (simp add: bufview_read_def ptr_read_def view_at_def)
qed

lemma pouch_bufview_memcpy_view:
  assumes "view_at v h b n"
  shows "\<exists>v'. pouch_bufview_memcpy v k h = Some (take k (drop n (contents b)), v')
           \<and> view_at v' h b (n + min k (pb_bytes b - n))"
proof -
  let ?k = "min k (pb_bytes b - n)"
  have ok: "buf_ok b" "n \<le> pb_bytes b" using assms by (auto simp: view_at_def)
  then have "n + ?k \<le> pb_bytes b" by simp
  from bufview_read_view [OF assms this] obtain p v' where "bufview_read v ?k = Some (p, v')"
      "view_at v' h b (n + ?k)" "ptr_read p ?k h = Some (take ?k (drop n (contents b)))"
    by blast
  moreover have "take ?k (drop n (contents b)) = take k (drop n (contents b))"
    using ok by (simp add: min_def)
  ultimately show ?thesis
    by (simp add: pouch_bufview_memcpy_def pouch_bufview_available_view [OF assms])
qed

lemma pouch_bufview_read_view:
  assumes "view_at v h b n" and "n + k \<le> pb_bytes b"
  shows "\<exists>p v'. pouch_bufview_read v k h = Some (Some p, v') \<and> view_at v' h b (n + k)
           \<and> ptr_read p k h = Some (take k (drop n (contents b)))"
  using bufview_read_view [OF assms] assms(2)
  by (auto simp: pouch_bufview_read_def pouch_bufview_available_view [OF assms(1)])

text \<open>The bytes a request asks for are not there: the C code returns NULL and reads nothing.\<close>

lemma pouch_bufview_read_short:
  assumes "view_at v h b n" and "pb_bytes b < n + k"
  shows "pouch_bufview_read v k h = Some (None, v)"
proof -
  have "pb_bytes b - n < k" using assms by (auto simp: view_at_def)
  then show ?thesis
    by (simp add: pouch_bufview_read_def pouch_bufview_available_view [OF assms(1)])
qed

lemma pouch_bufview_read_be16_view:
  assumes "view_at v h b n" and "drop n (contents b) = put_be16 w @ rest"
  shows "\<exists>v'. pouch_bufview_read_be16 v h = Some (w, v') \<and> view_at v' h b (n + 2)"
proof -
  have "length (drop n (contents b)) = 2 + length rest" using assms(2) by simp
  then have "n + 2 \<le> pb_bytes b" using assms(1) by (simp add: view_at_def)
  from bufview_read_view [OF assms(1) this] obtain p v' where
    "bufview_read v 2 = Some (p, v')" "view_at v' h b (n + 2)" "ptr_read p 2 h = Some (put_be16 w)"
    using assms(2) by auto
  then show ?thesis by (simp add: pouch_bufview_read_be16_def)
qed

lemma pouch_bufview_read_byte_view:
  assumes "view_at v h b n" and "drop n (contents b) = w # rest"
  shows "\<exists>v'. pouch_bufview_read_byte v h = Some (w, v') \<and> view_at v' h b (n + 1)"
proof -
  have "length (drop n (contents b)) = 1 + length rest" using assms(2) by simp
  then have "n + 1 \<le> pb_bytes b" using assms(1) by (simp add: view_at_def)
  from bufview_read_view [OF assms(1) this] obtain p v' where
    "bufview_read v 1 = Some (p, v')" "view_at v' h b (n + 1)" "ptr_read p 1 h = Some [w]"
    using assms(2) by auto
  then show ?thesis by (simp add: pouch_bufview_read_byte_def)
qed

section \<open>The queue contract\<close>

text \<open>
  What the uplink and downlink pipelines rely on: buffers leave a queue in the order they were
  submitted, and a drained queue has handed out every buffer exactly once.
\<close>

locale fifo =
  fixes init :: 'q
    and submit :: "'q \<Rightarrow> 'a \<Rightarrow> 'q"
    and get :: "'q \<Rightarrow> 'a option \<times> 'q"
    and peek :: "'q \<Rightarrow> 'a option"
    and elems :: "'q \<Rightarrow> 'a list"
  assumes elems_init: "elems init = []"
    and elems_submit: "elems (submit q a) = elems q @ [a]"
    and get_nil: "elems q = [] \<Longrightarrow> fst (get q) = None \<and> elems (snd (get q)) = []"
    and get_cons: "elems q = a # as \<Longrightarrow> fst (get q) = Some a \<and> elems (snd (get q)) = as"
    and peek_get: "peek q = fst (get q)"
begin

lemma elems_submits: "elems (foldl submit q as) = elems q @ as"
  by (induction as arbitrary: q) (simp_all add: elems_submit)

lemma peek_None_iff: "peek q = None \<longleftrightarrow> elems q = []"
  using get_nil [of q] get_cons [of q] by (cases "elems q") (auto simp: peek_get)

text \<open>A submitted element is handed out after exactly the elements that were there before.\<close>

lemma get_after_submits:
  assumes "elems q = []" and "as = a # as'"
  shows "fst (get (foldl submit q as)) = Some a \<and> elems (snd (get (foldl submit q as))) = as'"
  using get_cons [of "foldl submit q as" a as'] elems_submits [of q as] assms by simp

end

interpretation bq: fifo buf_queue_init buf_queue_submit buf_queue_get buf_queue_peek "\<lambda>q. q"
  by unfold_locales
     (auto simp: buf_queue_init_def buf_queue_submit_def buf_queue_get_def buf_queue_peek_def
       split: list.splits)

lemma buf_queue_is_empty_iff [simp]: "buf_queue_is_empty q \<longleftrightarrow> q = []"
  by (simp add: buf_queue_is_empty_def bq.peek_None_iff)

lemmas buf_queue_simps [simp] = buf_queue_get_def [of "[]", simplified]
  buf_queue_get_def [of "a # q" for a q, simplified] bq.elems_init bq.elems_submit

end
