(* ===== verification/Block.thy ===== *)
theory Block
  imports Buf
begin

text \<open>
  The framing of \<^verbatim>\<open>src/block.c\<close>: a block is a big-endian 16-bit size that does not count
  itself, an id byte that carries the stream id and the first/last flags, and the payload.
\<close>

section \<open>Sizes\<close>

text \<open>\<^verbatim>\<open>LOG2\<close> of \<^verbatim>\<open><zephyr/sys/util.h>\<close> rounds down.\<close>

fun LOG2 :: "nat \<Rightarrow> nat" where
  "LOG2 n = (if n < 2 then 0 else Suc (LOG2 (n div 2)))"

declare LOG2.simps [simp del]

definition CONFIG_POUCH_BLOCK_SIZE :: nat where
  "CONFIG_POUCH_BLOCK_SIZE = 512"

definition BLOCK_ID_MASK :: u8 where
  "BLOCK_ID_MASK = 0x1f"

definition MAX_BLOCK_PAYLOAD_SIZE_LOG :: nat where
  "MAX_BLOCK_PAYLOAD_SIZE_LOG = LOG2 CONFIG_POUCH_BLOCK_SIZE"

definition MAX_BLOCK_PAYLOAD_SIZE :: nat where
  "MAX_BLOCK_PAYLOAD_SIZE = 2 ^ MAX_BLOCK_PAYLOAD_SIZE_LOG"

definition BLOCK_HEADER_SIZE :: nat where
  "BLOCK_HEADER_SIZE = 3"

definition MAX_PLAINTEXT_BLOCK_SIZE :: nat where
  "MAX_PLAINTEXT_BLOCK_SIZE = BLOCK_HEADER_SIZE + MAX_BLOCK_PAYLOAD_SIZE"

text \<open>The tag length is 16 with SAEAD encryption and 0 without encryption.\<close>

definition MAX_CIPHERTEXT_BLOCK_SIZE :: "nat \<Rightarrow> nat" where
  "MAX_CIPHERTEXT_BLOCK_SIZE auth_tag_len = MAX_PLAINTEXT_BLOCK_SIZE + auth_tag_len"

definition MAX_BLOCK_SIZE_FIELD_VALUE :: "nat \<Rightarrow> nat" where
  "MAX_BLOCK_SIZE_FIELD_VALUE auth_tag_len = MAX_CIPHERTEXT_BLOCK_SIZE auth_tag_len - 2"

definition BLOCK_ID_ENTRY :: u8 where
  "BLOCK_ID_ENTRY = 0"

definition FIRST_DATA_MASK :: u8 where
  "FIRST_DATA_MASK = 0x40"

definition LAST_DATA_MASK :: u8 where
  "LAST_DATA_MASK = 0x80"

section \<open>Operations\<close>

record block_hdr =
  bh_size :: u16
  bh_stream_id :: u8
  bh_is_stream :: bool
  bh_is_first :: bool
  bh_is_last :: bool

definition block_decode_hdr :: "pouch_bufview \<Rightarrow> heap \<Rightarrow> (block_hdr \<times> pouch_bufview) option" where
  "block_decode_hdr v h =
     (if bv_offset v \<noteq> 0 then None
      else do {
        (block_size, v1) \<leftarrow> pouch_bufview_read_be16 v h;
        (bid, v2) \<leftarrow> pouch_bufview_read_byte v1 h;
        let stream_id = bid AND BLOCK_ID_MASK;
        Some (\<lparr>bh_size = block_size, bh_stream_id = stream_id,
               bh_is_stream = (stream_id \<noteq> BLOCK_ID_ENTRY),
               bh_is_first = (bid AND FIRST_DATA_MASK \<noteq> 0),
               bh_is_last = (bid AND LAST_DATA_MASK \<noteq> 0)\<rparr>, v2) })"

definition update_block_header :: "pouch_buf \<Rightarrow> nat \<Rightarrow> u8 \<Rightarrow> pouch_buf option" where
  "update_block_header b sz flags =
     do { b1 \<leftarrow> buf_write b (put_be16 (of_nat sz));
          let (p, b2) = buf_claim b1 1;
          old \<leftarrow> mem_read (pb_mem b2) p 1;
          put_at p [old ! 0 OR flags] b2 }"

definition write_block_header :: "pouch_buf \<Rightarrow> nat \<Rightarrow> u8 \<Rightarrow> u8 \<Rightarrow> pouch_buf option" where
  "write_block_header b sz bid flags =
     do { b1 \<leftarrow> buf_write b (put_be16 (of_nat sz)); buf_write b1 [bid OR flags] }"

definition block_size_get :: "pouch_buf \<Rightarrow> nat" where
  "block_size_get b = buf_size_get b"

definition block_space_get :: "pouch_buf \<Rightarrow> nat" where
  "block_space_get b = szt_sub MAX_PLAINTEXT_BLOCK_SIZE (block_size_get b)"

definition block_size_write :: "pouch_buf \<Rightarrow> u16 \<Rightarrow> pouch_buf option" where
  "block_size_write b sz = buf_write b (put_be16 sz)"

definition block_alloc :: "heap \<Rightarrow> (addr option \<times> heap) option" where
  "block_alloc h =
     (case buf_alloc MAX_PLAINTEXT_BLOCK_SIZE h of
        (None, h') \<Rightarrow> Some (None, h')
      | (Some a, h') \<Rightarrow> do {
          h'' \<leftarrow> upd_buf a (\<lambda>b. write_block_header b 0 BLOCK_ID_ENTRY
                                 (FIRST_DATA_MASK OR LAST_DATA_MASK)) h';
          Some (Some a, h'') })"

definition block_alloc_stream :: "u8 \<Rightarrow> bool \<Rightarrow> heap \<Rightarrow> (addr option \<times> heap) option" where
  "block_alloc_stream stream_id is_first h =
     (case buf_alloc MAX_PLAINTEXT_BLOCK_SIZE h of
        (None, h') \<Rightarrow> Some (None, h')
      | (Some a, h') \<Rightarrow> do {
          h'' \<leftarrow> upd_buf a (\<lambda>b. write_block_header b 0 stream_id
                                 (if is_first then FIRST_DATA_MASK else 0)) h';
          Some (Some a, h'') })"

definition block_free :: "addr option \<Rightarrow> heap \<Rightarrow> heap option" where
  "block_free p h = buf_free p h"

definition finish :: "pouch_buf \<Rightarrow> u8 \<Rightarrow> u8 \<Rightarrow> pouch_buf option" where
  "finish b bid flags =
     (let sz = block_size_get b; st = buf_state_get b;
          b0 = buf_restore b POUCH_BUF_STATE_INITIAL in
      do { b1 \<leftarrow> update_block_header b0 (szt_sub sz 2) flags; Some (buf_restore b1 st) })"

definition block_finish :: "pouch_buf \<Rightarrow> pouch_buf option" where
  "block_finish b = finish b BLOCK_ID_ENTRY (FIRST_DATA_MASK OR LAST_DATA_MASK)"

definition block_finish_stream :: "pouch_buf \<Rightarrow> u8 \<Rightarrow> bool \<Rightarrow> pouch_buf option" where
  "block_finish_stream b stream_id is_last =
     finish b stream_id (if is_last then LAST_DATA_MASK else 0)"

section \<open>Lemmas\<close>

lemma block_size_consts [simp]:
  "MAX_BLOCK_PAYLOAD_SIZE_LOG = 9" "MAX_BLOCK_PAYLOAD_SIZE = 512"
  "MAX_PLAINTEXT_BLOCK_SIZE = 515" "MAX_CIPHERTEXT_BLOCK_SIZE t = 515 + t"
  "MAX_BLOCK_SIZE_FIELD_VALUE t = 513 + t"
  by (simp_all add: MAX_BLOCK_PAYLOAD_SIZE_LOG_def MAX_BLOCK_PAYLOAD_SIZE_def
      CONFIG_POUCH_BLOCK_SIZE_def MAX_PLAINTEXT_BLOCK_SIZE_def BLOCK_HEADER_SIZE_def
      MAX_CIPHERTEXT_BLOCK_SIZE_def MAX_BLOCK_SIZE_FIELD_VALUE_def LOG2.simps)

lemma SIZE_MOD_num: "SIZE_MOD = 4294967296"
  by (simp add: SIZE_MOD_def)

text \<open>
  A block under construction: three header bytes, then the payload written so far. \<open>is_block
  b bid pl\<close> leaves the size field open, which only \<open>finish\<close> fills in.
\<close>

definition is_block :: "pouch_buf \<Rightarrow> u8 \<Rightarrow> u8 list \<Rightarrow> bool" where
  "is_block b bid pl \<longleftrightarrow> buf_ok b \<and> cap b = MAX_PLAINTEXT_BLOCK_SIZE
     \<and> (\<exists>w. contents b = put_be16 w @ [bid] @ pl)"

text \<open>The wire image of a finished block.\<close>

definition block_wire :: "u8 \<Rightarrow> u8 list \<Rightarrow> u8 list" where
  "block_wire bid pl = put_be16 (of_nat (Suc (length pl))) @ [bid] @ pl"

lemma is_block_bytes:
  assumes "is_block b bid pl"
  shows "pb_bytes b = 3 + length pl" and "length pl \<le> 512" and "pb_bytes b \<le> 515"
proof -
  from assms obtain w where "contents b = put_be16 w @ [bid] @ pl" and ok: "buf_ok b" "cap b = 515"
    by (auto simp: is_block_def)
  then have "length (contents b) = 3 + length pl" by simp
  with ok show "pb_bytes b = 3 + length pl" by simp
  with ok show "length pl \<le> 512" "pb_bytes b \<le> 515" by (auto simp: buf_ok_def)
qed

lemma is_block_ok: "is_block b bid pl \<Longrightarrow> buf_ok b" "is_block b bid pl \<Longrightarrow> cap b = 515"
  by (simp_all add: is_block_def)

lemma is_block_space: "is_block b bid pl \<Longrightarrow> block_space_get b = 512 - length pl"
  using is_block_bytes [of b bid pl]
  by (simp add: block_space_get_def block_size_get_def buf_size_get_def SIZE_MOD_num)

lemma is_block_fits: "is_block b bid pl \<Longrightarrow> length pl + n \<le> 512 \<Longrightarrow> fits b n"
  using is_block_bytes(1) [of b bid pl] is_block_ok [of b bid pl] by (simp add: fits_def)

lemma is_block_append:
  assumes "is_block b bid pl" and "length pl + length d \<le> 512"
  shows "is_block (append_buf b d) bid (pl @ d)"
proof -
  note ab = append_buf_simps [OF is_block_fits [OF assms]]
  from assms(1) obtain w where "contents b = put_be16 w @ [bid] @ pl" "cap b = 515"
    by (auto simp: is_block_def)
  then have "contents (append_buf b d) = put_be16 w @ [bid] @ pl @ d"
    by (simp add: ab(1))
  with ab(3,4) \<open>cap b = 515\<close> show ?thesis by (simp only: is_block_def block_size_consts) blast
qed

lemma is_block_write:
  assumes "is_block b bid pl" and "length pl + length d \<le> 512"
  shows "buf_write b d = Some (append_buf b d)"
  using buf_write_fits [OF is_block_fits [OF assms]] .

lemma write_block_header_new:
  assumes "buf_ok b" and "cap b = 515" and "pb_bytes b = 0"
  shows "\<exists>b'. write_block_header b sz bid flags = Some b' \<and> is_block b' (bid OR flags) []"
proof -
  have f: "fits b 3" using assms by (simp add: fits_def)
  have c: "contents b = []" using assms(3) by (simp add: contents_def)
  let ?d = "put_be16 (of_nat sz) @ [bid OR flags]"
  have "write_block_header b sz bid flags = buf_write b ?d"
    using buf_write_seq [of b "put_be16 (of_nat sz)" "[bid OR flags]"] f
    by (simp add: write_block_header_def)
  also have "\<dots> = Some (append_buf b ?d)" using f by (simp add: buf_write_fits)
  finally show ?thesis
    using append_buf_simps [of b ?d] f assms c by (auto simp: is_block_def)
qed

lemma alloc_block_cases:
  assumes "heap_ok h" and "hdr = (\<lambda>b. write_block_header b sz bid flags)"
  obtains (fail) h' where "buf_alloc MAX_PLAINTEXT_BLOCK_SIZE h = (None, h')" "heap_ok h'"
      "store h' = store h" "bufs h' = bufs h" "malloc_oracle h (next_addr h) = None"
      "malloc_oracle h' = malloc_oracle h" "next_addr h \<le> next_addr h'"
    | (ok) a b h1 h' where "buf_alloc MAX_PLAINTEXT_BLOCK_SIZE h = (Some a, h1)"
      "upd_buf a hdr h1 = Some h'" "heap_ok h'" "store h a = None"
      "store h' = (store h)(a \<mapsto> b)" "is_block b (bid OR flags) []" "bufs h' = bufs h + 1"
      "malloc_oracle h (next_addr h) \<noteq> None" "malloc_oracle h' = malloc_oracle h"
      "next_addr h \<le> next_addr h'"
proof -
  have sz: "MAX_PLAINTEXT_BLOCK_SIZE < SIZE_MOD" by (simp add: SIZE_MOD_num)
  show ?thesis
  proof (cases rule: buf_alloc_cases [OF assms(1) sz])
    case (1 h')
    then show ?thesis by (intro fail [of h']) auto
  next
    case (2 a b0 h1)
    then obtain b where b: "hdr b0 = Some b" "is_block b (bid OR flags) []"
      using write_block_header_new [of b0 sz bid flags] assms(2) by auto
    let ?h = "h1\<lparr>store := (store h1)(a \<mapsto> b)\<rparr>"
    have st: "store h1 a = Some b0" using 2 by simp
    have "upd_buf a hdr h1 = Some ?h" by (rule upd_buf_eq [where b = b0]) (use st b(1) in simp_all)
    moreover have "heap_ok ?h"
      using heap_ok_upd [OF 2(2) st] b(2) by (simp add: is_block_def)
    ultimately show ?thesis
      using 2 b(2) by (intro ok [of a h1 ?h b]) auto
  qed
qed

text \<open>\<^verbatim>\<open>block_alloc()\<close> and \<^verbatim>\<open>block_alloc_stream()\<close>: a fresh empty block or NULL.\<close>

lemma block_alloc_cases:
  assumes "heap_ok h"
  obtains (fail) h' where "block_alloc h = Some (None, h')" "heap_ok h'" "store h' = store h"
      "bufs h' = bufs h" "malloc_oracle h (next_addr h) = None" "malloc_oracle h' = malloc_oracle h" "next_addr h \<le> next_addr h'"
    | (ok) a b h' where "block_alloc h = Some (Some a, h')" "heap_ok h'" "store h a = None"
      "store h' = (store h)(a \<mapsto> b)" "is_block b 0xc0 []" "bufs h' = bufs h + 1"
      "malloc_oracle h (next_addr h) \<noteq> None" "malloc_oracle h' = malloc_oracle h"
      "next_addr h \<le> next_addr h'"
proof (cases rule: alloc_block_cases [where sz = 0 and bid = BLOCK_ID_ENTRY
      and flags = "FIRST_DATA_MASK OR LAST_DATA_MASK", OF assms refl])
  case (1 h')
  then show ?thesis by (intro fail [of h']) (auto simp: block_alloc_def)
next
  case (2 a b h1 h')
  then show ?thesis
    by (intro ok [of a h' b])
       (auto simp: block_alloc_def BLOCK_ID_ENTRY_def FIRST_DATA_MASK_def LAST_DATA_MASK_def)
qed

lemma block_alloc_stream_cases:
  assumes "heap_ok h"
  obtains (fail) h' where "block_alloc_stream sid f h = Some (None, h')" "heap_ok h'"
      "store h' = store h" "bufs h' = bufs h" "malloc_oracle h (next_addr h) = None"
      "malloc_oracle h' = malloc_oracle h" "next_addr h \<le> next_addr h'"
    | (ok) a b h' where "block_alloc_stream sid f h = Some (Some a, h')" "heap_ok h'"
      "store h a = None" "store h' = (store h)(a \<mapsto> b)"
      "is_block b (sid OR (if f then FIRST_DATA_MASK else 0)) []" "bufs h' = bufs h + 1"
      "malloc_oracle h (next_addr h) \<noteq> None" "malloc_oracle h' = malloc_oracle h"
      "next_addr h \<le> next_addr h'"
proof (cases rule: alloc_block_cases [where sz = 0 and bid = sid
      and flags = "if f then FIRST_DATA_MASK else 0", OF assms refl])
  case (1 h')
  then show ?thesis by (intro fail [of h']) (auto simp: block_alloc_stream_def)
next
  case (2 a b h1 h')
  then show ?thesis by (intro ok [of a h' b]) (auto simp: block_alloc_stream_def)
qed

text \<open>Finishing a block fills in the size field, sets the flags and keeps the payload.\<close>

lemma finish_block:
  assumes "is_block b bid pl"
  shows "\<exists>b'. finish b x flags = Some b' \<and> is_block b' (bid OR flags) pl
           \<and> contents b' = block_wire (bid OR flags) pl"
proof -
  from assms obtain w where c: "contents b = put_be16 w @ [bid] @ pl" by (auto simp: is_block_def)
  note n = is_block_bytes [OF assms]
  define rest where "rest = drop (pb_bytes b) (pb_mem b)"
  have mem: "pb_mem b = put_be16 w @ [bid] @ pl @ rest"
    using take_split [OF c [unfolded contents_def]] by (simp add: rest_def)
  let ?sz = "of_nat (Suc (length pl)) :: u16"
  let ?b = "b\<lparr>pb_mem := put_be16 ?sz @ [bid OR flags] @ pl @ rest\<rparr>"
  have "finish b x flags = Some ?b"
    using n
    by (simp add: finish_def block_size_get_def buf_size_get_def buf_state_get_def buf_restore_def
        POUCH_BUF_STATE_INITIAL_def update_block_header_def buf_write_def buf_claim_def put_at_def
        mem mem_write_def mem_read_def put_be16_def SIZE_MOD_num szt_add_def)
  moreover have cb: "contents ?b = block_wire (bid OR flags) pl"
    using n by (simp add: contents_def block_wire_def numeral_3_eq_3 put_be16_def)
  moreover have "cap ?b = cap b" by (simp add: cap_def mem put_be16_def)
  ultimately show ?thesis
    using assms by (auto simp: is_block_def buf_ok_def block_wire_def)
qed

lemmas block_finish_block = finish_block [of _ _ _ BLOCK_ID_ENTRY
    "FIRST_DATA_MASK OR LAST_DATA_MASK", folded block_finish_def]

lemmas block_finish_stream_block = finish_block [of _ _ _ sid
    "if is_last then LAST_DATA_MASK else 0" for sid is_last, folded block_finish_stream_def]

lemma block_decode_hdr_view:
  assumes "view_at v h b 0" and "contents b = put_be16 w @ [bid] @ pl"
  shows "\<exists>v'. block_decode_hdr v h =
      Some (\<lparr>bh_size = w, bh_stream_id = bid AND BLOCK_ID_MASK,
             bh_is_stream = (bid AND BLOCK_ID_MASK \<noteq> BLOCK_ID_ENTRY),
             bh_is_first = (bid AND FIRST_DATA_MASK \<noteq> 0),
             bh_is_last = (bid AND LAST_DATA_MASK \<noteq> 0)\<rparr>, v') \<and> view_at v' h b 3"
proof -
  from pouch_bufview_read_be16_view [OF assms(1), of w "[bid] @ pl"] assms(2)
  obtain v1 where v1: "pouch_bufview_read_be16 v h = Some (w, v1)" "view_at v1 h b 2"
    by auto
  have "drop 2 (contents b) = bid # pl" using assms(2) by (simp add: put_be16_def)
  from pouch_bufview_read_byte_view [OF v1(2) this]
  obtain v2 where "pouch_bufview_read_byte v1 h = Some (bid, v2)" "view_at v2 h b 3"
    by auto
  moreover have "bv_offset v = 0" using assms(1) by (simp add: view_at_def)
  ultimately show ?thesis using v1 by (simp add: block_decode_hdr_def Let_def)
qed

lemma contents_block_wire_bytes:
  "length (block_wire bid pl) = 3 + length pl"
  by (simp add: block_wire_def)

end
