(* ===== verification/Ownership.thy ===== *)
theory Ownership
  imports Block "HOL-Library.Multiset"
begin

text \<open>
  Who may touch which buffer. A list of roles pairs each address a component holds with what
  the component knows about the buffer behind it; \<open>own h R\<close> says that the heap is well-formed,
  that no address is held twice and that every held buffer is live and as its holder expects.

  \<open>hstep h R h' R'\<close> is a change of the heap that is safe for everybody: the new roles are
  owned again, no live buffer appeared or vanished outside the roles (nothing leaks and nothing
  foreign is released), and foreign buffers keep their value.
\<close>

type_synonym role = "addr \<times> (pouch_buf \<Rightarrow> bool)"

definition own :: "heap \<Rightarrow> role list \<Rightarrow> bool" where
  "own h R \<longleftrightarrow> heap_ok h \<and> distinct (map fst R)
     \<and> (\<forall>(a, P)\<in>set R. \<exists>b. store h a = Some b \<and> P b)"

definition foreign :: "heap \<Rightarrow> role list \<Rightarrow> addr set" where
  "foreign h R = live h - fst ` set R"

definition hstep :: "heap \<Rightarrow> role list \<Rightarrow> heap \<Rightarrow> role list \<Rightarrow> bool" where
  "hstep h R h' R' \<longleftrightarrow> own h' R' \<and> foreign h' R' = foreign h R
     \<and> (\<forall>a\<in>foreign h R. store h' a = store h a) \<and> next_addr h \<le> next_addr h'
     \<and> malloc_oracle h' = malloc_oracle h"

lemma own_heap_ok: "own h R \<Longrightarrow> heap_ok h"
  by (simp add: own_def)

lemma ownD: "own h R \<Longrightarrow> (a, P) \<in> set R \<Longrightarrow> \<exists>b. store h a = Some b \<and> P b \<and> buf_ok b"
  by (fastforce simp: own_def dest: heap_ok_buf_ok)

lemma own_Cons_iff:
  "own h ((a, P) # R) \<longleftrightarrow> own h R \<and> a \<notin> fst ` set R \<and> (\<exists>b. store h a = Some b \<and> P b)"
  by (auto simp: own_def)

lemma own_perm: "own h R \<Longrightarrow> mset R = mset R' \<Longrightarrow> own h R'"
  using mset_eq_setD [of R R'] mset_eq_imp_distinct_iff [of "map fst R" "map fst R'"]
  by (auto simp: own_def mset_map)

lemma own_remove1: "own h R \<Longrightarrow> x \<in> set R \<Longrightarrow> own h (x # remove1 x R)"
  by (erule own_perm) simp

lemma hstep_own: "hstep h R h' R' \<Longrightarrow> own h' R'"
  by (simp add: hstep_def)

lemma hstep_env:
  "hstep h R h' R' \<Longrightarrow> malloc_oracle h' = malloc_oracle h"
  "hstep h R h' R' \<Longrightarrow> next_addr h \<le> next_addr h'"
  by (simp_all add: hstep_def)

lemma hstep_refl: "own h R \<Longrightarrow> hstep h R h R"
  by (simp add: hstep_def)

lemma hstep_trans [trans]: "hstep h R h' R' \<Longrightarrow> hstep h' R' h'' R'' \<Longrightarrow> hstep h R h'' R''"
  by (simp add: hstep_def)

lemma hstep_perm: "own h R \<Longrightarrow> mset R = mset R' \<Longrightarrow> hstep h R h R'"
  using own_perm [of h R R'] mset_eq_setD [of R R'] by (simp add: hstep_def foreign_def)

text \<open>What a holder knows may be weakened, and replaced when it still holds.\<close>

lemma hstep_role:
  assumes "own h ((a, P) # R)" and "\<And>b. store h a = Some b \<Longrightarrow> P b \<Longrightarrow> Q b"
  shows "hstep h ((a, P) # R) h ((a, Q) # R)"
  using assms by (auto simp: hstep_def own_Cons_iff foreign_def)

lemma own_frame:
  assumes "own h R" and "heap_ok h'" and "\<And>a. a \<in> fst ` set R \<Longrightarrow> store h' a = store h a"
  shows "own h' R"
proof -
  have "\<exists>b. store h' (fst x) = Some b \<and> snd x b" if "x \<in> set R" for x
    using assms(1,3) that by (auto simp: own_def split_beta)
  with assms(1,2) show ?thesis by (auto simp: own_def split_beta)
qed

text \<open>The three things an operation does with a buffer: change it, allocate it, release it.\<close>

lemma hstep_upd:
  assumes "own h ((a, P) # R)" and "Q b'" and "buf_ok b'"
  shows "hstep h ((a, P) # R) (h\<lparr>store := (store h)(a \<mapsto> b')\<rparr>) ((a, Q) # R)"
proof -
  let ?h = "h\<lparr>store := (store h)(a \<mapsto> b')\<rparr>"
  from assms(1) obtain b where b: "store h a = Some b" and a: "a \<notin> fst ` set R" and R: "own h R"
    by (auto simp: own_Cons_iff)
  have "own ?h R"
    by (rule own_frame [OF R heap_ok_upd [OF own_heap_ok [OF R] b assms(3)]]) (use a in auto)
  then have "own ?h ((a, Q) # R)" using a assms(2) by (simp add: own_Cons_iff)
  then show ?thesis using b by (auto simp: hstep_def foreign_def live_def)
qed

lemma hstep_alloc:
  assumes "own h R" and "heap_ok h'" and "store h a = None" and "store h' = (store h)(a \<mapsto> b)"
    and "Q b" and "next_addr h \<le> next_addr h'" and "malloc_oracle h' = malloc_oracle h"
  shows "hstep h R h' ((a, Q) # R)"
proof -
  have a: "a \<notin> fst ` set R" using assms(1,3) by (force simp: own_def)
  have "own h' R" by (rule own_frame [OF assms(1,2)]) (use a assms(4) in auto)
  then have "own h' ((a, Q) # R)" using a assms(4,5) by (simp add: own_Cons_iff)
  then show ?thesis using assms(3,4,6,7) by (auto simp: hstep_def foreign_def live_def)
qed

lemma hstep_nop:
  assumes "own h R" and "heap_ok h'" and "store h' = store h"
    and "next_addr h \<le> next_addr h'" and "malloc_oracle h' = malloc_oracle h"
  shows "hstep h R h' R"
  using own_frame [OF assms(1,2)] assms(3-5) by (auto simp: hstep_def foreign_def live_def)

lemma hstep_free:
  assumes "own h ((a, P) # R)"
  shows "\<exists>h'. buf_free (Some a) h = Some h' \<and> hstep h ((a, P) # R) h' R
           \<and> store h' = (store h)(a := None) \<and> malloc_oracle h' = malloc_oracle h"
proof -
  from assms have a: "a \<notin> fst ` set R" and R: "own h R" and l: "a \<in> live h"
    by (auto simp: own_Cons_iff in_live_iff)
  from buf_free_live [OF own_heap_ok [OF R] l] obtain h' where h':
    "buf_free (Some a) h = Some h'" "heap_ok h'" "store h' = (store h)(a := None)"
    "malloc_oracle h' = malloc_oracle h" "next_addr h' = next_addr h" by blast
  have "own h' R" by (rule own_frame [OF R h'(2)]) (use a h'(3) in auto)
  then have "hstep h ((a, P) # R) h' R"
    using a h'(3-5) by (auto simp: hstep_def foreign_def live_def)
  with h' show ?thesis by blast
qed

text \<open>Weakening what is known of several buffers at once.\<close>

definition role_le :: "role list \<Rightarrow> role list \<Rightarrow> bool" where
  "role_le R R' \<longleftrightarrow> list_all2 (\<lambda>x y. fst x = fst y \<and> (\<forall>b. snd x b \<longrightarrow> snd y b)) R R'"

lemma role_le_refl [simp]: "role_le R R"
  by (simp add: role_le_def list.rel_refl)

lemma role_le_app: "role_le R R' \<Longrightarrow> role_le S S' \<Longrightarrow> role_le (R @ S) (R' @ S')"
  unfolding role_le_def by (rule list_all2_appendI)

lemma role_le_fst: "role_le R R' \<Longrightarrow> map fst R = map fst R'"
  unfolding role_le_def by (induction rule: list_all2_induct) auto

lemma own_role_le: "role_le R R' \<Longrightarrow> own h R \<Longrightarrow> own h R'"
  unfolding role_le_def
proof (induction rule: list_all2_induct)
  case (Cons x R y R')
  have "map fst R = map fst R'" using Cons.hyps(2) by (intro role_le_fst) (simp add: role_le_def)
  then have "fst ` set R = fst ` set R'" by (metis list.set_map)
  with Cons show ?case by (cases x; cases y) (auto simp: own_Cons_iff)
qed simp

lemma hstep_role_le: "own h R \<Longrightarrow> role_le R R' \<Longrightarrow> hstep h R h R'"
  using own_role_le [of R R' h] role_le_fst [of R R'] list.set_map [of fst]
  by (metis foreign_def hstep_def order_refl)

text \<open>A step on some roles leaves the buffers of all other roles alone.\<close>

lemma hstep_foreign_store:
  "hstep h R h' R' \<Longrightarrow> a \<in> live h \<Longrightarrow> a \<notin> fst ` set R \<Longrightarrow> store h' a = store h a"
  by (simp add: hstep_def foreign_def)

lemma hstep_app:
  assumes "hstep h R h' R'" and "own h (R @ S)"
  shows "hstep h (R @ S) h' (R' @ S)"
proof -
  let ?S = "fst ` set S"
  have S: "?S \<subseteq> live h" "?S \<inter> fst ` set R = {}" "distinct (map fst S)"
    using assms(2) by (auto simp: own_def live_def split_beta)
  then have F: "?S \<subseteq> foreign h R" by (auto simp: foreign_def)
  then have keep: "\<And>a. a \<in> ?S \<Longrightarrow> store h' a = store h a"
    using assms(1) by (auto simp: hstep_def)
  have F': "?S \<subseteq> foreign h' R'" using assms(1) F by (simp add: hstep_def)
  then have "?S \<inter> fst ` set R' = {}" by (auto simp: foreign_def)
  moreover have "\<exists>b. store h' (fst x) = Some b \<and> snd x b" if "x \<in> set S" for x
    using assms(2) keep that by (auto simp: own_def split_beta)
  ultimately have "own h' (R' @ S)"
    using hstep_own [OF assms(1)] S(3) by (auto simp: own_def split_beta)
  moreover have "foreign h' (R' @ S) = foreign h (R @ S)"
    using assms(1) by (auto simp: hstep_def foreign_def)
  ultimately show ?thesis
    using assms(1) by (auto simp: hstep_def foreign_def)
qed

end
