(* ===== verification/State.thy ===== *)
theory State
  imports Ownership
begin

text \<open>
  The static variables of the pouch library, gathered in one record: those of
  \<^verbatim>\<open>src/uplink.c\<close>, \<^verbatim>\<open>src/entry.c\<close>, \<^verbatim>\<open>src/stream.c\<close>, \<^verbatim>\<open>src/downlink.c\<close> and
  \<^verbatim>\<open>src/pouch.c\<close>, the state of the crypto backend (the type parameter), and the heap. The
  operations of \<^verbatim>\<open>src/uplink.c\<close> that the entry and stream writers call are here too, and the
  ownership invariant that every uplink operation keeps.

  A \<^verbatim>\<open>struct k_work\<close> is the flag that says whether it is queued; the functions a work item
  runs are steps of their own.
\<close>

section \<open>Records\<close>

datatype pouch_event = POUCH_EVENT_SESSION_START | POUCH_EVENT_SESSION_END

text \<open>Bit numbers of \<open>up_flags\<close>.\<close>

definition SESSION_ACTIVE :: nat where "SESSION_ACTIVE = 0"
definition POUCH_CLOSING :: nat where "POUCH_CLOSING = 1"
definition POUCH_CLOSED :: nat where "POUCH_CLOSED = 2"

record pouch_uplink =
  up_header :: "addr option"
  up_flags :: u32
  up_id :: u32
  up_error :: int
  up_processing_queue :: pouch_buf_queue
  up_processing_work :: bool
  up_transport_queue :: pouch_buf_queue
  up_transport_reader :: pouch_bufview

record pouch_stream =
  st_id :: u8
  st_buf :: addr
  st_bytes :: nat
  st_session_id :: u32

record pouch_downlink =
  dl_pouch_buf :: "addr option"
  dl_pouch_header :: bool
  dl_decrypt_queue :: pouch_buf_queue
  dl_decrypt_work :: bool
  dl_consume_queue :: pouch_buf_queue
  dl_consume_work :: bool

text \<open>
  \<open>p_block\<close> is the static \<^verbatim>\<open>block\<close> of \<^verbatim>\<open>src/entry.c\<close>; \<open>p_streams\<close> holds the
  \<^verbatim>\<open>struct pouch_stream\<close> objects that are open, by their address.
\<close>

record 'c pouch =
  p_heap :: heap
  p_uplink :: pouch_uplink
  p_block :: "addr option"
  p_stream_id :: u32
  p_open_streams :: int
  p_streams :: "(addr \<times> pouch_stream) list"
  p_events :: "pouch_event list"
  p_event_work :: bool
  p_downlink :: pouch_downlink
  p_crypto :: 'c

text \<open>The values of the static variables before the first call.\<close>

definition uplink_static :: pouch_uplink where
  "uplink_static = \<lparr>up_header = None, up_flags = 0, up_id = 0, up_error = 0,
     up_processing_queue = [], up_processing_work = False, up_transport_queue = [],
     up_transport_reader = \<lparr>bv_buf = None, bv_offset = 0\<rparr>\<rparr>"

definition downlink_static :: pouch_downlink where
  "downlink_static = \<lparr>dl_pouch_buf = None, dl_pouch_header = False, dl_decrypt_queue = [],
     dl_decrypt_work = False, dl_consume_queue = [], dl_consume_work = False\<rparr>"

definition heap_static :: "(addr \<Rightarrow> (nat \<Rightarrow> u8) option) \<Rightarrow> heap" where
  "heap_static oracle =
     \<lparr>store = (\<lambda>a. None), next_addr = 0, malloc_oracle = oracle, bufs = 0\<rparr>"

definition pouch_static :: "(addr \<Rightarrow> (nat \<Rightarrow> u8) option) \<Rightarrow> 'c \<Rightarrow> 'c pouch" where
  "pouch_static oracle c = \<lparr>p_heap = heap_static oracle, p_uplink = uplink_static, p_block = None,
     p_stream_id = 1, p_open_streams = 0, p_streams = [], p_events = [], p_event_work = False,
     p_downlink = downlink_static, p_crypto = c\<rparr>"

section \<open>The uplink operations that writers use\<close>

definition session_is_active :: "pouch_uplink \<Rightarrow> bool" where
  "session_is_active u = bit (up_flags u) SESSION_ACTIVE"

definition pouch_is_open :: "pouch_uplink \<Rightarrow> bool" where
  "pouch_is_open u = (\<not> bit (up_flags u) POUCH_CLOSED)"

definition pouch_is_closing :: "pouch_uplink \<Rightarrow> bool" where
  "pouch_is_closing u = bit (up_flags u) POUCH_CLOSING"

definition uplink_enqueue :: "addr \<Rightarrow> 'c pouch \<Rightarrow> 'c pouch" where
  "uplink_enqueue a s =
     s\<lparr>p_uplink := (p_uplink s)
        \<lparr>up_processing_queue := buf_queue_submit (up_processing_queue (p_uplink s)) a,
         up_processing_work := True\<rparr>\<rparr>"

definition uplink_session_id :: "'c pouch \<Rightarrow> u32" where
  "uplink_session_id s = up_id (p_uplink s)"

section \<open>Ownership on the uplink side\<close>

text \<open>A finished block, as it waits for encryption.\<close>

definition block_done :: "pouch_buf \<Rightarrow> bool" where
  "block_done b \<longleftrightarrow> (\<exists>bid pl. is_block b bid pl \<and> contents b = block_wire bid pl)"

definition entry_role :: "pouch_buf \<Rightarrow> bool" where
  "entry_role b \<longleftrightarrow> (\<exists>pl. is_block b 0xc0 pl)"

definition stream_role :: "pouch_buf \<Rightarrow> bool" where
  "stream_role b \<longleftrightarrow> (\<exists>bid pl. is_block b bid pl)"

definition any_role :: "pouch_buf \<Rightarrow> bool" where
  "any_role b \<longleftrightarrow> True"

definition reader_role :: "nat \<Rightarrow> pouch_buf \<Rightarrow> bool" where
  "reader_role n b \<longleftrightarrow> n < pb_bytes b"

definition opt_role :: "addr option \<Rightarrow> (pouch_buf \<Rightarrow> bool) \<Rightarrow> role list" where
  "opt_role p P = (case p of None \<Rightarrow> [] | Some a \<Rightarrow> [(a, P)])"

definition list_role :: "addr list \<Rightarrow> (pouch_buf \<Rightarrow> bool) \<Rightarrow> role list" where
  "list_role as P = map (\<lambda>a. (a, P)) as"

text \<open>
  Who holds which buffer on the uplink side: the open entry block, the two queues, the pouch
  header, the transport reader and the open streams.
\<close>

definition transport_roles :: "pouch_uplink \<Rightarrow> role list" where
  "transport_roles u = list_role (up_transport_queue u) any_role @ opt_role (up_header u) any_role
     @ opt_role (bv_buf (up_transport_reader u)) (reader_role (bv_offset (up_transport_reader u)))"

definition stream_roles :: "(addr \<times> pouch_stream) list \<Rightarrow> role list" where
  "stream_roles sts = map (\<lambda>(sp, st). (st_buf st, stream_role)) sts"

definition uplink_roles :: "'c pouch \<Rightarrow> role list" where
  "uplink_roles s = opt_role (p_block s) entry_role
     @ list_role (up_processing_queue (p_uplink s)) block_done
     @ stream_roles (p_streams s) @ transport_roles (p_uplink s)"

definition streams_ok :: "'c pouch \<Rightarrow> bool" where
  "streams_ok s \<longleftrightarrow> distinct (map fst (p_streams s)) \<and> p_open_streams s = int (length (p_streams s))
     \<and> (\<forall>sp\<in>fst ` set (p_streams s). sp < next_addr (p_heap s))"

definition uplink_inv :: "'c pouch \<Rightarrow> bool" where
  "uplink_inv s \<longleftrightarrow> own (p_heap s) (uplink_roles s) \<and> streams_ok s"

text \<open>
  What every uplink operation promises: the invariant still holds, no buffer is leaked or taken
  from elsewhere, and the buffers of others are as they were.
\<close>

definition uplink_safe :: "'c pouch \<Rightarrow> 'c pouch \<Rightarrow> bool" where
  "uplink_safe s s' \<longleftrightarrow> uplink_inv s' \<and> hstep (p_heap s) (uplink_roles s) (p_heap s') (uplink_roles s')"

lemma uplink_safe_refl: "uplink_inv s \<Longrightarrow> uplink_safe s s"
  by (simp add: uplink_safe_def uplink_inv_def hstep_refl)

text \<open>No allocation fails; the operations do not change that.\<close>

definition mallocs :: "'c pouch \<Rightarrow> bool" where
  "mallocs s \<longleftrightarrow> (\<forall>k. malloc_oracle (p_heap s) k \<noteq> None)"

lemma uplink_safe_mallocs: "uplink_safe s s' \<Longrightarrow> mallocs s' = mallocs s"
  by (auto simp: uplink_safe_def mallocs_def hstep_env)

lemma uplink_safe_trans: "uplink_safe s s' \<Longrightarrow> uplink_safe s' s'' \<Longrightarrow> uplink_safe s s''"
  by (auto simp: uplink_safe_def intro: hstep_trans)

lemma uplink_safe_inv: "uplink_safe s s' \<Longrightarrow> uplink_inv s'"
  by (simp add: uplink_safe_def)

lemma uplink_safeI:
  "hstep (p_heap s) (uplink_roles s) (p_heap s') (uplink_roles s') \<Longrightarrow> streams_ok s' \<Longrightarrow>
     uplink_safe s s'"
  by (simp add: uplink_safe_def uplink_inv_def hstep_own)

lemma uplink_inv_own: "uplink_inv s \<Longrightarrow> own (p_heap s) (uplink_roles s)"
  by (simp add: uplink_inv_def)

lemma uplink_inv_heap: "uplink_inv s \<Longrightarrow> heap_ok (p_heap s)"
  by (simp add: uplink_inv_def own_def)

lemma uplink_inv_streams: "uplink_inv s \<Longrightarrow> streams_ok s"
  by (simp add: uplink_inv_def)

lemma set_opt_role [simp]: "x \<in> set (opt_role p P) \<longleftrightarrow> (\<exists>a. p = Some a \<and> x = (a, P))"
  by (auto simp: opt_role_def split: option.splits)

lemma opt_role_simps [simp]: "opt_role None P = []" "opt_role (Some a) P = [(a, P)]"
  by (simp_all add: opt_role_def)

lemma list_role_simps [simp]:
  "list_role [] P = []" "list_role (a # as) P = (a, P) # list_role as P"
  "list_role (as @ cs) P = list_role as P @ list_role cs P"
  "set (list_role as P) = (\<lambda>a. (a, P)) ` set as"
  by (auto simp: list_role_def)

lemma role_le_opt [intro]: "(\<And>b. P b \<Longrightarrow> Q b) \<Longrightarrow> role_le (opt_role p P) (opt_role p Q)"
  by (cases p) (auto simp: role_le_def)

lemma role_le_list [intro]: "(\<And>b. P b \<Longrightarrow> Q b) \<Longrightarrow> role_le (list_role as P) (list_role as Q)"
  by (auto simp: role_le_def list_role_def list_all2_conv_all_nth)

text \<open>
  The steps of an operation are proved on the roles it works with; the rest of the uplink side
  (\<open>S\<close>) is carried along.
\<close>

lemma hstep_in_context:
  assumes "own h RS" and "mset RS = mset (R @ S)" and "hstep h R h' R'"
    and "mset RS' = mset (R' @ S)"
  shows "hstep h RS h' RS'"
proof -
  have "own h (R @ S)" using assms(1,2) by (rule own_perm)
  then have "hstep h (R @ S) h' (R' @ S)" using assms(3) by (intro hstep_app)
  moreover from this have "hstep h' (R' @ S) h' RS'"
    using assms(4) by (intro hstep_perm) (auto dest: hstep_own)
  ultimately show ?thesis
    using hstep_perm [OF assms(1,2)] by (blast intro: hstep_trans)
qed

lemma own_subset: "own h RS \<Longrightarrow> mset RS = mset (R @ S) \<Longrightarrow> own h R"
  using own_perm [of h RS "R @ S"] by (auto simp: own_def)

lemma block_alloc_hstep:
  assumes "own h R"
  obtains p h' where "block_alloc h = Some (p, h')"
    and "p = None \<longleftrightarrow> malloc_oracle h (next_addr h) = None"
    and "hstep h R h' (opt_role p (\<lambda>b. is_block b 0xc0 []) @ R)"
proof (cases rule: block_alloc_cases [OF own_heap_ok [OF assms]])
  case (1 h')
  then show ?thesis using assms by (intro that [of None h']) (auto intro: hstep_nop)
next
  case (2 a b h')
  then show ?thesis
    using hstep_alloc [OF assms, of h' a b "\<lambda>b. is_block b 0xc0 []"]
    by (intro that [of "Some a" h']) auto
qed

lemma block_alloc_stream_hstep:
  assumes "own h R"
  obtains p h' where "block_alloc_stream sid f h = Some (p, h')"
    and "p = None \<longleftrightarrow> malloc_oracle h (next_addr h) = None"
    and "hstep h R h'
      (opt_role p (\<lambda>b. is_block b (sid OR (if f then FIRST_DATA_MASK else 0)) []) @ R)"
proof (cases rule: block_alloc_stream_cases [OF own_heap_ok [OF assms], where sid = sid and f = f])
  case (1 h')
  then show ?thesis using assms by (intro that [of None h']) (auto intro: hstep_nop)
next
  case (2 a b h')
  then show ?thesis
    using hstep_alloc [OF assms, of h' a b
        "\<lambda>b. is_block b (sid OR (if f then FIRST_DATA_MASK else 0)) []"]
    by (intro that [of "Some a" h']) auto
qed

text \<open>Changing one held buffer through its pointer.\<close>

lemma upd_buf_hstep:
  assumes "own h ((a, P) # R)" and "\<And>b. P b \<Longrightarrow> buf_ok b \<Longrightarrow> \<exists>b'. f b = Some b' \<and> Q b' \<and> buf_ok b'"
  obtains h' where "upd_buf a f h = Some h'" and "hstep h ((a, P) # R) h' ((a, Q) # R)"
proof -
  from ownD [OF assms(1)] obtain b where b: "store h a = Some b" "P b" "buf_ok b" by auto
  with assms(2) obtain b' where b': "f b = Some b'" "Q b'" "buf_ok b'" by blast
  have "upd_buf a f h = Some (h\<lparr>store := (store h)(a \<mapsto> b')\<rparr>)"
    using b(1) b'(1) by (rule upd_buf_eq)
  then show ?thesis using hstep_upd [where Q = Q, OF assms(1) b'(2,3)] by (rule that)
qed

lemma with_buf_hstep:
  assumes "own h ((a, P) # R)"
    and "\<And>b. P b \<Longrightarrow> buf_ok b \<Longrightarrow> \<exists>b'. f b = Some (r, b') \<and> Q b' \<and> buf_ok b'"
  obtains h' where "with_buf a f h = Some (r, h')" and "hstep h ((a, P) # R) h' ((a, Q) # R)"
proof -
  from ownD [OF assms(1)] obtain b where b: "store h a = Some b" "P b" "buf_ok b" by auto
  with assms(2) obtain b' where b': "f b = Some (r, b')" "Q b'" "buf_ok b'" by blast
  have "with_buf a f h = Some (r, h\<lparr>store := (store h)(a \<mapsto> b')\<rparr>)"
    using b(1) b'(1) by (rule with_buf_eq)
  then show ?thesis using hstep_upd [where Q = Q, OF assms(1) b'(2,3)] by (rule that)
qed

text \<open>The invariant holds when the program starts.\<close>

lemma heap_ok_static [simp]: "heap_ok (heap_static oracle)"
  by (simp add: heap_ok_def heap_static_def)

lemma uplink_inv_static [simp]: "uplink_inv (pouch_static oracle c)"
  by (simp add: uplink_inv_def pouch_static_def uplink_roles_def transport_roles_def
      stream_roles_def uplink_static_def own_def streams_ok_def)

lemma pouch_static_simps [simp]:
  "malloc_oracle (p_heap (pouch_static oracle c)) = oracle" "p_uplink (pouch_static oracle c) = uplink_static"
  "p_block (pouch_static oracle c) = None" "p_streams (pouch_static oracle c) = []"
  "next_addr (p_heap (pouch_static oracle c)) = 0" "p_crypto (pouch_static oracle c) = c"
  "p_downlink (pouch_static oracle c) = downlink_static"
  by (simp_all add: pouch_static_def heap_static_def)

text \<open>
  The rule by which the operations meet their promise: a step proved on the buffers it works with
  (\<open>R\<close>, known as precisely as the proof needs) becomes a safe step of the whole uplink side.
\<close>

lemma own_swap:
  assumes "own h (R0 @ S)" and "own h R" and "map fst R = map fst R0"
  shows "own h (R @ S)"
proof -
  have "distinct (map fst (R @ S))" using assms(1,3) by (simp only: own_def map_append)
  moreover have "\<forall>x\<in>set (R @ S). \<exists>b. store h (fst x) = Some b \<and> snd x b"
    using assms(1,2) by (auto simp: own_def split_beta)
  ultimately show ?thesis using assms(1) by (simp add: own_def split_beta)
qed

lemma uplink_safe_frame:
  assumes inv: "uplink_inv s" and before: "mset (uplink_roles s) = mset (R0 @ S)"
    and "map fst R = map fst R0" and ownR: "own (p_heap s) R"
    and step: "hstep (p_heap s) R (p_heap s') R'" and "role_le R' R1"
    and after: "mset (uplink_roles s') = mset (R1 @ S)" and "streams_ok s'"
  shows "uplink_safe s s'"
proof -
  have o0: "own (p_heap s) (R0 @ S)" using own_perm [OF uplink_inv_own [OF inv] before] .
  have oR: "own (p_heap s) (R @ S)" using o0 ownR assms(3) by (rule own_swap)
  have "fst ` set R = fst ` set R0" using assms(3) by (metis list.set_map)
  then have s1: "hstep (p_heap s) (R0 @ S) (p_heap s) (R @ S)"
    using oR by (simp add: hstep_def foreign_def image_Un)
  have s2: "hstep (p_heap s) (R @ S) (p_heap s') (R' @ S)" using step oR by (rule hstep_app)
  have s3: "hstep (p_heap s') (R' @ S) (p_heap s') (R1 @ S)"
    using hstep_own [OF s2] assms(6) by (intro hstep_role_le role_le_app) simp_all
  have s0: "hstep (p_heap s) (uplink_roles s) (p_heap s) (R0 @ S)"
    using uplink_inv_own [OF inv] before by (rule hstep_perm)
  have "hstep (p_heap s') (R1 @ S) (p_heap s') (uplink_roles s')"
    using hstep_own [OF s3] after [symmetric] by (rule hstep_perm)
  then have "hstep (p_heap s) (uplink_roles s) (p_heap s') (uplink_roles s')"
    using s0 s1 s2 s3 hstep_trans by blast
  then show ?thesis using assms(8) by (rule uplink_safeI)
qed

end
