(* ===== verification/Entry.thy ===== *)
theory Entry
  imports State
begin

text \<open>
  The entries of \<^verbatim>\<open>src/entry.c\<close>. On the uplink, entries are packed into the open block, which
  is finished and queued when the next entry does not fit. On the downlink, a received block is
  taken apart and its entries, or its piece of a stream, are handed to the registered handlers.

  A \<^verbatim>\<open>const char *\<close> is the list of its bytes before the terminating NUL; an argument that may
  be NULL is an \<open>option\<close>. The outcome of \<^verbatim>\<open>k_mutex_lock\<close>, which depends on the other threads
  and the timeout, is the argument \<open>lock\<close>.
\<close>

section \<open>Writing entries\<close>

definition ENTRY_HEADER_OVERHEAD :: nat where
  "ENTRY_HEADER_OVERHEAD = 5"

record pouch_entry =
  pe_path :: "u8 list"
  pe_content_type :: u16
  pe_data_len :: nat
  pe_data :: "u8 list"

definition write_entry :: "pouch_buf \<Rightarrow> pouch_entry \<Rightarrow> (ret \<times> pouch_buf) option" where
  "write_entry block entry =
     (let pathlen = length (pe_path entry) in
      if block_space_get block
           < szt_add (szt_add ENTRY_HEADER_OVERHEAD pathlen) (pe_data_len entry)
      then Some (Err ENOMEM, block)
      else do {
        block \<leftarrow> buf_write block (put_be16 (of_nat (pe_data_len entry)));
        block \<leftarrow> buf_write block (put_be16 (pe_content_type entry));
        block \<leftarrow> buf_write block [of_nat pathlen];
        block \<leftarrow> buf_write block (pe_path entry);
        data \<leftarrow> mem_read (pe_data entry) 0 (pe_data_len entry);
        block \<leftarrow> buf_write block data;
        Some (OK, block) })"

definition pouch_uplink_entry_write ::
    "ret \<Rightarrow> u8 list option \<Rightarrow> u16 \<Rightarrow> u8 list option \<Rightarrow> nat \<Rightarrow> 'c pouch \<Rightarrow> (ret \<times> 'c pouch) option"
where
  "pouch_uplink_entry_write lock path content_type data len s =
     (case (path, data) of
        (Some path, Some data) \<Rightarrow>
          if len = 0 then Some (Err EINVAL, s)
          else if is_err lock then Some (lock, s)
          else do {
            (block_is_new, s) \<leftarrow>
              (case p_block s of
                 None \<Rightarrow> do { (p, h) \<leftarrow> block_alloc (p_heap s);
                              Some (True, s\<lparr>p_heap := h, p_block := p\<rparr>) }
               | Some a \<Rightarrow> Some (False, s));
            case p_block s of
              None \<Rightarrow> Some (Err ENOMEM, s)
            | Some block \<Rightarrow> do {
                let entry = \<lparr>pe_path = path, pe_content_type = content_type,
                             pe_data_len = len, pe_data = data\<rparr>;
                (err, h) \<leftarrow> with_buf block (\<lambda>b. write_entry b entry) (p_heap s);
                let s = s\<lparr>p_heap := h\<rparr>;
                if is_err err \<and> \<not> block_is_new then do {
                  h \<leftarrow> upd_buf block block_finish (p_heap s);
                  let s = uplink_enqueue block (s\<lparr>p_heap := h\<rparr>);
                  (p, h) \<leftarrow> block_alloc (p_heap s);
                  let s = s\<lparr>p_heap := h, p_block := p\<rparr>;
                  case p of
                    None \<Rightarrow> Some (Err ENOMEM, s)
                  | Some block \<Rightarrow> do {
                      (err, h) \<leftarrow> with_buf block (\<lambda>b. write_entry b entry) (p_heap s);
                      Some (err, s\<lparr>p_heap := h\<rparr>) } }
                else Some (err, s) } }
      | _ \<Rightarrow> Some (Err EINVAL, s))"

definition entry_block_close :: "ret \<Rightarrow> 'c pouch \<Rightarrow> (ret \<times> 'c pouch) option" where
  "entry_block_close lock s =
     (if is_err lock then Some (lock, s)
      else case p_block s of
        None \<Rightarrow> Some (OK, s)
      | Some block \<Rightarrow> do {
          sz \<leftarrow> read_buf block block_size_get (p_heap s);
          if 0 < sz then do {
            h \<leftarrow> upd_buf block block_finish (p_heap s);
            Some (OK, (uplink_enqueue block (s\<lparr>p_heap := h\<rparr>))\<lparr>p_block := None\<rparr>) }
          else Some (OK, s) })"

section \<open>Handing received blocks to the handlers\<close>

text \<open>
  \<^verbatim>\<open>struct pouch_downlink_handler\<close>. The callbacks belong to the application (or to
  \<^verbatim>\<open>golioth_sdk\<close>) and act on a state of type \<open>'w\<close>. The data argument is \<open>None\<close> for a NULL
  pointer.
\<close>

record 'w pouch_downlink_handler =
  start_cb :: "nat \<Rightarrow> u8 list \<Rightarrow> u16 \<Rightarrow> 'w \<Rightarrow> 'w"
  data_cb :: "nat \<Rightarrow> u8 list option \<Rightarrow> nat \<Rightarrow> bool \<Rightarrow> 'w \<Rightarrow> 'w"

text \<open>The C string a callback sees: the bytes before the first NUL.\<close>

definition c_str :: "u8 list \<Rightarrow> u8 list" where
  "c_str bs = takeWhile (\<lambda>c. c \<noteq> 0) bs"

definition downlink_start ::
    "'w pouch_downlink_handler list \<Rightarrow> nat \<Rightarrow> u8 list \<Rightarrow> u16 \<Rightarrow> 'w \<Rightarrow> 'w" where
  "downlink_start hs stream_id path content_type w =
     fold (\<lambda>handler. start_cb handler stream_id path content_type) hs w"

definition downlink_data ::
    "'w pouch_downlink_handler list \<Rightarrow> nat \<Rightarrow> u8 list option \<Rightarrow> nat \<Rightarrow> bool \<Rightarrow> 'w \<Rightarrow> 'w" where
  "downlink_data hs stream_id data len is_last w =
     fold (\<lambda>handler. data_cb handler stream_id data len is_last) hs w"

text \<open>Reading through a pointer that may be NULL, and passing it on without reading.\<close>

definition deref :: "ptr option \<Rightarrow> nat \<Rightarrow> heap \<Rightarrow> u8 list option" where
  "deref p n h = do { q \<leftarrow> p; ptr_read q n h }"

definition pass_ptr :: "ptr option \<Rightarrow> nat \<Rightarrow> heap \<Rightarrow> u8 list option option" where
  "pass_ptr p n h = (case p of None \<Rightarrow> Some None | Some q \<Rightarrow> map_option Some (ptr_read q n h))"

partial_function (option) pouch_downlink_entries_push ::
    "'w pouch_downlink_handler list \<Rightarrow> heap \<Rightarrow> pouch_bufview \<Rightarrow> 'w \<Rightarrow> 'w option" where
  "pouch_downlink_entries_push hs h v w =
     do { av \<leftarrow> pouch_bufview_available v h;
          if av = 0 then Some w
          else do {
            (data_len, v) \<leftarrow> pouch_bufview_read_be16 v h;
            (content_type, v) \<leftarrow> pouch_bufview_read_be16 v h;
            (path_len, v) \<leftarrow> pouch_bufview_read_byte v h;
            (path, v) \<leftarrow> pouch_bufview_read v (unat path_len) h;
            (data, v) \<leftarrow> pouch_bufview_read v (unat data_len) h;
            path_bytes \<leftarrow> deref path (unat path_len) h;
            data_bytes \<leftarrow> pass_ptr data (unat data_len) h;
            let w = downlink_start hs 0 (c_str path_bytes) content_type w;
            let w = downlink_data hs 0 data_bytes (unat data_len) True w;
            pouch_downlink_entries_push hs h v w } }"

definition pouch_downlink_stream_push ::
    "'w pouch_downlink_handler list \<Rightarrow> heap \<Rightarrow> pouch_bufview \<Rightarrow> nat \<Rightarrow> bool \<Rightarrow> bool \<Rightarrow> 'w \<Rightarrow> 'w option"
where
  "pouch_downlink_stream_push hs h v stream_id is_first is_last w =
     do { (v, w) \<leftarrow>
            (if is_first then do {
               (content_type, v) \<leftarrow> pouch_bufview_read_be16 v h;
               (path_len, v) \<leftarrow> pouch_bufview_read_byte v h;
               (path, v) \<leftarrow> pouch_bufview_read v (unat path_len) h;
               path_bytes \<leftarrow> deref path (unat path_len) h;
               Some (v, downlink_start hs stream_id (c_str path_bytes) content_type w) }
             else Some (v, w));
          av \<leftarrow> pouch_bufview_available v h;
          let data_len = unat (of_nat av :: u16);
          (data, v) \<leftarrow> pouch_bufview_read v data_len h;
          data_bytes \<leftarrow> pass_ptr data data_len h;
          Some (downlink_data hs stream_id data_bytes data_len is_last w) }"

definition pouch_downlink_block_push ::
    "'w pouch_downlink_handler list \<Rightarrow> addr \<Rightarrow> heap \<Rightarrow> 'w \<Rightarrow> 'w option" where
  "pouch_downlink_block_push hs a h w =
     do { (hdr, v) \<leftarrow> block_decode_hdr (pouch_bufview_init a) h;
          if bh_is_stream hdr
          then pouch_downlink_stream_push hs h v (unat (bh_stream_id hdr)) (bh_is_first hdr)
                 (bh_is_last hdr) w
          else pouch_downlink_entries_push hs h v w }"

section \<open>The wire format of entries\<close>

text \<open>An entry as the application sees it: path, content type, data.\<close>

type_synonym entry = "u8 list \<times> u16 \<times> u8 list"

definition entry_wire :: "entry \<Rightarrow> u8 list" where
  "entry_wire e = (case e of (path, ct, data) \<Rightarrow>
     put_be16 (of_nat (length data)) @ put_be16 ct @ [of_nat (length path)] @ path @ data)"

text \<open>The entries the format can carry: the path length has one byte, the data length two.\<close>

definition entry_valid :: "entry \<Rightarrow> bool" where
  "entry_valid e = (case e of (path, ct, data) \<Rightarrow> length path < 256 \<and> length data < 65536)"

definition entries_wire :: "entry list \<Rightarrow> u8 list" where
  "entries_wire es = concat (map entry_wire es)"

lemma length_entry_wire [simp]:
  "length (entry_wire (path, ct, data)) = 5 + length path + length data"
  by (simp add: entry_wire_def)

lemma entries_wire_simps [simp]:
  "entries_wire [] = []" "entries_wire (e # es) = entry_wire e @ entries_wire es"
  "entries_wire (es @ fs) = entries_wire es @ entries_wire fs"
  by (simp_all add: entries_wire_def)

text \<open>A reference decoder of a block's payload, in one pass over the bytes.\<close>

function decode_entries :: "u8 list \<Rightarrow> entry list" where
  "decode_entries bs =
     (if length bs < 5 then []
      else let dl = unat (get_be16 bs); pl = unat (bs ! 4) in
        (take pl (drop 5 bs), get_be16 (drop 2 bs), take dl (drop (5 + pl) bs))
          # decode_entries (drop (5 + pl + dl) bs))"
  by pat_completeness auto
termination
  by (relation "measure length") auto

declare decode_entries.simps [simp del]

lemma decode_entries_Nil [simp]: "decode_entries [] = []"
  by (simp add: decode_entries.simps)

lemma decode_entry_wire:
  assumes "entry_valid e"
  shows "decode_entries (entry_wire e @ rest) = e # decode_entries rest"
proof -
  obtain path ct data where e: "e = (path, ct, data)" by (cases e)
  define bs where "bs = entry_wire e @ rest"
  have d0: "bs = put_be16 (of_nat (length data)) @ put_be16 ct
      @ [of_nat (length path)] @ path @ data @ rest"
    by (simp add: bs_def e entry_wire_def)
  have d2: "drop 2 bs = put_be16 ct @ [of_nat (length path)] @ path @ data @ rest"
    by (simp add: d0)
  have d4: "drop 4 bs = of_nat (length path) # path @ data @ rest"
    using d2 drop_drop [of 2 2 bs] by simp
  have d5: "drop 5 bs = path @ data @ rest"
    using d4 drop_drop [of 1 4 bs] by simp
  have dp: "drop (5 + length path) bs = data @ rest"
    using d5 drop_drop [of "length path" 5 bs] by (simp add: add.commute)
  have dr: "drop (5 + length path + length data) bs = rest"
    using dp drop_drop [of "length data" "5 + length path" bs] by (simp add: add.commute)
  have l: "\<not> length bs < 5" by (simp add: d0)
  have dl: "unat (get_be16 bs) = length data"
    using assms by (simp add: d0 e entry_valid_def)
  have "bs ! 4 = of_nat (length path)"
    using l hd_drop_conv_nth [of 4 bs] d4 by simp
  then have pl: "unat (bs ! 4) = length path"
    using assms by (simp add: e entry_valid_def)
  have "decode_entries bs = e # decode_entries rest"
    using l by (subst decode_entries.simps) (simp add: Let_def dl pl d5 dp dr d2 e)
  then show ?thesis by (simp add: bs_def)
qed

lemma decode_entries_wire:
  "list_all entry_valid es \<Longrightarrow> decode_entries (entries_wire es @ rest) = es @ decode_entries rest"
  by (induction es) (simp_all add: decode_entry_wire)

section \<open>Writing one entry\<close>

definition mk_entry :: "u8 list \<Rightarrow> u16 \<Rightarrow> u8 list \<Rightarrow> nat \<Rightarrow> pouch_entry" where
  "mk_entry path ct data len =
     \<lparr>pe_path = path, pe_content_type = ct, pe_data_len = len, pe_data = data\<rparr>"

lemma write_entry_full:
  assumes "is_block b bid pl" and "512 < length pl + (5 + length path + len)"
    and "5 + length path + len < SIZE_MOD"
  shows "write_entry b (mk_entry path ct data len) = Some (Err ENOMEM, b)"
proof -
  have "512 - length pl < 5 + length path + len"
    using assms(2) is_block_bytes(2) [OF assms(1)] by linarith
  then show ?thesis
    using assms(1,3)
    by (simp add: write_entry_def mk_entry_def is_block_space ENTRY_HEADER_OVERHEAD_def Let_def)
qed

lemma write_entry_fits:
  assumes "is_block b bid pl" and "length pl + (5 + length path + len) \<le> 512"
    and "len \<le> length data"
  shows "write_entry b (mk_entry path ct data len) =
    Some (OK, append_buf b (entry_wire (path, ct, take len data)))"
proof -
  have f: "fits b (5 + length path + len)"
    using is_block_fits [OF assms(1,2)] .
  then have "write_entry b (mk_entry path ct data len) = Some (OK,
      append_buf b (put_be16 (of_nat len) @ put_be16 ct @ [of_nat (length path)] @ path @ take len data))"
    using assms is_block_space [OF assms(1)]
    by (simp add: write_entry_def mk_entry_def Let_def ENTRY_HEADER_OVERHEAD_def SIZE_MOD_num
        buf_write_fits append_buf_simps fits_mono mem_read_def append_buf_append_buf)
  then show ?thesis using assms(3) by (simp add: entry_wire_def)
qed

lemma try_write_entry:
  assumes "own h ((a, \<lambda>b. is_block b 0xc0 pl) # R)" and "len \<le> length data"
    and "5 + length path + len < SIZE_MOD"
  obtains err h' where
    "with_buf a (\<lambda>b. write_entry b (mk_entry path ct data len)) h = Some (err, h')"
    "err = (if length pl + (5 + length path + len) \<le> 512 then OK else Err ENOMEM)"
    "hstep h ((a, \<lambda>b. is_block b 0xc0 pl) # R) h'
       ((a, \<lambda>b. is_block b 0xc0
             (pl @ (if err = OK then entry_wire (path, ct, take len data) else []))) # R)"
proof (cases "length pl + (5 + length path + len) \<le> 512")
  case True
  let ?w = "entry_wire (path, ct, take len data)"
  have len: "length pl + length ?w \<le> 512" using assms(2) True by simp
  have step: "\<exists>b'. write_entry b (mk_entry path ct data len) = Some (OK, b')
      \<and> is_block b' 0xc0 (pl @ ?w) \<and> buf_ok b'" if "is_block b 0xc0 pl" for b
    using write_entry_fits [OF that True assms(2), of ct] is_block_append [OF that len]
      is_block_ok(1) [OF is_block_append [OF that len]] by blast
  obtain h' where
    "with_buf a (\<lambda>b. write_entry b (mk_entry path ct data len)) h = Some (OK, h')"
    "hstep h ((a, \<lambda>b. is_block b 0xc0 pl) # R) h' ((a, \<lambda>b. is_block b 0xc0 (pl @ ?w)) # R)"
    by (rule with_buf_hstep [OF assms(1), where r = OK and Q = "\<lambda>b. is_block b 0xc0 (pl @ ?w)"
          and f = "\<lambda>b. write_entry b (mk_entry path ct data len)"])
       (use step in blast)+
  with True show ?thesis by (intro that [of OK h']) auto
next
  case False
  have full: "512 < length pl + (5 + length path + len)" using False by simp
  have step: "\<exists>b'. write_entry b (mk_entry path ct data len) = Some (Err ENOMEM, b')
      \<and> is_block b' 0xc0 pl \<and> buf_ok b'" if "is_block b 0xc0 pl" for b
    using write_entry_full [OF that full assms(3), of ct] that is_block_ok(1) [OF that] by blast
  obtain h' where
    "with_buf a (\<lambda>b. write_entry b (mk_entry path ct data len)) h = Some (Err ENOMEM, h')"
    "hstep h ((a, \<lambda>b. is_block b 0xc0 pl) # R) h' ((a, \<lambda>b. is_block b 0xc0 pl) # R)"
    by (rule with_buf_hstep [OF assms(1), where r = "Err ENOMEM" and Q = "\<lambda>b. is_block b 0xc0 pl"
          and f = "\<lambda>b. write_entry b (mk_entry path ct data len)"])
       (use step in blast)+
  with False show ?thesis by (intro that [of "Err ENOMEM" h']) auto
qed

lemma try_write_entry_new:
  assumes "own h ((a, \<lambda>b. is_block b 0xc0 []) # R)" and "len \<le> length data"
    and "5 + length path + len < SIZE_MOD"
  obtains err h' where
    "with_buf a (\<lambda>b. write_entry b (mk_entry path ct data len)) h = Some (err, h')"
    "err = (if 5 + length path + len \<le> 512 then OK else Err ENOMEM)"
    "hstep h ((a, \<lambda>b. is_block b 0xc0 []) # R) h'
       ((a, \<lambda>b. is_block b 0xc0
             (if err = OK then entry_wire (path, ct, take len data) else [])) # R)"
proof (rule try_write_entry [OF assms, where ct = ct])
  fix err h'
  assume a: "with_buf a (\<lambda>b. write_entry b (mk_entry path ct data len)) h = Some (err, h')"
    "err = (if length ([] :: u8 list) + (5 + length path + len) \<le> 512 then OK else Err ENOMEM)"
    "hstep h ((a, \<lambda>b. is_block b 0xc0 []) # R) h' ((a, \<lambda>b. is_block b 0xc0
        ([] @ (if err = OK then entry_wire (path, ct, take len data) else []))) # R)"
  show thesis by (rule that [OF a(1)]) (use a(2,3) in \<open>simp_all only: append_Nil list.size add_0\<close>)
qed

section \<open>The open block and the queue\<close>

text \<open>The payload bytes of the open entry block (none when there is no open block).\<close>

definition block_holds :: "'c pouch \<Rightarrow> u8 list \<Rightarrow> bool" where
  "block_holds s pl = (case p_block s of None \<Rightarrow> pl = []
     | Some a \<Rightarrow> (\<exists>b. store (p_heap s) a = Some b \<and> is_block b 0xc0 pl))"

text \<open>The roles of everything on the uplink side but the open entry block.\<close>

definition rest_roles :: "'c pouch \<Rightarrow> role list" where
  "rest_roles s = list_role (up_processing_queue (p_uplink s)) block_done
     @ stream_roles (p_streams s) @ transport_roles (p_uplink s)"

lemma uplink_roles_split: "uplink_roles s = opt_role (p_block s) entry_role @ rest_roles s"
  by (simp add: uplink_roles_def rest_roles_def)

lemma block_holds_ex: "uplink_inv s \<Longrightarrow> \<exists>pl. block_holds s pl"
proof (cases "p_block s")
  case (Some a)
  assume "uplink_inv s"
  then have "own (p_heap s) (uplink_roles s)" by (rule uplink_inv_own)
  from ownD [OF this, of a entry_role] Some show ?thesis
    by (auto simp: block_holds_def uplink_roles_def entry_role_def)
qed (simp add: block_holds_def)

text \<open>The state in which the block \<open>p\<close> has become the open block after \<open>fl\<close> was queued.\<close>

definition entry_state :: "'c pouch \<Rightarrow> heap \<Rightarrow> addr option \<Rightarrow> addr list \<Rightarrow> 'c pouch" where
  "entry_state s h p fl = s\<lparr>p_heap := h, p_block := p,
     p_uplink := (p_uplink s)\<lparr>up_processing_queue := up_processing_queue (p_uplink s) @ fl,
       up_processing_work := (up_processing_work (p_uplink s) \<or> fl \<noteq> [])\<rparr>\<rparr>"

lemma entry_state_simps [simp]:
  "p_heap (entry_state s h p fl) = h" "p_block (entry_state s h p fl) = p"
  "p_streams (entry_state s h p fl) = p_streams s"
  "up_processing_queue (p_uplink (entry_state s h p fl)) = up_processing_queue (p_uplink s) @ fl"
  "p_open_streams (entry_state s h p fl) = p_open_streams s"
  by (simp_all add: entry_state_def)

lemma entry_state_nil: "entry_state s h p [] = s\<lparr>p_heap := h, p_block := p\<rparr>"
  by (simp add: entry_state_def)

lemma entry_state_enqueue:
  "uplink_enqueue a (s\<lparr>p_heap := h\<rparr>) = entry_state s h (p_block s) [a]"
  by (simp add: uplink_enqueue_def entry_state_def)

lemma uplink_roles_entry_state:
  "mset (uplink_roles (entry_state s h p fl)) =
     mset (opt_role p entry_role @ list_role fl block_done @ rest_roles s)"
  by (simp add: uplink_roles_def rest_roles_def transport_roles_def entry_state_def)

text \<open>From the roles an operation ends with to the promise of the uplink side.\<close>

lemma entry_state_safe:
  assumes "uplink_inv s"
    and st: "hstep (p_heap s) (opt_role (p_block s) P0) h (opt_role p P @ list_role fl Q)"
    and own: "own (p_heap s) (opt_role (p_block s) P0)"
    and P0: "\<And>b. P0 b \<Longrightarrow> entry_role b"
    and P: "\<And>b. P b \<Longrightarrow> entry_role b" and Q: "\<And>b. Q b \<Longrightarrow> block_done b"
  shows "uplink_safe s (entry_state s h p fl)"
proof -
  have ok: "streams_ok (entry_state s h p fl)"
    using assms(1) hstep_env(2) [OF st] by (auto simp: uplink_inv_def streams_ok_def)
  have le: "role_le (opt_role p P @ list_role fl Q) (opt_role p entry_role @ list_role fl block_done)"
    using P Q by (intro role_le_app) auto
  have before: "mset (uplink_roles s) = mset (opt_role (p_block s) entry_role @ rest_roles s)"
    by (simp add: uplink_roles_split)
  have fst: "map fst (opt_role (p_block s) P0) = map fst (opt_role (p_block s) entry_role)"
    by (cases "p_block s") simp_all
  have after: "mset (uplink_roles (entry_state s h p fl)) =
      mset ((opt_role p entry_role @ list_role fl block_done) @ rest_roles s)"
    by (simp add: uplink_roles_entry_state)
  have step: "hstep (p_heap s) (opt_role (p_block s) P0) (p_heap (entry_state s h p fl))
      (opt_role p P @ list_role fl Q)" using st by simp
  show ?thesis by (rule uplink_safe_frame [OF assms(1) before fst own step le after ok])
qed

text \<open>
  The three ways a write ends: no block could be allocated, the entry went into (or was too big
  for) the block it was tried on first, or the open block was queued first. \<open>x\<close> are the bytes
  that were added.
\<close>

definition entry_outcome ::
    "'c pouch \<Rightarrow> u8 list \<Rightarrow> ret \<Rightarrow> u8 list \<Rightarrow> heap \<Rightarrow> addr option \<Rightarrow> addr list \<Rightarrow> bool" where
  "entry_outcome s pl r x h p fl \<longleftrightarrow>
     (\<exists>pl' Q. hstep (p_heap s) (opt_role (p_block s) (\<lambda>b. is_block b 0xc0 pl)) h
         (opt_role p (\<lambda>b. is_block b 0xc0 pl') @ list_role fl Q)
       \<and> (\<forall>b. Q b \<longleftrightarrow> is_block b 0xc0 pl \<and> contents b = block_wire 0xc0 pl)
       \<and> (p = None \<longrightarrow> pl' = [])
       \<and> (fl = [] \<and> pl' = pl @ x \<or> (\<exists>a. p_block s = Some a \<and> fl = [a] \<and> pl' = x)))"

lemma entry_outcomeE:
  assumes "entry_outcome s pl r x h p fl"
  obtains pl' Q where "hstep (p_heap s) (opt_role (p_block s) (\<lambda>b. is_block b 0xc0 pl)) h
         (opt_role p (\<lambda>b. is_block b 0xc0 pl') @ list_role fl Q)"
    and "\<forall>b. Q b \<longleftrightarrow> is_block b 0xc0 pl \<and> contents b = block_wire 0xc0 pl"
    and "p = None \<longrightarrow> pl' = []"
    and "fl = [] \<and> pl' = pl @ x \<or> (\<exists>a. p_block s = Some a \<and> fl = [a] \<and> pl' = x)"
  using assms unfolding entry_outcome_def by (elim exE conjE) (rule that)

lemma finish_entry_block:
  assumes "own h ((a, \<lambda>b. is_block b 0xc0 pl) # R)"
  obtains h' where "upd_buf a block_finish h = Some h'"
    and "hstep h ((a, \<lambda>b. is_block b 0xc0 pl) # R) h'
      ((a, \<lambda>b. is_block b 0xc0 pl \<and> contents b = block_wire 0xc0 pl) # R)"
proof (rule upd_buf_hstep [OF assms])
  fix b assume "is_block b 0xc0 pl"
  from block_finish_block [OF this]
  show "\<exists>b'. block_finish b = Some b' \<and> (is_block b' 0xc0 pl \<and> contents b' = block_wire 0xc0 pl)
      \<and> buf_ok b'"
    by (auto simp: FIRST_DATA_MASK_def LAST_DATA_MASK_def is_block_ok)
qed (rule that)

lemma entry_write_new:
  assumes "own (p_heap s) []" and "p_block s = None" and "0 < len"
    and "len \<le> length data" and "5 + length path + len < SIZE_MOD"
  shows "\<exists>r h p. pouch_uplink_entry_write OK (Some path) ct (Some data) len s
      = Some (r, entry_state s h p [])
    \<and> entry_outcome s [] r (if r = OK then entry_wire (path, ct, take len data) else []) h p []
    \<and> (r = OK \<or> r = Err ENOMEM \<and>
        (512 < 5 + length path + len \<or> (\<exists>n\<ge>next_addr (p_heap s). malloc_oracle (p_heap s) n = None)))"
proof -
  obtain p h1 where
    al: "block_alloc (p_heap s) = Some (p, h1)"
      "p = None \<longleftrightarrow> malloc_oracle (p_heap s) (next_addr (p_heap s)) = None"
      "hstep (p_heap s) [] h1 (opt_role p (\<lambda>b. is_block b 0xc0 []))"
    by (rule block_alloc_hstep [OF assms(1), unfolded append_Nil2])
  show ?thesis
  proof (cases p)
    case None
    have "entry_outcome s [] (Err ENOMEM) [] h1 None []"
      unfolding entry_outcome_def
      by (rule exI [of _ "[]"],
          rule exI [of _ "\<lambda>b. is_block b 0xc0 [] \<and> contents b = block_wire 0xc0 []"])
         (use al(3) None assms(2) in simp)
    moreover have "pouch_uplink_entry_write OK (Some path) ct (Some data) len s
        = Some (Err ENOMEM, entry_state s h1 None [])"
      using assms(2,3) al(1) None by (simp add: pouch_uplink_entry_write_def entry_state_nil)
    ultimately show ?thesis using al(2) None by auto
  next
    case (Some a)
    then have o1: "own h1 ((a, \<lambda>b. is_block b 0xc0 []) # [])"
      using hstep_own [OF al(3)] by simp
    obtain err h' where
      w: "with_buf a (\<lambda>b. write_entry b (mk_entry path ct data len)) h1 = Some (err, h')"
        "err = (if 5 + length path + len \<le> 512 then OK else Err ENOMEM)"
        "hstep h1 ((a, \<lambda>b. is_block b 0xc0 []) # []) h' ((a, \<lambda>b. is_block b 0xc0
             (if err = OK then entry_wire (path, ct, take len data) else [])) # [])"
      by (rule try_write_entry_new [OF o1 assms(4,5), where ct = ct])
    have "entry_outcome s [] err (if err = OK then entry_wire (path, ct, take len data) else []) h'
        (Some a) []"
      unfolding entry_outcome_def
      by (rule exI [of _ "if err = OK then entry_wire (path, ct, take len data) else []"],
          rule exI [of _ "\<lambda>b. is_block b 0xc0 [] \<and> contents b = block_wire 0xc0 []"])
         (use hstep_trans [OF al(3)] w(3) Some assms(2) in simp)
    moreover have "pouch_uplink_entry_write OK (Some path) ct (Some data) len s
        = Some (err, entry_state s h' (Some a) [])"
      using assms(2,3) al(1) Some w(1)
      by (simp add: pouch_uplink_entry_write_def Let_def mk_entry_def entry_state_nil)
    ultimately show ?thesis using w(2) by (auto split: if_splits)
  qed
qed

lemma entry_write_open:
  assumes "own (p_heap s) ((a, \<lambda>b. is_block b 0xc0 pl) # [])"
    and "p_block s = Some a" and "0 < len"
    and "len \<le> length data" and "5 + length path + len < SIZE_MOD"
  shows "\<exists>r h p fl. pouch_uplink_entry_write OK (Some path) ct (Some data) len s
      = Some (r, entry_state s h p fl)
    \<and> entry_outcome s pl r (if r = OK then entry_wire (path, ct, take len data) else []) h p fl
    \<and> (r = OK \<or> r = Err ENOMEM \<and>
        (512 < 5 + length path + len \<or> (\<exists>n\<ge>next_addr (p_heap s). malloc_oracle (p_heap s) n = None)))"
proof -
  let ?P = "\<lambda>pl b. is_block b 0xc0 pl"
  let ?w = "entry_wire (path, ct, take len data)"
  let ?Q = "\<lambda>b. is_block b 0xc0 pl \<and> contents b = block_wire 0xc0 pl"
  obtain err h1 where
    w: "with_buf a (\<lambda>b. write_entry b (mk_entry path ct data len)) (p_heap s) = Some (err, h1)"
      "err = (if length pl + (5 + length path + len) \<le> 512 then OK else Err ENOMEM)"
      "hstep (p_heap s) ((a, ?P pl) # []) h1
         ((a, ?P (pl @ (if err = OK then ?w else []))) # [])"
    by (rule try_write_entry [OF assms(1,4,5), where ct = ct])
  show ?thesis
  proof (cases "err = OK")
    case True
    have "pouch_uplink_entry_write OK (Some path) ct (Some data) len s
        = Some (OK, entry_state s h1 (Some a) [])"
      using assms(2,3) w(1) True
      by (simp add: pouch_uplink_entry_write_def Let_def mk_entry_def entry_state_nil)
    moreover have "entry_outcome s pl OK ?w h1 (Some a) []"
      unfolding entry_outcome_def
      by (rule exI [of _ "pl @ ?w"], rule exI [of _ ?Q]) (use w(3) True assms(2) in simp)
    ultimately show ?thesis by auto
  next
    case False
    then have err: "err = Err ENOMEM" using w(2) by (auto split: if_splits)
    have o1: "own h1 ((a, ?P pl) # [])" using w(3) False by (auto dest: hstep_own)
    obtain h2 where
      f: "upd_buf a block_finish h1 = Some h2"
        "hstep h1 ((a, ?P pl) # []) h2 ((a, ?Q) # [])"
      by (rule finish_entry_block [OF o1])
    obtain p h3 where
      al: "block_alloc h2 = Some (p, h3)" "p = None \<longleftrightarrow> malloc_oracle h2 (next_addr h2) = None"
        "hstep h2 ((a, ?Q) # []) h3 (opt_role p (?P []) @ (a, ?Q) # [])"
      by (rule block_alloc_hstep [OF hstep_own [OF f(2)]])
    have s3: "hstep (p_heap s) ((a, ?P pl) # []) h3
        (opt_role p (?P []) @ (a, ?Q) # [])"
      using hstep_trans [OF hstep_trans [OF w(3)], OF _ al(3)] f(2) False by simp
    show ?thesis
    proof (cases p)
      case None
      have "hstep (p_heap s) ((a, ?P pl) # []) h2 ((a, ?Q) # [])"
        using hstep_trans [OF w(3)] f(2) False by simp
      note env = hstep_env [OF this]
      have "pouch_uplink_entry_write OK (Some path) ct (Some data) len s
          = Some (Err ENOMEM, entry_state s h3 None [a])"
        using assms(2,3) w(1) err f(1) al(1) None
        by (simp add: pouch_uplink_entry_write_def Let_def mk_entry_def entry_state_def
            uplink_enqueue_def)
      moreover have "entry_outcome s pl (Err ENOMEM) [] h3 None [a]"
        unfolding entry_outcome_def
        by (rule exI [of _ "[]"], rule exI [of _ ?Q]) (use s3 None assms(2) in simp)
      moreover have "\<exists>n\<ge>next_addr (p_heap s). malloc_oracle (p_heap s) n = None"
        using al(2) None env by auto
      ultimately show ?thesis by auto
    next
      case (Some a')
      have o3: "own h3 ((a', ?P []) # (a, ?Q) # [])"
        using hstep_own [OF s3] Some by simp
      obtain err' h4 where
        w': "with_buf a' (\<lambda>b. write_entry b (mk_entry path ct data len)) h3 = Some (err', h4)"
          "err' = (if 5 + length path + len \<le> 512 then OK else Err ENOMEM)"
          "hstep h3 ((a', ?P []) # (a, ?Q) # []) h4
            ((a', ?P (if err' = OK then ?w else [])) # (a, ?Q) # [])"
        by (rule try_write_entry_new [OF o3 assms(4,5), where ct = ct])
      have "pouch_uplink_entry_write OK (Some path) ct (Some data) len s
          = Some (err', entry_state s h4 (Some a') [a])"
        using assms(2,3) w(1) err f(1) al(1) Some w'(1)
        by (simp add: pouch_uplink_entry_write_def Let_def mk_entry_def entry_state_def
            uplink_enqueue_def)
      moreover have "entry_outcome s pl err' (if err' = OK then ?w else []) h4 (Some a') [a]"
        unfolding entry_outcome_def
        by (rule exI [of _ "if err' = OK then ?w else []"], rule exI [of _ ?Q])
           (use hstep_trans [OF s3] w'(3) Some assms(2) in simp)
      ultimately show ?thesis using w'(2) by (auto split: if_splits)
    qed
  qed
qed

lemma entry_write_outcome:
  assumes "uplink_inv s" and "block_holds s pl" and "0 < len" and "len \<le> length data"
    and "5 + length path + len < SIZE_MOD"
  obtains r h p fl where "pouch_uplink_entry_write OK (Some path) ct (Some data) len s
      = Some (r, entry_state s h p fl)"
    and "entry_outcome s pl r (if r = OK then entry_wire (path, ct, take len data) else []) h p fl"
    and "r = OK \<or> r = Err ENOMEM \<and>
        (512 < 5 + length path + len \<or> (\<exists>n\<ge>next_addr (p_heap s). malloc_oracle (p_heap s) n = None))"
proof (cases "p_block s")
  case None
  have "own (p_heap s) []" using uplink_inv_own [OF assms(1)] by (simp add: own_def)
  moreover have "pl = []" using assms(2) None by (simp add: block_holds_def)
  ultimately show ?thesis
    using entry_write_new [OF _ None assms(3-5), of ct] that by blast
next
  case (Some a)
  then have "own (p_heap s) [(a, \<lambda>b. is_block b 0xc0 pl)]"
    using uplink_inv_own [OF assms(1)] assms(2) by (auto simp: own_def block_holds_def)
  then show ?thesis using entry_write_open [OF _ Some assms(3-5), of pl ct] that by blast
qed

section \<open>The log of entries\<close>

text \<open>
  The abstract view of the writer: the entries accepted so far, in order, whether they sit in a
  queued block or in the open one.
\<close>

definition entries_of :: "heap \<Rightarrow> addr \<Rightarrow> entry list" where
  "entries_of h a = (case store h a of None \<Rightarrow> []
     | Some b \<Rightarrow> if (contents b ! 2) AND BLOCK_ID_MASK = BLOCK_ID_ENTRY
                 then decode_entries (drop 3 (contents b)) else [])"

definition entry_log :: "'c pouch \<Rightarrow> entry list" where
  "entry_log s = concat (map (entries_of (p_heap s)) (up_processing_queue (p_uplink s)))
     @ (case p_block s of None \<Rightarrow> [] | Some a \<Rightarrow> entries_of (p_heap s) a)"

text \<open>The open block is a sequence of well-formed entries.\<close>

definition open_entries :: "'c pouch \<Rightarrow> entry list \<Rightarrow> bool" where
  "open_entries s es \<longleftrightarrow> list_all entry_valid es \<and> block_holds s (entries_wire es)"

lemma entries_of_block:
  assumes "store h a = Some b" and "is_block b 0xc0 (entries_wire es)" and "list_all entry_valid es"
  shows "entries_of h a = es"
proof -
  from assms(2) obtain w where "contents b = put_be16 w @ [0xc0] @ entries_wire es"
    by (auto simp: is_block_def)
  then have "contents b ! 2 = 0xc0" "drop 3 (contents b) = entries_wire es"
    by (simp_all add: put_be16_def)
  then show ?thesis
    using assms(1) decode_entries_wire [OF assms(3), of "[]"]
    by (simp add: entries_of_def BLOCK_ID_MASK_def BLOCK_ID_ENTRY_def)
qed

lemma entries_of_cong: "store h' a = store h a \<Longrightarrow> entries_of h' a = entries_of h a"
  by (simp add: entries_of_def)

lemma open_entries_ex: "open_entries s es \<Longrightarrow> p_block s = Some a \<Longrightarrow> entries_of (p_heap s) a = es"
  by (auto simp: open_entries_def block_holds_def intro: entries_of_block)

text \<open>The queued blocks are out of reach of a step on the open block.\<close>

lemma queue_unchanged:
  assumes "uplink_inv s" and "hstep (p_heap s) (opt_role (p_block s) P) h R"
    and "a \<in> set (up_processing_queue (p_uplink s))"
  shows "store h a = store (p_heap s) a"
proof -
  have own: "own (p_heap s) (opt_role (p_block s) entry_role @ rest_roles s)"
    using uplink_inv_own [OF assms(1)] by (simp add: uplink_roles_split)
  have a: "(a, block_done) \<in> set (rest_roles s)" using assms(3) by (simp add: rest_roles_def)
  then have "a \<in> fst ` set (rest_roles s)" by force
  then have "a \<notin> fst ` set (opt_role (p_block s) P)"
    using own by (auto simp: own_def opt_role_def split: option.splits)
  moreover have "a \<in> live (p_heap s)" using ownD [OF own, of a block_done] a by (auto simp: in_live_iff)
  ultimately show ?thesis using hstep_foreign_store [OF assms(2)] by blast
qed

lemma entry_outcome_safe:
  assumes "uplink_inv s" and "block_holds s pl" and "entry_outcome s pl r x h p fl"
  shows "uplink_safe s (entry_state s h p fl)"
proof -
  obtain pl' Q where
    st: "hstep (p_heap s) (opt_role (p_block s) (\<lambda>b. is_block b 0xc0 pl)) h
         (opt_role p (\<lambda>b. is_block b 0xc0 pl') @ list_role fl Q)"
    and Q: "\<forall>b. Q b \<longleftrightarrow> is_block b 0xc0 pl \<and> contents b = block_wire 0xc0 pl"
    by (rule entry_outcomeE [OF assms(3)])
  have "own (p_heap s) (opt_role (p_block s) (\<lambda>b. is_block b 0xc0 pl))"
    using uplink_inv_heap [OF assms(1)] assms(2)
    by (auto simp: own_def block_holds_def opt_role_def split: option.splits)
  with assms(1) st show ?thesis
    by (rule entry_state_safe) (auto simp: entry_role_def block_done_def Q)
qed

lemma entry_outcome_length:
  assumes "entry_outcome s pl r x h p fl"
  shows "length x \<le> 512"
proof -
  obtain pl' Q where st: "own h (opt_role p (\<lambda>b. is_block b 0xc0 pl') @ list_role fl Q)"
    and "p = None \<longrightarrow> pl' = []" and "length x \<le> length pl'"
    by (rule entry_outcomeE [OF assms]) (auto dest: hstep_own)
  then show ?thesis
    by (cases p) (auto simp: own_Cons_iff dest!: is_block_bytes(2))
qed

lemma entry_outcome_log:
  assumes "uplink_inv s" and "open_entries s es"
    and "entry_outcome s (entries_wire es) r (entries_wire new) h p fl" and "list_all entry_valid new"
  shows "entry_log (entry_state s h p fl) = entry_log s @ new
    \<and> (\<exists>es'. open_entries (entry_state s h p fl) es')"
proof -
  let ?s = "entry_state s h p fl" and ?q = "up_processing_queue (p_uplink s)"
  let ?P = "\<lambda>es b. is_block b 0xc0 (entries_wire es)"
  obtain pl' Q where
    st: "hstep (p_heap s) (opt_role (p_block s) (?P es)) h
         (opt_role p (\<lambda>b. is_block b 0xc0 pl') @ list_role fl Q)"
    and Q: "\<forall>b. Q b \<longleftrightarrow> ?P es b \<and> contents b = block_wire 0xc0 (entries_wire es)"
    and p: "p = None \<longrightarrow> pl' = []"
    and c: "fl = [] \<and> pl' = entries_wire es @ entries_wire new
       \<or> (\<exists>a. p_block s = Some a \<and> fl = [a] \<and> pl' = entries_wire new)"
    by (rule entry_outcomeE [OF assms(3)])
  have q: "map (entries_of h) ?q = map (entries_of (p_heap s)) ?q"
    by (rule map_cong [OF refl entries_of_cong]) (rule queue_unchanged [OF assms(1) st])
  have es: "list_all entry_valid es" "block_holds s (entries_wire es)"
    using assms(2) by (simp_all add: open_entries_def)
  define es' where "es' = (if fl = [] then es @ new else new)"
  have es': "list_all entry_valid es'" "pl' = entries_wire es'"
    using es(1) assms(4) c by (auto simp: es'_def)
  have o: "block_holds ?s (entries_wire es')"
    using hstep_own [OF st] p es'(2)
    by (cases p) (auto simp: block_holds_def own_Cons_iff)
  then have open': "open_entries ?s es'" using es' by (simp add: open_entries_def)
  have fl: "concat (map (entries_of h) fl) @ es' =
      (case p_block s of None \<Rightarrow> [] | Some a \<Rightarrow> entries_of (p_heap s) a) @ new"
  proof (cases "fl = []")
    case True
    moreover have "(case p_block s of None \<Rightarrow> [] | Some a \<Rightarrow> entries_of (p_heap s) a) = es"
      if "p_block s \<noteq> None" using that open_entries_ex [OF assms(2)] by auto
    moreover have "es = []" if "p_block s = None"
      using that es(2) by (cases es) (auto simp: block_holds_def entry_wire_def split: prod.splits)
    ultimately show ?thesis by (cases "p_block s") (auto simp: es'_def)
  next
    case False
    with c obtain a where a: "p_block s = Some a" "fl = [a]" by auto
    obtain b where "store h a = Some b" "?P es b"
      using ownD [OF hstep_own [OF st], of a Q] a Q by auto
    then have "entries_of h a = es" using entries_of_block es(1) by blast
    then show ?thesis using a open_entries_ex [OF assms(2)] by (simp add: es'_def)
  qed
  have "(case p of None \<Rightarrow> [] | Some a \<Rightarrow> entries_of h a) = es'"
  proof (cases p)
    case None
    then have "entries_wire es' = []" using p es'(2) by simp
    then have "es' = []" by (cases es') (auto simp: entry_wire_def split: prod.splits)
    then show ?thesis using None by simp
  qed (use open_entries_ex [OF open'] in simp)
  then have "entry_log ?s = entry_log s @ new"
    using fl by (cases p) (simp_all add: entry_log_def q)
  with open' show ?thesis by blast
qed

section \<open>Properties of the entry writer\<close>

lemma entry_write_log_step:
  assumes "uplink_inv s" and "open_entries s es" and "0 < len" and "len \<le> length data"
    and "length path < 256" and "5 + length path + len < SIZE_MOD"
  shows "\<exists>r s'. pouch_uplink_entry_write OK (Some path) ct (Some data) len s = Some (r, s')
    \<and> entry_log s' = entry_log s @ (if r = OK then [(path, ct, take len data)] else [])
    \<and> (\<exists>es'. open_entries s' es') \<and> uplink_safe s s'
    \<and> (r = OK \<or> r = Err ENOMEM \<and> (512 < 5 + length path + len
        \<or> (\<exists>n\<ge>next_addr (p_heap s). malloc_oracle (p_heap s) n = None)))"
proof -
  have h: "block_holds s (entries_wire es)" using assms(2) by (simp add: open_entries_def)
  obtain r h p fl where
    w: "pouch_uplink_entry_write OK (Some path) ct (Some data) len s = Some (r, entry_state s h p fl)"
      "entry_outcome s (entries_wire es) r
         (if r = OK then entry_wire (path, ct, take len data) else []) h p fl"
      "r = OK \<or> r = Err ENOMEM \<and> (512 < 5 + length path + len
        \<or> (\<exists>n\<ge>next_addr (p_heap s). malloc_oracle (p_heap s) n = None))"
    by (rule entry_write_outcome [OF assms(1) h assms(3,4,6), where ct = ct])
  define new where "new = (if r = OK then [(path, ct, take len data)] else [])"
  have out: "entry_outcome s (entries_wire es) r (entries_wire new) h p fl"
    using w(2) by (cases "r = OK") (simp_all add: new_def)
  have "list_all entry_valid new"
    using entry_outcome_length [OF w(2)] assms(4,5) by (auto simp: new_def entry_valid_def)
  from entry_outcome_log [OF assms(1,2) out this] entry_outcome_safe [OF assms(1) h w(2)] w(1,3)
  show ?thesis by (auto simp: new_def)
qed

text \<open>
  Property C2. The entry writer refines an append-only log. From a state that satisfies the
  ownership invariant and whose open block holds well-formed entries, a write with a path of
  fewer than 256 bytes returns; when it returns 0 the log of accepted entries has exactly the
  new entry appended, whether or not the full block had to be queued first, and when it returns
  an error the log is unchanged. The only error is -ENOMEM, and then an allocation failed or the
  entry is bigger than a block's payload of 512 bytes. The open block again holds well-formed
  entries, and no buffer is leaked, released twice or taken from elsewhere.
\<close>

theorem entry_write_refines_log:
  assumes "uplink_inv s" and "open_entries s es" and "0 < len" and "len \<le> length data"
    and "length path < 256" and "5 + length path + len < SIZE_MOD"
  shows "\<exists>r s'. pouch_uplink_entry_write OK (Some path) ct (Some data) len s = Some (r, s')
    \<and> entry_log s' = entry_log s @ (if r = OK then [(path, ct, take len data)] else [])
    \<and> (\<exists>es'. open_entries s' es') \<and> uplink_safe s s'
    \<and> (r = OK \<or> r = Err ENOMEM \<and> (512 < 5 + length path + len
        \<or> (\<exists>n\<ge>next_addr (p_heap s). malloc_oracle (p_heap s) n = None)))"
  using entry_write_log_step [OF assms] .

lemma open_entries_static [simp]: "open_entries (pouch_static oracle c) []"
  by (simp add: open_entries_def block_holds_def pouch_static_def)

lemma entry_log_static [simp]: "entry_log (pouch_static oracle c) = []"
  by (simp add: entry_log_def pouch_static_def uplink_static_def)

lemma entry_write_refines_log_witness:
  "\<exists>r s'. pouch_uplink_entry_write OK (Some [0x61]) 50 (Some [1, 2, 3]) 2
        (pouch_static (\<lambda>_. Some (\<lambda>_. 0)) ()) = Some (r, s')
     \<and> entry_log s' = [([0x61], 50, [1, 2])] \<and> r = OK \<and> (\<exists>es'. open_entries s' es')"
  using entry_write_refines_log [of "pouch_static (\<lambda>_. Some (\<lambda>_. 0)) ()" "[]" 2 "[1, 2, 3]" "[0x61]" 50]
  by (auto simp: SIZE_MOD_num)

text \<open>
  Memory safety and the result of every write. With the mutex free and at least
  \<open>len\<close> readable bytes behind the data pointer, a write from a state that satisfies the invariant
  never touches memory outside a buffer, keeps the ownership invariant, leaks no buffer and
  leaves the buffers of others alone. It fails only with -ENOMEM, and then the entry is bigger
  than a block payload or an allocation failed; an entry of at most 512 bytes is accepted when
  allocations succeed.
\<close>

lemma entry_write_step:
  assumes "uplink_inv s" and "0 < len" and "len \<le> length data"
    and "5 + length path + len < SIZE_MOD"
  shows "\<exists>r s'. pouch_uplink_entry_write OK (Some path) ct (Some data) len s = Some (r, s')
    \<and> uplink_safe s s'
    \<and> (r = OK \<or> r = Err ENOMEM \<and> (512 < 5 + length path + len
        \<or> (\<exists>n\<ge>next_addr (p_heap s). malloc_oracle (p_heap s) n = None)))"
proof -
  obtain pl where pl: "block_holds s pl" using block_holds_ex [OF assms(1)] ..
  obtain r h p fl where
    w: "pouch_uplink_entry_write OK (Some path) ct (Some data) len s = Some (r, entry_state s h p fl)"
      "entry_outcome s pl r (if r = OK then entry_wire (path, ct, take len data) else []) h p fl"
      "r = OK \<or> r = Err ENOMEM \<and>
        (512 < 5 + length path + len \<or> (\<exists>n\<ge>next_addr (p_heap s). malloc_oracle (p_heap s) n = None))"
    by (rule entry_write_outcome [OF assms(1) pl assms(2,3,4), where ct = ct])
  show ?thesis using w(1,3) entry_outcome_safe [OF assms(1) pl w(2)] by blast
qed

text \<open>The mutex and the argument checks come first and change nothing.\<close>

lemma entry_write_rejects:
  "pouch_uplink_entry_write lock None ct data len s = Some (Err EINVAL, s)"
  "pouch_uplink_entry_write lock path ct None len s = Some (Err EINVAL, s)"
  "pouch_uplink_entry_write lock path ct data 0 s = Some (Err EINVAL, s)"
  "is_err lock \<Longrightarrow> 0 < len \<Longrightarrow>
     pouch_uplink_entry_write lock (Some p) ct (Some d) len s = Some (lock, s)"
  by (simp_all add: pouch_uplink_entry_write_def split: option.splits)

text \<open>
  Closing the entry block queues it, header filled in, and leaves no open block; the
  log of entries does not change, so that nothing accepted is lost, and the ownership invariant
  is kept. When the mutex cannot be taken nothing happens.
\<close>

lemma entry_block_close_cases:
  assumes "uplink_inv s" and "block_holds s pl"
  obtains (skip) "entry_block_close lock s = Some (lock, s)" "is_err lock \<or> p_block s = None"
    | (sent) a h where "lock = OK" "p_block s = Some a"
      "entry_block_close lock s = Some (OK, entry_state s h None [a])"
      "entry_outcome s pl OK [] h None [a]"
proof (cases "is_err lock \<or> p_block s = None")
  case True
  then show ?thesis by (intro skip; cases lock) (auto simp: entry_block_close_def)
next
  case False
  then obtain a where a: "p_block s = Some a" and l: "lock = OK" by (cases lock) auto
  let ?P = "\<lambda>b. is_block b 0xc0 pl"
  let ?Q = "\<lambda>b. is_block b 0xc0 pl \<and> contents b = block_wire 0xc0 pl"
  have own: "own (p_heap s) [(a, ?P)]"
    using assms(2) uplink_inv_heap [OF assms(1)] a by (auto simp: block_holds_def own_def)
  obtain h where f: "upd_buf a block_finish (p_heap s) = Some h" "hstep (p_heap s) [(a, ?P)] h [(a, ?Q)]"
    by (rule finish_entry_block [OF own])
  have sz: "\<exists>n>0. read_buf a block_size_get (p_heap s) = Some n"
    using ownD [OF own, of a] is_block_bytes(1)
    by (auto simp: block_size_get_def buf_size_get_def)
  have out: "entry_outcome s pl OK [] h None [a]"
    unfolding entry_outcome_def
    by (rule exI [of _ "[]"], rule exI [of _ ?Q]) (use f(2) a in simp)
  have "entry_block_close lock s = Some (OK, entry_state s h None [a])"
    using sz f(1) a l by (auto simp: entry_block_close_def entry_state_def uplink_enqueue_def)
  then show ?thesis using a l out by (intro sent)
qed

lemma entry_block_close_safe:
  assumes "uplink_inv s"
  shows "\<exists>s'. entry_block_close lock s = Some (lock, s') \<and> uplink_safe s s'"
proof -
  obtain pl where pl: "block_holds s pl" using block_holds_ex [OF assms] ..
  show ?thesis
  proof (cases rule: entry_block_close_cases [OF assms pl, where lock = lock])
    case 1
    then show ?thesis using uplink_safe_refl [OF assms] by blast
  next
    case (2 a h)
    then show ?thesis using entry_outcome_safe [OF assms pl 2(4)] by simp
  qed
qed

lemma entry_block_close_step:
  assumes "uplink_inv s" and "open_entries s es"
  shows "\<exists>s'. entry_block_close lock s = Some (lock, s') \<and> uplink_safe s s'
    \<and> entry_log s' = entry_log s
    \<and> (if is_err lock then s' = s
       else p_block s' = None \<and> up_processing_queue (p_uplink s')
              = up_processing_queue (p_uplink s) @ (case p_block s of None \<Rightarrow> [] | Some a \<Rightarrow> [a]))"
proof -
  have pl: "block_holds s (entries_wire es)" using assms(2) by (simp add: open_entries_def)
  show ?thesis
  proof (cases rule: entry_block_close_cases [OF assms(1) pl, where lock = lock])
    case 1
    then show ?thesis using uplink_safe_refl [OF assms(1)] by auto
  next
    case (2 a h)
    have "entry_outcome s (entries_wire es) OK (entries_wire []) h None [a]" using 2(4) by simp
    from entry_outcome_log [OF assms this] 2 entry_outcome_safe [OF assms(1) pl 2(4)]
    show ?thesis by simp
  qed
qed

text \<open>What writing and closing entries leaves alone: everything on the way to the transport.\<close>

definition transport_frame :: "'c pouch \<Rightarrow> 'c pouch \<Rightarrow> bool" where
  "transport_frame s s' \<longleftrightarrow> up_header (p_uplink s') = up_header (p_uplink s)
     \<and> up_transport_queue (p_uplink s') = up_transport_queue (p_uplink s)
     \<and> up_transport_reader (p_uplink s') = up_transport_reader (p_uplink s)
     \<and> p_crypto s' = p_crypto s \<and> p_events s' = p_events s
     \<and> (\<forall>a\<in>fst ` set (transport_roles (p_uplink s)). store (p_heap s') a = store (p_heap s) a)"

lemma transport_frame_refl: "transport_frame s s"
  by (simp add: transport_frame_def)

lemma transport_frame_trans: "transport_frame s s' \<Longrightarrow> transport_frame s' s'' \<Longrightarrow> transport_frame s s''"
  by (simp add: transport_frame_def transport_roles_def)

lemma entry_outcome_frame:
  assumes "uplink_inv s" and "entry_outcome s pl r x h p fl"
  shows "transport_frame s (entry_state s h p fl)"
proof -
  obtain pl' Q where st: "hstep (p_heap s) (opt_role (p_block s) (\<lambda>b. is_block b 0xc0 pl)) h
      (opt_role p (\<lambda>b. is_block b 0xc0 pl') @ list_role fl Q)"
    by (rule entry_outcomeE [OF assms(2)])
  have "store h a = store (p_heap s) a" if a: "(a, P) \<in> set (transport_roles (p_uplink s))" for a P
  proof -
    have in_roles: "(a, P) \<in> set (uplink_roles s)" using a by (simp add: uplink_roles_def)
    have own: "own (p_heap s) (uplink_roles s)" by (rule uplink_inv_own [OF assms(1)])
    have "p_block s \<noteq> Some a"
    proof
      assume "p_block s = Some a"
      then have "a \<notin> fst ` set (transport_roles (p_uplink s))"
        using own by (simp add: uplink_roles_def own_Cons_iff image_Un)
      with a show False by force
    qed
    then have "a \<in> foreign (p_heap s) (opt_role (p_block s) (\<lambda>b. is_block b 0xc0 pl))"
      using ownD [OF own in_roles] by (auto simp: foreign_def opt_role_def live_def split: option.splits)
    with st show ?thesis by (simp add: hstep_def)
  qed
  then show ?thesis by (auto simp: transport_frame_def entry_state_def)
qed

lemma entry_write_frame:
  assumes "uplink_inv s" and "open_entries s es" and "0 < len" and "len \<le> length data"
    and "5 + length path + len < SIZE_MOD"
    and "pouch_uplink_entry_write OK (Some path) ct (Some data) len s = Some (r, s')"
  shows "transport_frame s s'"
proof -
  have h: "block_holds s (entries_wire es)" using assms(2) by (simp add: open_entries_def)
  show ?thesis
    by (rule entry_write_outcome [OF assms(1) h assms(3-5), where ct = ct])
       (use assms(6) entry_outcome_frame [OF assms(1)] in auto)
qed

lemma entry_block_close_frame:
  assumes "uplink_inv s" and "open_entries s es" and "entry_block_close lock s = Some (r, s')"
  shows "transport_frame s s'"
proof -
  have h: "block_holds s (entries_wire es)" using assms(2) by (simp add: open_entries_def)
  show ?thesis
    by (rule entry_block_close_cases [OF assms(1) h, where lock = lock])
       (use assms(3) entry_outcome_frame [OF assms(1)] transport_frame_refl in auto)
qed

lemma entry_write_flags:
  "pouch_uplink_entry_write lock path ct data len s = Some (r, s') \<Longrightarrow> up_flags (p_uplink s') = up_flags (p_uplink s)"
  by (auto simp: pouch_uplink_entry_write_def uplink_enqueue_def bind_eq_Some_conv Let_def
      split: if_splits option.splits)

lemma entry_block_close_flags:
  "entry_block_close lock s = Some (r, s') \<Longrightarrow> up_flags (p_uplink s') = up_flags (p_uplink s)"
  by (auto simp: entry_block_close_def uplink_enqueue_def bind_eq_Some_conv
      split: if_splits option.splits)

section \<open>Delivering received blocks\<close>

text \<open>The calls the handlers should see for a list of entries.\<close>

definition deliver_entries :: "'w pouch_downlink_handler list \<Rightarrow> entry list \<Rightarrow> 'w \<Rightarrow> 'w" where
  "deliver_entries hs es w =
     fold (\<lambda>(path, ct, data) w. downlink_data hs 0 (Some data) (length data) True
             (downlink_start hs 0 (c_str path) ct w)) es w"

lemma deliver_entries_simps [simp]:
  "deliver_entries hs [] w = w"
  "deliver_entries hs ((path, ct, data) # es) w = deliver_entries hs es
     (downlink_data hs 0 (Some data) (length data) True (downlink_start hs 0 (c_str path) ct w))"
  by (simp_all add: deliver_entries_def)

lemma view_at_len: "view_at v h b n \<Longrightarrow> length (drop n (contents b)) = pb_bytes b - n"
  by (simp add: view_at_def)

lemma read_view_prefix:
  assumes "view_at v h b n" and "drop n (contents b) = x @ rest"
  obtains p v' where "pouch_bufview_read v (length x) h = Some (Some p, v')"
    and "view_at v' h b (n + length x)" and "ptr_read p (length x) h = Some x"
proof -
  have "n + length x \<le> pb_bytes b"
    using assms view_at_len [OF assms(1)] by (auto simp: view_at_def)
  from pouch_bufview_read_view [OF assms(1) this] assms(2) that show ?thesis by auto
qed

text \<open>The five header bytes of an entry.\<close>

lemma read_entry_header:
  assumes "view_at v h b n" and "drop n (contents b) = put_be16 dl @ put_be16 ct @ [plen] @ rest"
  obtains v1 v2 v3 where "pouch_bufview_read_be16 v h = Some (dl, v1)"
    and "pouch_bufview_read_be16 v1 h = Some (ct, v2)"
    and "pouch_bufview_read_byte v2 h = Some (plen, v3)"
    and "view_at v3 h b (n + 5)" and "drop (n + 5) (contents b) = rest"
proof -
  have d2: "drop (n + 2) (contents b) = put_be16 ct @ [plen] @ rest"
    using arg_cong [OF assms(2), of "drop 2"] by (simp add: add.commute)
  have d4: "drop (n + 2 + 2) (contents b) = plen # rest"
    using arg_cong [OF d2, of "drop 2"] by (simp add: add.commute)
  have "drop (n + 5) (contents b) = drop 1 (drop (n + 2 + 2) (contents b))"
    by (subst drop_drop) (simp add: eval_nat_numeral)
  then have d5: "drop (n + 5) (contents b) = rest" by (simp only: d4) simp
  obtain v1 where v1: "pouch_bufview_read_be16 v h = Some (dl, v1)" "view_at v1 h b (n + 2)"
    using pouch_bufview_read_be16_view [OF assms] by blast
  obtain v2 where v2: "pouch_bufview_read_be16 v1 h = Some (ct, v2)" "view_at v2 h b (n + 2 + 2)"
    using pouch_bufview_read_be16_view [OF v1(2) d2] by blast
  obtain v3 where v3: "pouch_bufview_read_byte v2 h = Some (plen, v3)" "view_at v3 h b (n + 2 + 2 + 1)"
    using pouch_bufview_read_byte_view [OF v2(2) d4] by blast
  have n5: "n + 2 + 2 + 1 = n + 5" by simp
  show ?thesis by (rule that [OF v1(1) v2(1) v3(1) v3(2) [unfolded n5] d5])
qed

lemma entries_push_view:
  assumes "view_at v h b n" and "drop n (contents b) = entries_wire es" and "list_all entry_valid es"
  shows "pouch_downlink_entries_push hs h v w = Some (deliver_entries hs es w)"
  using assms
proof (induction es arbitrary: v n w)
  case Nil
  then have "pouch_bufview_available v h = Some 0"
    using pouch_bufview_available_view [OF Nil(1)] view_at_len [OF Nil(1)] by simp
  then show ?case by (subst pouch_downlink_entries_push.simps) simp
next
  case (Cons e es)
  obtain path ct data where e: "e = (path, ct, data)" by (cases e)
  let ?n = "n + 5 + length path + length data"
  have len: "unat (of_nat (length data) :: u16) = length data"
    "unat (of_nat (length path) :: u8) = length path"
    using Cons.prems(3) by (simp_all add: e entry_valid_def)
  have d: "drop n (contents b) = put_be16 (of_nat (length data)) @ put_be16 ct
      @ [of_nat (length path)] @ path @ data @ entries_wire es"
    using Cons.prems(2) by (simp add: e entry_wire_def)
  obtain v1 v2 v3 where
    v: "pouch_bufview_read_be16 v h = Some (of_nat (length data), v1)"
      "pouch_bufview_read_be16 v1 h = Some (ct, v2)"
      "pouch_bufview_read_byte v2 h = Some (of_nat (length path), v3)"
      "view_at v3 h b (n + 5)" "drop (n + 5) (contents b) = path @ data @ entries_wire es"
    by (rule read_entry_header [OF Cons.prems(1) d])
  obtain p v4 where
    p: "pouch_bufview_read v3 (length path) h = Some (Some p, v4)"
      "view_at v4 h b (n + 5 + length path)" "ptr_read p (length path) h = Some path"
    by (rule read_view_prefix [OF v(4,5)])
  have d4: "drop (n + 5 + length path) (contents b) = data @ entries_wire es"
    using arg_cong [OF v(5), of "drop (length path)"] by (simp add: add.commute)
  obtain q v5 where
    q: "pouch_bufview_read v4 (length data) h = Some (Some q, v5)" "view_at v5 h b ?n"
      "ptr_read q (length data) h = Some data"
    by (rule read_view_prefix [OF p(2) d4])
  have d5: "drop ?n (contents b) = entries_wire es"
    using arg_cong [OF d4, of "drop (length data)"] by (simp add: add.commute)
  have "pouch_bufview_available v h = Some (length (drop n (contents b)))"
    using pouch_bufview_available_view [OF Cons.prems(1)] view_at_len [OF Cons.prems(1)] by simp
  moreover have "length (drop n (contents b)) \<noteq> 0" by (simp only: d) simp
  ultimately have "pouch_downlink_entries_push hs h v w = pouch_downlink_entries_push hs h v5
      (downlink_data hs 0 (Some data) (length data) True (downlink_start hs 0 (c_str path) ct w))"
    by (subst pouch_downlink_entries_push.simps)
       (simp add: v p q len deref_def pass_ptr_def Let_def)
  also have "\<dots> = Some (deliver_entries hs (e # es) w)"
    using Cons.IH [OF q(2) d5] Cons.prems(3) by (simp add: e)
  finally show ?case .
qed

text \<open>The pieces of a stream a block carries: the header of the first block, then data.\<close>

definition stream_header_wire :: "u8 list \<Rightarrow> u16 \<Rightarrow> u8 list" where
  "stream_header_wire path ct = put_be16 ct @ [of_nat (length path)] @ path"

lemma stream_push_first:
  assumes "view_at v h b n" and "drop n (contents b) = stream_header_wire path ct @ data"
    and "length path < 256" and "length data < 65536"
  shows "pouch_downlink_stream_push hs h v sid True is_last w =
    Some (downlink_data hs sid (Some data) (length data) is_last
      (downlink_start hs sid (c_str path) ct w))"
proof -
  have len: "unat (of_nat (length path) :: u8) = length path"
    "unat (of_nat (length data) :: u16) = length data" using assms(3,4) by simp_all
  have d0: "drop n (contents b) = put_be16 ct @ [of_nat (length path)] @ path @ data"
    using assms(2) by (simp add: stream_header_wire_def)
  obtain v1 where v1: "pouch_bufview_read_be16 v h = Some (ct, v1)" "view_at v1 h b (n + 2)"
    using pouch_bufview_read_be16_view [OF assms(1) d0] by blast
  have d2: "drop (n + 2) (contents b) = of_nat (length path) # path @ data"
    using arg_cong [OF d0, of "drop 2"] by (simp add: add.commute)
  obtain v2 where v2: "pouch_bufview_read_byte v1 h = Some (of_nat (length path), v2)"
      "view_at v2 h b (n + 2 + 1)"
    using pouch_bufview_read_byte_view [OF v1(2) d2] by blast
  have "drop (n + 2 + 1) (contents b) = drop 1 (drop (n + 2) (contents b))"
    by (subst drop_drop) simp
  then have d3: "drop (n + 2 + 1) (contents b) = path @ data" by (simp only: d2) simp
  obtain p v3 where
    p: "pouch_bufview_read v2 (length path) h = Some (Some p, v3)"
      "view_at v3 h b (n + 2 + 1 + length path)" "ptr_read p (length path) h = Some path"
    by (rule read_view_prefix [OF v2(2) d3])
  have d4: "drop (n + 2 + 1 + length path) (contents b) = data @ []"
    using arg_cong [OF d3, of "drop (length path)"] by (simp add: add.commute)
  obtain q v4 where
    q: "pouch_bufview_read v3 (length data) h = Some (Some q, v4)"
      "ptr_read q (length data) h = Some data"
    by (rule read_view_prefix [OF p(2) d4])
  have "pouch_bufview_available v3 h = Some (length data)"
    using pouch_bufview_available_view [OF p(2)] view_at_len [OF p(2), unfolded d4] by simp
  then show ?thesis
    by (simp add: pouch_downlink_stream_push_def v1 v2 p q len deref_def pass_ptr_def Let_def)
qed

lemma stream_push_next:
  assumes "view_at v h b n" and "drop n (contents b) = data" and "length data < 65536"
  shows "pouch_downlink_stream_push hs h v sid False is_last w =
    Some (downlink_data hs sid (Some data) (length data) is_last w)"
proof -
  have d: "drop n (contents b) = data @ []" using assms(2) by simp
  obtain q v4 where
    q: "pouch_bufview_read v (length data) h = Some (Some q, v4)"
      "ptr_read q (length data) h = Some data"
    by (rule read_view_prefix [OF assms(1) d])
  have "pouch_bufview_available v h = Some (length data)"
    using pouch_bufview_available_view [OF assms(1)] view_at_len [OF assms(1)] assms(2) by simp
  then show ?thesis
    using q assms(3) by (simp add: pouch_downlink_stream_push_def pass_ptr_def Let_def)
qed

lemma block_push_entries_step:
  assumes "heap_ok h" and "store h a = Some b" and "contents b = block_wire 0xc0 (entries_wire es)"
    and "list_all entry_valid es"
  shows "pouch_downlink_block_push hs a h w = Some (deliver_entries hs es w)"
proof -
  have v: "view_at (pouch_bufview_init a) h b 0"
    using assms(1,2) by (simp add: view_at_init heap_ok_buf_ok)
  have c: "contents b = put_be16 (of_nat (Suc (length (entries_wire es)))) @ [0xc0] @ entries_wire es"
    using assms(3) by (simp add: block_wire_def)
  from block_decode_hdr_view [OF v c] obtain v' where
    d: "block_decode_hdr (pouch_bufview_init a) h = Some (\<lparr>bh_size = of_nat (Suc (length (entries_wire es))),
          bh_stream_id = 0, bh_is_stream = False, bh_is_first = True, bh_is_last = True\<rparr>, v')"
    and v': "view_at v' h b 3"
    by (auto simp: BLOCK_ID_MASK_def BLOCK_ID_ENTRY_def FIRST_DATA_MASK_def LAST_DATA_MASK_def)
  have "drop 3 (contents b) = entries_wire es" using c by (simp add: put_be16_def)
  from entries_push_view [OF v' this assms(4)] d show ?thesis
    by (simp add: pouch_downlink_block_push_def)
qed

text \<open>
  A received entry block is delivered exactly: for a buffer that holds the wire
  image of a block of well-formed entries, \<^verbatim>\<open>pouch_downlink_block_push()\<close> terminates without
  touching memory outside the block and calls the start and data callbacks of every handler
  once per entry, in order, with the path, content type and data that were encoded.
\<close>

theorem block_push_entries:
  assumes "heap_ok h" and "store h a = Some b" and "contents b = block_wire 0xc0 (entries_wire es)"
    and "list_all entry_valid es"
  shows "pouch_downlink_block_push hs a h w = Some (deliver_entries hs es w)"
  using block_push_entries_step [OF assms] .

definition demo_heap :: "u8 list \<Rightarrow> heap" where
  "demo_heap bs = \<lparr>store = [0 \<mapsto> \<lparr>pb_bytes = length bs, pb_mem = bs\<rparr>], next_addr = 1,
     malloc_oracle = (\<lambda>_. None), bufs = 1\<rparr>"

lemma demo_heap_ok: "length bs < SIZE_MOD \<Longrightarrow> heap_ok (demo_heap bs)"
  by (simp add: demo_heap_def heap_ok_def buf_ok_def cap_def)

lemma demo_heap_store: "store (demo_heap bs) 0 = Some \<lparr>pb_bytes = length bs, pb_mem = bs\<rparr>"
  by (simp add: demo_heap_def)

lemma block_push_entries_witness:
  "pouch_downlink_block_push [\<lparr>start_cb = (\<lambda>i p ct w. w @ [Inl p]), data_cb = (\<lambda>i d n l w. w @ [Inr d])\<rparr>]
     0 (demo_heap (block_wire 0xc0 (entries_wire [([0x61], 1, [7, 8]), ([0x62], 2, [9])]))) []
   = Some [Inl [0x61], Inr (Some [7, 8]), Inl [0x62], Inr (Some [9])]"
proof -
  let ?es = "[([0x61], 1, [7, 8]), ([0x62], 2, [9])] :: entry list"
  have ok: "heap_ok (demo_heap (block_wire 0xc0 (entries_wire ?es)))"
    by (rule demo_heap_ok) (simp add: contents_block_wire_bytes SIZE_MOD_num)
  show ?thesis
    by (subst block_push_entries [OF ok demo_heap_store, where es = ?es])
       (simp_all add: contents_def entry_valid_def downlink_data_def downlink_start_def c_str_def)
qed

lemma block_push_stream_step:
  assumes "heap_ok h" and "store h a = Some b" and "bid AND BLOCK_ID_MASK = sid" and "sid \<noteq> 0"
    and "contents b = block_wire bid
      ((if bid AND FIRST_DATA_MASK \<noteq> 0 then stream_header_wire path ct else []) @ data)"
    and "length path < 256" and "length data < 65536"
  shows "pouch_downlink_block_push hs a h w =
    Some (downlink_data hs (unat sid) (Some data) (length data) (bid AND LAST_DATA_MASK \<noteq> 0)
      (if bid AND FIRST_DATA_MASK \<noteq> 0 then downlink_start hs (unat sid) (c_str path) ct w else w))"
proof -
  let ?pl = "(if bid AND FIRST_DATA_MASK \<noteq> 0 then stream_header_wire path ct else []) @ data"
  have v: "view_at (pouch_bufview_init a) h b 0"
    using assms(1,2) by (simp add: view_at_init heap_ok_buf_ok)
  have c: "contents b = put_be16 (of_nat (Suc (length ?pl))) @ [bid] @ ?pl"
    using assms(5) by (simp only: block_wire_def)
  from block_decode_hdr_view [OF v c] obtain v' where
    d: "block_decode_hdr (pouch_bufview_init a) h = Some (\<lparr>bh_size = of_nat (Suc (length ?pl)),
          bh_stream_id = sid, bh_is_stream = True, bh_is_first = (bid AND FIRST_DATA_MASK \<noteq> 0),
          bh_is_last = (bid AND LAST_DATA_MASK \<noteq> 0)\<rparr>, v')"
    and v': "view_at v' h b 3"
    using assms(3,4) by (auto simp: BLOCK_ID_ENTRY_def)
  have d3: "drop 3 (contents b) = ?pl" by (simp only: c) (simp add: put_be16_def)
  show ?thesis
  proof (cases "bid AND FIRST_DATA_MASK = 0")
    case True
    then show ?thesis
      using d stream_push_next [OF v' _ assms(7)] d3 by (simp add: pouch_downlink_block_push_def)
  next
    case False
    then show ?thesis
      using d stream_push_first [OF v' _ assms(6,7), of ct] d3
      by (simp add: pouch_downlink_block_push_def)
  qed
qed

text \<open>
  Property C27. A received stream block is delivered exactly: the id of the block selects the
  stream, the first block of a stream carries the path and content type and starts it, every
  block delivers its payload, and the last-data flag is passed on.
\<close>

theorem block_push_stream:
  assumes "heap_ok h" and "store h a = Some b" and "bid AND BLOCK_ID_MASK = sid" and "sid \<noteq> 0"
    and "contents b = block_wire bid
      ((if bid AND FIRST_DATA_MASK \<noteq> 0 then stream_header_wire path ct else []) @ data)"
    and "length path < 256" and "length data < 65536"
  shows "pouch_downlink_block_push hs a h w =
    Some (downlink_data hs (unat sid) (Some data) (length data) (bid AND LAST_DATA_MASK \<noteq> 0)
      (if bid AND FIRST_DATA_MASK \<noteq> 0 then downlink_start hs (unat sid) (c_str path) ct w else w))"
  using block_push_stream_step [OF assms] .

lemma block_push_stream_witness:
  "pouch_downlink_block_push [\<lparr>start_cb = (\<lambda>i p ct w. w @ [Inl (i, p)]), data_cb = (\<lambda>i d n l w. w @ [Inr (d, l)])\<rparr>]
     0 (demo_heap (block_wire 0x45 (stream_header_wire [0x61] 42 @ [7, 8]))) []
   = Some [Inl (5, [0x61]), Inr (Some [7, 8], False)]"
proof -
  have ok: "heap_ok (demo_heap (block_wire 0x45 (stream_header_wire [0x61] 42 @ [7, 8])))"
    by (rule demo_heap_ok) (simp add: contents_block_wire_bytes SIZE_MOD_num stream_header_wire_def)
  show ?thesis
    by (subst block_push_stream [OF ok demo_heap_store, where bid = "0x45" and sid = 5
          and path = "[0x61]" and ct = 42 and data = "[7, 8]"])
       (simp_all add: contents_def BLOCK_ID_MASK_def FIRST_DATA_MASK_def LAST_DATA_MASK_def
          downlink_data_def downlink_start_def c_str_def)
qed

text \<open>
  What a malformed block does: the path length of an entry is not checked against
  the bytes that are there, so that a block whose entry announces a longer path makes the code
  copy from a NULL pointer, whatever the handlers are.
\<close>

theorem entries_push_truncated_path:
  assumes "view_at v h b n" and "drop n (contents b) = put_be16 dl @ put_be16 ct @ [plen] @ rest"
    and "length rest < unat plen"
  shows "pouch_downlink_entries_push hs h v w = None"
proof -
  obtain v1 v2 v3 where
    v: "pouch_bufview_read_be16 v h = Some (dl, v1)" "pouch_bufview_read_be16 v1 h = Some (ct, v2)"
      "pouch_bufview_read_byte v2 h = Some (plen, v3)"
      "view_at v3 h b (n + 5)" "drop (n + 5) (contents b) = rest"
    by (rule read_entry_header [OF assms(1,2)])
  have "pb_bytes b < n + 5 + unat plen"
    using assms(3) view_at_len [OF v(4)] v(4) v(5) by (simp add: view_at_def)
  then have p: "pouch_bufview_read v3 (unat plen) h = Some (None, v3)"
    using pouch_bufview_read_short [OF v(4)] by blast
  have "pouch_bufview_available v h = Some (length (drop n (contents b)))"
    using pouch_bufview_available_view [OF assms(1)] view_at_len [OF assms(1)] by simp
  moreover have "length (drop n (contents b)) \<noteq> 0" by (simp only: assms(2)) simp
  ultimately show ?thesis
    by (subst pouch_downlink_entries_push.simps)
       (simp add: v(1-3) p deref_def Option.bind_eq_None_conv split_beta)
qed

lemma entries_push_truncated_path_witness:
  "pouch_downlink_entries_push [] (demo_heap [0, 1, 0, 0, 9, 0x61])
     (pouch_bufview_init 0) () = None"
proof -
  have "view_at (pouch_bufview_init 0) (demo_heap [0, 1, 0, 0, 9, 0x61])
      \<lparr>pb_bytes = 6, pb_mem = [0, 1, 0, 0, 9, 0x61]\<rparr> 0"
    by (rule view_at_init) (simp_all add: demo_heap_def buf_ok_def cap_def SIZE_MOD_num)
  then show ?thesis
    by (rule entries_push_truncated_path [where dl = 1 and ct = 0 and plen = 9 and rest = "[0x61]"])
       (simp_all add: contents_def put_be16_def)
qed

end
