(* ===== verification/Stream.thy ===== *)
theory Stream
  imports Entry
begin

text \<open>
  The uplink streams of \<^verbatim>\<open>src/stream.c\<close>. A stream is a heap object that owns one open block;
  when the block is full it is queued and a new one takes its place. The objects are kept in
  \<open>p_streams\<close> by the address \<^verbatim>\<open>malloc()\<close> gave them; following a handle that is not there
  (a released stream) is undefined behaviour.
\<close>

section \<open>Operations\<close>

definition POUCH_STREAMS_MAX :: int where
  "POUCH_STREAMS_MAX = 126"

definition write_stream_header :: "pouch_buf \<Rightarrow> u16 \<Rightarrow> u8 list \<Rightarrow> pouch_buf option" where
  "write_stream_header block content_type path =
     (let path_len = length path in
      do { block \<leftarrow> buf_write block (put_be16 content_type);
           block \<leftarrow> buf_write block [of_nat path_len];
           buf_write block path })"

text \<open>The counter is 32 bits wide and wraps; only its low bits become the id.\<close>

function new_stream_id :: "u32 \<Rightarrow> u8 \<times> u32" where
  "new_stream_id c =
     (let i = ucast (c AND ucast BLOCK_ID_MASK) in
      if i = 0 then new_stream_id (c + 1) else (i, c + 1))"
  by pat_completeness auto

lemma id_bits: "ucast ((c :: u32) AND ucast BLOCK_ID_MASK) = (of_nat (unat c mod 32) :: u8)"
proof -
  have "(ucast BLOCK_ID_MASK :: u32) = mask 5" by (simp add: BLOCK_ID_MASK_def mask_eq_exp_minus_1)
  then have "c AND ucast BLOCK_ID_MASK = take_bit 5 c" by (simp add: take_bit_eq_mask)
  then have "unat (c AND ucast BLOCK_ID_MASK) = unat c mod 32"
    by (simp add: take_bit_eq_mod unat_mod)
  then show ?thesis
    by (metis of_nat_unat)
qed

lemma id_zero_iff: "(of_nat (unat (c :: u32) mod 32) :: u8) = 0 \<longleftrightarrow> unat c mod 32 = 0"
proof
  assume "(of_nat (unat c mod 32) :: u8) = 0"
  then have "unat (of_nat (unat c mod 32) :: u8) = 0" by simp
  moreover have "unat c mod 32 < 256" by (rule order_less_trans [of _ 32]) simp_all
  ultimately show "unat c mod 32 = 0" by simp
qed simp

lemma unat_Suc_mod32: "unat (c + 1 :: u32) mod 32 = Suc (unat c) mod 32"
  by (simp add: unat_word_ariths mod_mod_cancel)

termination new_stream_id
proof (relation "measure (\<lambda>c. if unat c mod 32 = 0 then 1 else 0)")
  fix c :: u32 and i :: u8
  assume "i = ucast (c AND ucast BLOCK_ID_MASK)" "i = 0"
  then have "unat c mod 32 = 0" using id_bits [of c] id_zero_iff [of c] by metis
  then show "(c + 1, c) \<in> measure (\<lambda>c. if unat c mod 32 = 0 then 1 else 0)"
    by (simp add: unat_Suc_mod32 mod_Suc)
qed simp

declare new_stream_id.simps [simp del]

text \<open>\<^verbatim>\<open>malloc(sizeof(struct pouch_stream))\<close>.\<close>

definition stream_malloc :: "heap \<Rightarrow> addr option \<times> heap" where
  "stream_malloc h =
     (let a = next_addr h; h' = h\<lparr>next_addr := Suc a\<rparr> in
      (if malloc_oracle h a = None then None else Some a, h'))"

definition stream_get :: "addr \<Rightarrow> 'c pouch \<Rightarrow> pouch_stream option" where
  "stream_get sp s = map_of (p_streams s) sp"

definition stream_put :: "addr \<Rightarrow> pouch_stream \<Rightarrow> 'c pouch \<Rightarrow> 'c pouch" where
  "stream_put sp st s =
     s\<lparr>p_streams := map (\<lambda>(k, x). (k, if k = sp then st else x)) (p_streams s)\<rparr>"

definition stream_drop :: "addr \<Rightarrow> 'c pouch \<Rightarrow> 'c pouch" where
  "stream_drop sp s = s\<lparr>p_streams := filter (\<lambda>x. fst x \<noteq> sp) (p_streams s)\<rparr>"

definition dec_open_streams :: "'c pouch \<Rightarrow> 'c pouch" where
  "dec_open_streams s = s\<lparr>p_open_streams := p_open_streams s - 1\<rparr>"

definition pouch_uplink_stream_open ::
    "u8 list \<Rightarrow> u16 \<Rightarrow> 'c pouch \<Rightarrow> (addr option \<times> 'c pouch) option" where
  "pouch_uplink_stream_open path content_type s =
     (let old = p_open_streams s; s = s\<lparr>p_open_streams := old + 1\<rparr> in
      if POUCH_STREAMS_MAX \<le> old then Some (None, dec_open_streams s)
      else case stream_malloc (p_heap s) of
        (None, h) \<Rightarrow> Some (None, dec_open_streams (s\<lparr>p_heap := h\<rparr>))
      | (Some stream, h) \<Rightarrow>
          let (sid, counter) = new_stream_id (p_stream_id s);
              s = s\<lparr>p_heap := h, p_stream_id := counter\<rparr>;
              session = uplink_session_id s in
          do { (p, h) \<leftarrow> block_alloc_stream sid True (p_heap s);
               case p of
                 None \<Rightarrow> Some (None, dec_open_streams (s\<lparr>p_heap := h\<rparr>))
               | Some a \<Rightarrow> do {
                   h \<leftarrow> upd_buf a (\<lambda>b. write_stream_header b content_type path) h;
                   Some (Some stream, s\<lparr>p_heap := h, p_streams :=
                     (stream, \<lparr>st_id = sid, st_buf = a, st_bytes = 0, st_session_id = session\<rparr>)
                       # p_streams s\<rparr>) } })"

definition pouch_stream_is_valid :: "addr option \<Rightarrow> 'c pouch \<Rightarrow> bool option" where
  "pouch_stream_is_valid stream s =
     (case stream of None \<Rightarrow> Some False
      | Some sp \<Rightarrow> do { st \<leftarrow> stream_get sp s; Some (st_session_id st = uplink_session_id s) })"

text \<open>
  The part of the write loop that makes room: the block to write to and its space, or \<open>None\<close>
  when no new block could be allocated and the loop is left.
\<close>

definition stream_make_room ::
    "addr \<Rightarrow> 'c pouch \<Rightarrow> ((addr \<times> nat) option \<times> 'c pouch) option" where
  "stream_make_room sp s =
     do { st \<leftarrow> stream_get sp s;
          space \<leftarrow> read_buf (st_buf st) block_space_get (p_heap s);
          if space = 0 then do {
            (p, h) \<leftarrow> block_alloc_stream (st_id st) False (p_heap s);
            let s = s\<lparr>p_heap := h\<rparr>;
            case p of
              None \<Rightarrow> Some (None, s)
            | Some a \<Rightarrow> do {
                h \<leftarrow> upd_buf (st_buf st) (\<lambda>b. block_finish_stream b (st_id st) False) (p_heap s);
                let s = uplink_enqueue (st_buf st) (s\<lparr>p_heap := h\<rparr>);
                let s = stream_put sp (st\<lparr>st_buf := a\<rparr>) s;
                space \<leftarrow> read_buf a block_space_get (p_heap s);
                Some (Some (a, space), s) } }
          else Some (Some (st_buf st, space), s) }"

partial_function (option) stream_write_loop ::
    "addr \<Rightarrow> u8 list \<Rightarrow> nat \<Rightarrow> nat \<Rightarrow> 'c pouch \<Rightarrow> (nat \<times> 'c pouch) option" where
  "stream_write_loop sp bytes len written s =
     (if written < len then do {
        (r, s) \<leftarrow> stream_make_room sp s;
        case r of
          None \<Rightarrow> Some (written, s)
        | Some (a, space) \<Rightarrow> do {
            let write_len = min space (len - written);
            data \<leftarrow> mem_read bytes written write_len;
            h \<leftarrow> upd_buf a (\<lambda>b. buf_write b data) (p_heap s);
            stream_write_loop sp bytes len (written + write_len) (s\<lparr>p_heap := h\<rparr>) } }
      else Some (written, s))"

definition pouch_stream_write ::
    "addr option \<Rightarrow> u8 list \<Rightarrow> nat \<Rightarrow> 'c pouch \<Rightarrow> (nat \<times> 'c pouch) option" where
  "pouch_stream_write stream data len s =
     do { valid \<leftarrow> pouch_stream_is_valid stream s;
          if \<not> valid then Some (0, s)
          else do {
            sp \<leftarrow> stream;
            (written, s) \<leftarrow> stream_write_loop sp data len 0 s;
            st \<leftarrow> stream_get sp s;
            Some (written, stream_put sp (st\<lparr>st_bytes := szt_add (st_bytes st) written\<rparr>) s) } }"

definition pouch_stream_close :: "addr option \<Rightarrow> 'c pouch \<Rightarrow> (ret \<times> 'c pouch) option" where
  "pouch_stream_close stream s =
     (case stream of
        None \<Rightarrow> Some (Err EINVAL, s)
      | Some sp \<Rightarrow> do {
          valid \<leftarrow> pouch_stream_is_valid stream s;
          st \<leftarrow> stream_get sp s;
          s \<leftarrow> (if valid \<and> 0 < st_bytes st then do {
                 h \<leftarrow> upd_buf (st_buf st) (\<lambda>b. block_finish_stream b (st_id st) True) (p_heap s);
                 Some (uplink_enqueue (st_buf st) (s\<lparr>p_heap := h\<rparr>)) }
               else do {
                 h \<leftarrow> block_free (Some (st_buf st)) (p_heap s);
                 Some (s\<lparr>p_heap := h\<rparr>) });
          Some (OK, stream_drop sp (dec_open_streams s)) })"

section \<open>Stream identifiers\<close>

text \<open>The id a call returns and the counter it leaves, as numbers.\<close>

lemma new_stream_id_eq:
  "new_stream_id c = (if unat c mod 32 = 0 then (1, c + 2) else (of_nat (unat c mod 32), c + 1))"
proof -
  have step: "new_stream_id c = (of_nat (unat c mod 32), c + 1)" if "unat c mod 32 \<noteq> 0" for c
    using that id_zero_iff [of c] by (subst new_stream_id.simps) (simp only: id_bits Let_def if_False)
  show ?thesis
  proof (cases "unat c mod 32 = 0")
    case True
    then have m: "unat (c + 1) mod 32 = 1" by (simp add: unat_Suc_mod32 mod_Suc)
    have "new_stream_id c = new_stream_id (c + 1)"
      using True by (subst new_stream_id.simps) (simp only: id_bits Let_def, simp)
    also have "\<dots> = (1, c + 1 + 1)" using step [of "c + 1"] m by simp
    also have "c + 1 + 1 = c + 2" by simp
    finally show ?thesis using True by simp
  qed (use step in simp)
qed

definition id_index :: "u32 \<Rightarrow> nat" where
  "id_index c = (if unat c mod 32 = 0 then 1 else unat c mod 32)"

lemma id_index_bounds: "0 < id_index c" "id_index c < 32"
  by (simp_all add: id_index_def)

lemma fst_new_stream_id: "fst (new_stream_id c) = of_nat (id_index c)"
  by (simp add: new_stream_id_eq id_index_def)

lemma id_index_next: "id_index (snd (new_stream_id c)) = id_index c mod 31 + 1"
proof -
  define m where "m = unat c mod 32"
  have one: "unat (c + 1) mod 32 = Suc (unat c mod 32) mod 32" for c :: u32
    by (simp add: unat_Suc_mod32 mod_Suc_eq)
  have c1: "unat (c + 1) mod 32 = Suc m mod 32" by (simp only: one m_def)
  have "unat (c + 2) mod 32 = Suc (Suc (unat c mod 32) mod 32) mod 32"
    using one [of "c + 1"] one [of c] by (simp add: add.assoc)
  then have c2: "unat (c + 2) mod 32 = Suc (Suc m mod 32) mod 32" by (simp only: m_def)
  have "m < 32" by (simp add: m_def)
  then consider "m = 0" | "m = 31" | "0 < m" "m < 31" by linarith
  then show ?thesis
    unfolding new_stream_id_eq id_index_def m_def [symmetric]
    by cases (simp_all add: c1 c2)
qed

lemma of_nat_index_inj:
  assumes "m < 32" and "n < 32"
  shows "(of_nat m :: u8) = of_nat n \<longleftrightarrow> m = n"
proof -
  have "unat (of_nat m :: u8) = m" "unat (of_nat n :: u8) = n"
    using assms by (simp_all add: unat_of_nat8)
  then show ?thesis by metis
qed

text \<open>The id the call number \<open>n\<close> returns, counted from the counter value \<open>c\<close>.\<close>

definition nth_stream_id :: "u32 \<Rightarrow> nat \<Rightarrow> u8" where
  "nth_stream_id c n = fst (new_stream_id (((\<lambda>c. snd (new_stream_id c)) ^^ n) c))"

lemma id_index_iterate:
  "id_index (((\<lambda>c. snd (new_stream_id c)) ^^ n) c) = (id_index c - 1 + n) mod 31 + 1"
proof (induction n)
  case 0
  show ?case using id_index_bounds [of c] by simp
next
  case (Suc n)
  then show ?case by (simp add: id_index_next mod_Suc_eq)
qed

text \<open>
  Stream ids are never 0, the id reserved for entry blocks, and fit the five bits
  the block header has for them, so that an id never reads as a first or last flag.
\<close>

theorem new_stream_id_range:
  "fst (new_stream_id c) \<noteq> BLOCK_ID_ENTRY \<and> fst (new_stream_id c) AND BLOCK_ID_MASK = fst (new_stream_id c)"
proof -
  let ?n = "id_index c"
  have "(of_nat ?n :: u8) \<noteq> of_nat 0"
    using id_index_bounds [of c] of_nat_index_inj [of ?n 0] by simp
  moreover have "take_bit 5 (of_nat ?n :: u8) = of_nat ?n"
  proof -
    have "take_bit 5 ?n = ?n" "unat (of_nat ?n :: u8) = ?n"
      using id_index_bounds [of c] by (simp_all add: take_bit_nat_eq_self)
    then have "unat (take_bit 5 (of_nat ?n :: u8)) = unat (of_nat ?n :: u8)"
      by (simp only: unsigned_take_bit_eq)
    then show ?thesis by (simp only: word_unat_eq_iff)
  qed
  ultimately show ?thesis
    by (simp add: fst_new_stream_id BLOCK_ID_ENTRY_def BLOCK_ID_MASK_def take_bit_eq_mask
        mask_eq_exp_minus_1)
qed

text \<open>
  Property C37. Ids repeat with period 31: two calls return the same id exactly when their numbers
  are equal modulo 31. Up to \<^verbatim>\<open>POUCH_STREAMS_MAX\<close> (126) streams may be open at once, so that open
  streams share ids as soon as there are more than 31 of them.
\<close>

theorem stream_ids_repeat:
  "nth_stream_id c i = nth_stream_id c j \<longleftrightarrow> i mod 31 = j mod 31"
proof -
  let ?f = "\<lambda>n. (id_index c - 1 + n) mod 31 + 1"
  have lt: "?f n < 32" for n by (simp add: mod_less_divisor [of 31, THEN Suc_leI, simplified] Suc_le_eq less_Suc_eq_le)
  have "nth_stream_id c i = nth_stream_id c j \<longleftrightarrow> ?f i = ?f j"
    unfolding nth_stream_id_def fst_new_stream_id id_index_iterate
    by (rule of_nat_index_inj) (use lt in simp_all)
  also have "\<dots> \<longleftrightarrow> i mod 31 = j mod 31"
    using mod_add_left_eq by (auto simp: mod_eq_dvd_iff_nat nat_mod_eq_iff)
  finally show ?thesis .
qed

section \<open>Changing one stream\<close>

text \<open>
  The state in which the stream \<open>sp\<close> has become \<open>st\<close> and the blocks \<open>fl\<close> have been
  queued.
\<close>

definition stream_step ::
    "'c pouch \<Rightarrow> heap \<Rightarrow> addr \<Rightarrow> pouch_stream \<Rightarrow> addr list \<Rightarrow> 'c pouch" where
  "stream_step s h sp st fl = (stream_put sp st s)\<lparr>p_heap := h,
     p_uplink := (p_uplink s)\<lparr>up_processing_queue := up_processing_queue (p_uplink s) @ fl,
       up_processing_work := (up_processing_work (p_uplink s) \<or> fl \<noteq> [])\<rparr>\<rparr>"

lemma map_of_replace:
  "map_of (map (\<lambda>(k, x). (k, if k = sp then st else x)) xs) k =
     (if k = sp \<and> map_of xs sp \<noteq> None then Some st else map_of xs k)"
  by (induction xs) auto

lemma stream_step_simps [simp]:
  "p_heap (stream_step s h sp st fl) = h"
  "up_processing_queue (p_uplink (stream_step s h sp st fl)) = up_processing_queue (p_uplink s) @ fl"
  "stream_get sp s = Some st0 \<Longrightarrow> stream_get sp (stream_step s h sp st fl) = Some st"
  "map fst (p_streams (stream_step s h sp st fl)) = map fst (p_streams s)"
  "up_id (p_uplink (stream_step s h sp st fl)) = up_id (p_uplink s)"
  "p_open_streams (stream_step s h sp st fl) = p_open_streams s"
  "p_block (stream_step s h sp st fl) = p_block s"
  by (simp_all add: stream_step_def stream_put_def stream_get_def map_of_replace comp_def split_beta)

lemma stream_step_step [simp]:
  "stream_step (stream_step s h sp st fl) h' sp st' fl' = stream_step s h' sp st' (fl @ fl')"
  by (simp add: stream_step_def stream_put_def comp_def split_beta)

lemma stream_put_id:
  assumes "distinct (map fst (p_streams s))" and "stream_get sp s = Some st"
  shows "stream_put sp st s = s"
proof -
  have "map (\<lambda>(k, x). (k, if k = sp then st else x)) xs = xs"
    if "distinct (map fst xs)" "map_of xs sp = Some st" for xs :: "(addr \<times> pouch_stream) list"
    using that
  proof (induction xs)
    case (Cons y xs)
    have "map (\<lambda>(k, x). (k, if k = sp then st else x)) xs = xs" if "sp \<notin> fst ` set xs"
      using that by (induction xs) auto
    with Cons show ?case by (cases y) (auto split: if_splits)
  qed simp
  then show ?thesis using assms by (simp add: stream_put_def stream_get_def)
qed

lemma stream_step_heap:
  "distinct (map fst (p_streams s)) \<Longrightarrow> stream_get sp s = Some st \<Longrightarrow>
     s\<lparr>p_heap := h\<rparr> = stream_step s h sp st []"
  by (simp add: stream_step_def stream_put_id)

text \<open>Finished blocks with their id byte and payload.\<close>

definition done_roles :: "(addr \<times> u8 \<times> u8 list) list \<Rightarrow> role list" where
  "done_roles D =
     map (\<lambda>(a, bid, pl). (a, \<lambda>b. is_block b bid pl \<and> contents b = block_wire bid pl)) D"

lemma done_roles_simps [simp]:
  "done_roles [] = []"
  "done_roles ((a, bid, pl) # D) =
     (a, \<lambda>b. is_block b bid pl \<and> contents b = block_wire bid pl) # done_roles D"
  "done_roles (D @ E) = done_roles D @ done_roles E"
  by (simp_all add: done_roles_def)

lemma map_fst_done_roles [simp]: "map fst (done_roles D) = map fst D"
  by (simp add: done_roles_def comp_def split_beta)

lemma role_le_done: "role_le (done_roles D) (list_role (map fst D) block_done)"
  by (auto simp: role_le_def done_roles_def list_role_def block_done_def list_all2_conv_all_nth
      split_beta)

section \<open>Making room\<close>

lemma finish_stream_block:
  assumes "own h ((a, \<lambda>b. is_block b bid pl) # R)"
  obtains h' where "upd_buf a (\<lambda>b. block_finish_stream b sid is_last) h = Some h'"
    and "hstep h ((a, \<lambda>b. is_block b bid pl) # R) h'
      (done_roles [(a, bid OR (if is_last then LAST_DATA_MASK else 0), pl)] @ R)"
proof -
  let ?bid = "bid OR (if is_last then LAST_DATA_MASK else 0)"
  have step: "\<exists>b'. block_finish_stream b sid is_last = Some b'
      \<and> (is_block b' ?bid pl \<and> contents b' = block_wire ?bid pl) \<and> buf_ok b'"
    if "is_block b bid pl" for b
    using block_finish_stream_block [OF that, of sid is_last] is_block_ok(1) by blast
  show ?thesis
    by (rule upd_buf_hstep [OF assms, where f = "\<lambda>b. block_finish_stream b sid is_last"
          and Q = "\<lambda>b. is_block b ?bid pl \<and> contents b = block_wire ?bid pl"])
       (use step that in auto)
qed

lemma read_space:
  assumes "own h ((a, \<lambda>b. is_block b bid pl) # R)"
  shows "read_buf a block_space_get h = Some (512 - length pl)"
  using assms is_block_space by (auto simp: own_Cons_iff)

lemma stream_make_room_cases:
  assumes "own (p_heap s) [(a, \<lambda>b. is_block b bid pl)]" and "stream_get sp s = Some st"
    and "st_buf st = a" and "distinct (map fst (p_streams s))"
  obtains (stay) "length pl < 512"
      "stream_make_room sp s = Some (Some (a, 512 - length pl), s)"
    | (fail) h where "stream_make_room sp s = Some (None, stream_step s h sp st [])"
      "hstep (p_heap s) [(a, \<lambda>b. is_block b bid pl)] h [(a, \<lambda>b. is_block b bid pl)]"
      "malloc_oracle (p_heap s) (next_addr (p_heap s)) = None"
    | (new) h a' where "length pl = 512"
      "stream_make_room sp s = Some (Some (a', 512), stream_step s h sp (st\<lparr>st_buf := a'\<rparr>) [a])"
      "hstep (p_heap s) [(a, \<lambda>b. is_block b bid pl)] h
         ((a', \<lambda>b. is_block b (st_id st) []) # done_roles [(a, bid, pl)])"
proof -
  note sp = read_space [OF assms(1)]
  have len: "length pl \<le> 512" using ownD [OF assms(1), of a] is_block_bytes(2) by auto
  show ?thesis
  proof (cases "length pl = 512")
    case False
    then show ?thesis using len sp assms(2,3) by (intro stay) (auto simp: stream_make_room_def)
  next
    case True
    obtain p h1 where
      al: "block_alloc_stream (st_id st) False (p_heap s) = Some (p, h1)"
        "p = None \<longleftrightarrow> malloc_oracle (p_heap s) (next_addr (p_heap s)) = None"
        "hstep (p_heap s) [(a, \<lambda>b. is_block b bid pl)] h1
          (opt_role p (\<lambda>b. is_block b (st_id st) []) @ [(a, \<lambda>b. is_block b bid pl)])"
      by (rule block_alloc_stream_hstep [OF assms(1), where sid = "st_id st" and f = False,
            simplified if_False or.right_neutral])
    show ?thesis
    proof (cases p)
      case None
      have "stream_make_room sp s = Some (None, stream_step s h1 sp st [])"
        using sp True assms al(1) None
        by (simp add: stream_make_room_def stream_step_heap [symmetric])
      then show ?thesis using al(2,3) None by (intro fail) auto
    next
      case (Some a')
      let ?P = "\<lambda>b. is_block b (st_id st) []"
      have "own h1 ((a', ?P) # [(a, \<lambda>b. is_block b bid pl)])"
        using hstep_own [OF al(3)] Some by simp
      then have o: "own h1 ((a, \<lambda>b. is_block b bid pl) # [(a', ?P)])"
        by (rule own_perm) simp
      obtain h2 where f: "upd_buf a (\<lambda>b. block_finish_stream b (st_id st) False) h1 = Some h2"
          "hstep h1 ((a, \<lambda>b. is_block b bid pl) # [(a', ?P)]) h2 (done_roles [(a, bid, pl)] @ [(a', ?P)])"
        by (rule finish_stream_block [OF o, where sid = "st_id st" and is_last = False,
              simplified if_False or.right_neutral])
      have "hstep h1 (opt_role p ?P @ [(a, \<lambda>b. is_block b bid pl)]) h1
          ((a, \<lambda>b. is_block b bid pl) # [(a', ?P)])"
        using hstep_own [OF al(3)] by (rule hstep_perm) (simp add: Some)
      moreover have "hstep h2 (done_roles [(a, bid, pl)] @ [(a', ?P)]) h2
          ((a', ?P) # done_roles [(a, bid, pl)])"
        using hstep_own [OF f(2)] by (rule hstep_perm) simp
      ultimately have st: "hstep (p_heap s) [(a, \<lambda>b. is_block b bid pl)] h2
          ((a', ?P) # done_roles [(a, bid, pl)])"
        using al(3) f(2) hstep_trans by blast
      have "read_buf a' block_space_get h2 = Some 512"
        using read_space [OF hstep_own [OF st]] by simp
      then have "stream_make_room sp s = Some (Some (a', 512), stream_step s h2 sp (st\<lparr>st_buf := a'\<rparr>) [a])"
        using sp True assms(2,3) al(1) Some f(1)
        by (simp add: stream_make_room_def Let_def stream_step_def stream_put_def uplink_enqueue_def)
      then show ?thesis using True st by (intro new) auto
    qed
  qed
qed

section \<open>The write loop\<close>

text \<open>
  What a run of the loop does: the blocks \<open>D\<close> were filled and queued, the block \<open>a'\<close> is
  open, and the payloads hold exactly the old payload followed by the new bytes.
\<close>

definition stream_run ::
    "heap \<Rightarrow> addr \<Rightarrow> u8 \<Rightarrow> u8 list \<Rightarrow> u8 \<Rightarrow> u8 list \<Rightarrow> heap \<Rightarrow> addr
       \<Rightarrow> (addr \<times> u8 \<times> u8 list) list \<Rightarrow> bool" where
  "stream_run h a bid pl sid x h' a' D \<longleftrightarrow>
     (\<exists>bid' pl'. hstep h [(a, \<lambda>b. is_block b bid pl)] h' ((a', \<lambda>b. is_block b bid' pl') # done_roles D)
       \<and> concat (map (\<lambda>(_, _, p). p) D) @ pl' = pl @ x
       \<and> map (\<lambda>(_, i, _). i) D @ [bid'] = bid # replicate (length D) sid
       \<and> (\<forall>(_, _, p)\<in>set D. length p = 512))"

lemma stream_runI:
  assumes "hstep h [(a, \<lambda>b. is_block b bid pl)] h' ((a', \<lambda>b. is_block b bid' pl') # done_roles D)"
    and "concat (map (\<lambda>(_, _, p). p) D) @ pl' = pl @ x"
    and "map (\<lambda>(_, i, _). i) D @ [bid'] = bid # replicate (length D) sid"
    and "\<forall>(_, _, p)\<in>set D. length p = 512"
  shows "stream_run h a bid pl sid x h' a' D"
  unfolding stream_run_def by (rule exI [of _ bid'], rule exI [of _ pl']) (use assms in blast)

lemma stream_runE:
  assumes "stream_run h a bid pl sid x h' a' D"
  obtains bid' pl' where
    "hstep h [(a, \<lambda>b. is_block b bid pl)] h' ((a', \<lambda>b. is_block b bid' pl') # done_roles D)"
    "concat (map (\<lambda>(_, _, p). p) D) @ pl' = pl @ x"
    "map (\<lambda>(_, i, _). i) D @ [bid'] = bid # replicate (length D) sid"
    "\<forall>(_, _, p)\<in>set D. length p = 512"
  using assms unfolding stream_run_def by (elim exE conjE) (rule that)

text \<open>Appending to the open block.\<close>

lemma write_open_block:
  assumes "own h ((a, \<lambda>b. is_block b bid pl) # R)" and "length pl + length d \<le> 512"
  obtains h' where "upd_buf a (\<lambda>b. buf_write b d) h = Some h'"
    and "hstep h ((a, \<lambda>b. is_block b bid pl) # R) h' ((a, \<lambda>b. is_block b bid (pl @ d)) # R)"
proof -
  have step: "\<exists>b'. buf_write b d = Some b' \<and> is_block b' bid (pl @ d) \<and> buf_ok b'"
    if "is_block b bid pl" for b
    using is_block_write [OF that assms(2)] is_block_append [OF that assms(2)] is_block_ok(1) by blast
  show ?thesis
    by (rule upd_buf_hstep [OF assms(1), where f = "\<lambda>b. buf_write b d"
          and Q = "\<lambda>b. is_block b bid (pl @ d)"]) (use step that in blast)+
qed

text \<open>Running on from the state a run has reached.\<close>

lemma stream_run_trans:
  assumes st: "hstep h [(a, \<lambda>b. is_block b bid pl)] h1 ((a1, \<lambda>b. is_block b bid1 pl1) # done_roles D)"
    and run: "stream_run h1 a1 bid1 pl1 sid x h2 a2 E"
    and pay: "concat (map (\<lambda>(_, _, p). p) D) @ pl1 = pl @ y"
    and ids: "map (\<lambda>(_, i, _). i) D @ [bid1] = bid # replicate (length D) sid"
    and full: "\<forall>(_, _, p)\<in>set D. length p = 512"
  shows "stream_run h a bid pl sid (y @ x) h2 a2 (D @ E)"
proof (rule stream_runE [OF run])
  fix bid2 pl2
  assume r: "hstep h1 [(a1, \<lambda>b. is_block b bid1 pl1)] h2 ((a2, \<lambda>b. is_block b bid2 pl2) # done_roles E)"
    and p: "concat (map (\<lambda>(_, _, p). p) E) @ pl2 = pl1 @ x"
    and i: "map (\<lambda>(_, i, _). i) E @ [bid2] = bid1 # replicate (length E) sid"
    and f: "\<forall>(_, _, p)\<in>set E. length p = 512"
  have "hstep h1 ([(a1, \<lambda>b. is_block b bid1 pl1)] @ done_roles D) h2
      (((a2, \<lambda>b. is_block b bid2 pl2) # done_roles E) @ done_roles D)"
    using hstep_own [OF st] by (intro hstep_app [OF r]) simp
  then have s2: "hstep h [(a, \<lambda>b. is_block b bid pl)] h2
      (((a2, \<lambda>b. is_block b bid2 pl2) # done_roles E) @ done_roles D)"
    using hstep_trans [OF st] by simp
  have "hstep h2 (((a2, \<lambda>b. is_block b bid2 pl2) # done_roles E) @ done_roles D) h2
      ((a2, \<lambda>b. is_block b bid2 pl2) # done_roles (D @ E))"
    using hstep_own [OF s2] by (rule hstep_perm) simp
  then have s3: "hstep h [(a, \<lambda>b. is_block b bid pl)] h2
      ((a2, \<lambda>b. is_block b bid2 pl2) # done_roles (D @ E))" using s2 hstep_trans by blast
  have pp: "concat (map (\<lambda>(_, _, p). p) (D @ E)) @ pl2 = pl @ y @ x"
    using p pay by (metis append.assoc concat_append map_append)
  have "map (\<lambda>(_, i, _). i) (D @ E) @ [bid2] = map (\<lambda>(_, i, _). i) D @ [bid1] @ replicate (length E) sid"
    using i by simp
  also have "\<dots> = (map (\<lambda>(_, i, _). i) D @ [bid1]) @ replicate (length E) sid" by simp
  also have "\<dots> = bid # replicate (length (D @ E)) sid" unfolding ids by (simp add: replicate_add)
  finally have ii: "map (\<lambda>(_, i, _). i) (D @ E) @ [bid2] = bid # replicate (length (D @ E)) sid" .
  show ?thesis by (rule stream_runI [OF s3 pp ii]) (use full f in auto)
qed

lemma stream_run_refl:
  "hstep h [(a, \<lambda>b. is_block b bid pl)] h' [(a, \<lambda>b. is_block b bid pl)] \<Longrightarrow>
     stream_run h a bid pl sid [] h' a []"
  by (rule stream_runI [where D = "[]"]) simp_all

text \<open>One pass through the loop body: room for at least one byte, or the loop is left.\<close>

lemma stream_pass_cases:
  assumes "own (p_heap s) [(a, \<lambda>b. is_block b bid pl)]" and "stream_get sp s = Some st"
    and "st_buf st = a" and "distinct (map fst (p_streams s))" and "written < len"
    and "len \<le> length data"
  obtains (fail) h where "stream_write_loop sp data len written s = Some (written, stream_step s h sp st [])"
      "stream_run (p_heap s) a bid pl (st_id st) [] h a []"
      "malloc_oracle (p_heap s) (next_addr (p_heap s)) = None"
    | (go) h a1 bid1 pl1 D k where "0 < k" "written + k \<le> len"
      "stream_write_loop sp data len written s = stream_write_loop sp data len (written + k)
         (stream_step s h sp (st\<lparr>st_buf := a1\<rparr>) (map fst D))"
      "hstep (p_heap s) [(a, \<lambda>b. is_block b bid pl)] h ((a1, \<lambda>b. is_block b bid1 pl1) # done_roles D)"
      "concat (map (\<lambda>(_, _, p). p) D) @ pl1 = pl @ take k (drop written data)"
      "map (\<lambda>(_, i, _). i) D @ [bid1] = bid # replicate (length D) (st_id st)"
      "\<forall>(_, _, p)\<in>set D. length p = 512"
proof (cases rule: stream_make_room_cases [OF assms(1-4)])
  case 1
  let ?k = "min (512 - length pl) (len - written)"
  let ?d = "take ?k (drop written data)"
  have d: "mem_read data written ?k = Some ?d" "length ?d = ?k"
    using assms(5,6) by (auto simp: mem_read_def)
  obtain h where w: "upd_buf a (\<lambda>b. buf_write b ?d) (p_heap s) = Some h"
      "hstep (p_heap s) [(a, \<lambda>b. is_block b bid pl)] h [(a, \<lambda>b. is_block b bid (pl @ ?d))]"
    by (rule write_open_block [OF assms(1), where d = ?d], simp only: d(2)) (use 1(1) in linarith)
  have st: "st\<lparr>st_buf := a\<rparr> = st" using assms(3) by simp
  have "stream_write_loop sp data len written s
      = stream_write_loop sp data len (written + ?k) (stream_step s h sp st [])"
    using assms(5) 1(2) d(1) w(1) stream_step_heap [OF assms(4,2)]
    by (subst stream_write_loop.simps) (simp add: Let_def)
  then show ?thesis
    using 1(1) assms(5) w(2) st
    by (intro go [of ?k h a "[]" bid "pl @ ?d"]) auto
next
  case (2 h)
  then have "stream_write_loop sp data len written s = Some (written, stream_step s h sp st [])"
    using assms(5) by (subst stream_write_loop.simps) simp
  then show ?thesis using 2 by (intro fail stream_run_refl) auto
next
  case (3 h1 a')
  let ?k = "min 512 (len - written)"
  let ?d = "take ?k (drop written data)"
  have d: "mem_read data written ?k = Some ?d" "length ?d = ?k"
    using assms(5,6) by (auto simp: mem_read_def)
  obtain h where w: "upd_buf a' (\<lambda>b. buf_write b ?d) h1 = Some h"
      "hstep h1 ((a', \<lambda>b. is_block b (st_id st) []) # done_roles [(a, bid, pl)]) h
        ((a', \<lambda>b. is_block b (st_id st) ([] @ ?d)) # done_roles [(a, bid, pl)])"
    by (rule write_open_block [OF hstep_own [OF 3(3)], where d = ?d]) (use d(2) in simp_all)
  have "(stream_step s h1 sp (st\<lparr>st_buf := a'\<rparr>) [a])\<lparr>p_heap := h\<rparr>
      = stream_step s h sp (st\<lparr>st_buf := a'\<rparr>) [a]" by (simp add: stream_step_def)
  then have "stream_write_loop sp data len written s = stream_write_loop sp data len (written + ?k)
      (stream_step s h sp (st\<lparr>st_buf := a'\<rparr>) (map fst [(a, bid, pl)]))"
    using assms(5) 3(2) d(1) w(1) by (subst stream_write_loop.simps) (simp add: Let_def)
  then show ?thesis
    using 3(1) assms(5) hstep_trans [OF 3(3) w(2)]
    by (intro go [of ?k h a' "[(a, bid, pl)]" "st_id st" ?d]) auto
qed

lemma stream_write_loop_run:
  assumes "own (p_heap s) [(a, \<lambda>b. is_block b bid pl)]" and "stream_get sp s = Some st"
    and "st_buf st = a" and "distinct (map fst (p_streams s))" and "written \<le> len"
    and "len \<le> length data"
  shows "\<exists>n h a' D. stream_write_loop sp data len written s
      = Some (n, stream_step s h sp (st\<lparr>st_buf := a'\<rparr>) (map fst D))
    \<and> stream_run (p_heap s) a bid pl (st_id st) (take (n - written) (drop written data)) h a' D
    \<and> written \<le> n \<and> n \<le> len
    \<and> (n < len \<longrightarrow> (\<exists>k\<ge>next_addr (p_heap s). malloc_oracle (p_heap s) k = None))"
  using assms
proof (induction "len - written" arbitrary: s a bid pl st written rule: less_induct)
  case less
  have id: "st\<lparr>st_buf := a\<rparr> = st" using less.prems(3) by simp
  show ?case
  proof (cases "written < len")
    case False
    then have "stream_write_loop sp data len written s = Some (written, stream_step s (p_heap s) sp st [])"
      using stream_step_heap [OF less.prems(4,2), of "p_heap s"]
      by (subst stream_write_loop.simps) simp
    moreover have "stream_run (p_heap s) a bid pl (st_id st) [] (p_heap s) a []"
      using less.prems(1) by (intro stream_run_refl hstep_refl)
    ultimately show ?thesis using less.prems(5) id False
      by (intro exI [of _ written] exI [of _ "p_heap s"] exI [of _ a] exI [of _ "[]"]) simp
  next
    case True
    show ?thesis
    proof (cases rule: stream_pass_cases [OF less.prems(1-4) True less.prems(6)])
      case (1 h)
      then show ?thesis using True id
        by (intro exI [of _ written] exI [of _ h] exI [of _ a] exI [of _ "[]"]) auto
    next
      case (2 h a1 bid1 pl1 D k)
      let ?st = "st\<lparr>st_buf := a1\<rparr>" and ?s = "stream_step s h sp (st\<lparr>st_buf := a1\<rparr>) (map fst D)"
      have o: "own (p_heap ?s) [(a1, \<lambda>b. is_block b bid1 pl1)]"
        using hstep_own [OF 2(4)] by (auto simp: own_Cons_iff own_def)
      have "len - (written + k) < len - written" using 2(1) True by simp
      moreover have "stream_get sp ?s = Some ?st" "st_buf ?st = a1" "distinct (map fst (p_streams ?s))"
        using less.prems(2,4) by simp_all
      moreover have "st_id ?st = st_id st" by simp
      ultimately have ih: "\<exists>n h' a' E. stream_write_loop sp data len (written + k) ?s
            = Some (n, stream_step ?s h' sp (?st\<lparr>st_buf := a'\<rparr>) (map fst E))
          \<and> stream_run (p_heap ?s) a1 bid1 pl1 (st_id st)
              (take (n - (written + k)) (drop (written + k) data)) h' a' E
          \<and> written + k \<le> n \<and> n \<le> len
          \<and> (n < len \<longrightarrow> (\<exists>k\<ge>next_addr (p_heap ?s). malloc_oracle (p_heap ?s) k = None))"
        using less.hyps [of "written + k" ?s a1 bid1 pl1 ?st] o 2(2) less.prems(6) by metis
      obtain n h' a' E where
        r: "stream_write_loop sp data len (written + k) ?s
            = Some (n, stream_step ?s h' sp (?st\<lparr>st_buf := a'\<rparr>) (map fst E))"
          "stream_run h a1 bid1 pl1 (st_id st) (take (n - (written + k)) (drop (written + k) data)) h' a' E"
          "written + k \<le> n" "n \<le> len"
          "n < len \<longrightarrow> (\<exists>k\<ge>next_addr h. malloc_oracle h k = None)"
        using ih unfolding stream_step_simps(1) by (elim exE conjE) (rule that)
      have x: "take k (drop written data) @ take (n - (written + k)) (drop (written + k) data)
          = take (n - written) (drop written data)"
        using r(3) take_add [of k "n - (written + k)" "drop written data"]
        by (simp add: add.commute)
      have "stream_run (p_heap s) a bid pl (st_id st) (take (n - written) (drop written data)) h' a' (D @ E)"
        using stream_run_trans [OF 2(4) r(2) 2(5-7)] by (simp only: x)
      moreover have "stream_write_loop sp data len written s
          = Some (n, stream_step s h' sp (st\<lparr>st_buf := a'\<rparr>) (map fst (D @ E)))"
        using 2(3) r(1) by simp
      moreover have "n < len \<longrightarrow> (\<exists>k\<ge>next_addr (p_heap s). malloc_oracle (p_heap s) k = None)"
        using r(5) hstep_env [OF 2(4)] by (auto intro: order_trans)
      ultimately show ?thesis using r(3,4)
        by (intro exI [of _ n] exI [of _ h'] exI [of _ a'] exI [of _ "D @ E"]) simp
    qed
  qed
qed

section \<open>From streams to the uplink side\<close>

lemma stream_split:
  assumes "distinct (map fst (p_streams s))" and "stream_get sp s = Some st"
  obtains xs ys where "p_streams s = xs @ (sp, st) # ys" "sp \<notin> fst ` set xs" "sp \<notin> fst ` set ys"
proof -
  have "(sp, st) \<in> set (p_streams s)" using assms(2) by (auto simp: stream_get_def dest: map_of_SomeD)
  then obtain xs ys where "p_streams s = xs @ (sp, st) # ys" by (auto simp: in_set_conv_decomp)
  with assms(1) show ?thesis by (intro that) auto
qed

lemma replace_other: "sp \<notin> fst ` set xs \<Longrightarrow> map (\<lambda>(k, x). (k, if k = sp then st else x)) xs = xs"
  by (induction xs) auto

lemma filter_other: "sp \<notin> fst ` set xs \<Longrightarrow> filter (\<lambda>x. fst x \<noteq> sp) xs = xs"
  by (induction xs) auto

lemma stream_roles_simps [simp]:
  "stream_roles [] = []" "stream_roles ((sp, st) # xs) = (st_buf st, stream_role) # stream_roles xs"
  "stream_roles (xs @ ys) = stream_roles xs @ stream_roles ys"
  by (simp_all add: stream_roles_def)

text \<open>The roles of everything but the stream \<open>sp\<close>.\<close>

definition other_roles :: "'c pouch \<Rightarrow> addr \<Rightarrow> role list" where
  "other_roles s sp = opt_role (p_block s) entry_role
     @ list_role (up_processing_queue (p_uplink s)) block_done
     @ stream_roles (filter (\<lambda>x. fst x \<noteq> sp) (p_streams s)) @ transport_roles (p_uplink s)"

lemma uplink_roles_stream:
  assumes "distinct (map fst (p_streams s))" and "stream_get sp s = Some st"
  shows "mset (uplink_roles s) = mset ([(st_buf st, stream_role)] @ other_roles s sp)"
    and "mset (uplink_roles (stream_step s h sp st' fl))
      = mset (((st_buf st', stream_role) # list_role fl block_done) @ other_roles s sp)"
proof -
  obtain xs ys where s: "p_streams s = xs @ (sp, st) # ys" "sp \<notin> fst ` set xs" "sp \<notin> fst ` set ys"
    by (rule stream_split [OF assms])
  show "mset (uplink_roles s) = mset ([(st_buf st, stream_role)] @ other_roles s sp)"
    by (simp add: uplink_roles_def other_roles_def s filter_other)
  show "mset (uplink_roles (stream_step s h sp st' fl))
      = mset (((st_buf st', stream_role) # list_role fl block_done) @ other_roles s sp)"
    by (simp add: uplink_roles_def other_roles_def stream_step_def stream_put_def s filter_other
        replace_other transport_roles_def)
qed

lemma streams_ok_mono:
  assumes "streams_ok s" and "map fst (p_streams s') = map fst (p_streams s)"
    and "p_open_streams s' = p_open_streams s" and "next_addr (p_heap s) \<le> next_addr (p_heap s')"
  shows "streams_ok s'"
proof -
  have "length (p_streams s') = length (p_streams s)" using assms(2) by (metis length_map)
  moreover have "fst ` set (p_streams s') = fst ` set (p_streams s)"
    using assms(2) by (metis list.set_map)
  ultimately show ?thesis using assms by (fastforce simp: streams_ok_def)
qed

lemma stream_step_safe:
  assumes "uplink_inv s" and "stream_get sp s = Some st"
    and "own (p_heap s) [(st_buf st, P)]"
    and step: "hstep (p_heap s) [(st_buf st, P)] h ((st_buf st', Q) # done_roles D)"
    and Q: "\<And>b. Q b \<Longrightarrow> stream_role b"
  shows "uplink_safe s (stream_step s h sp st' (map fst D))"
proof -
  have d: "distinct (map fst (p_streams s))"
    using uplink_inv_streams [OF assms(1)] by (simp add: streams_ok_def)
  have le: "role_le ((st_buf st', Q) # done_roles D)
      ((st_buf st', stream_role) # list_role (map fst D) block_done)"
    using Q role_le_done [of D] by (simp add: role_le_def)
  have ok: "streams_ok (stream_step s h sp st' (map fst D))"
    using uplink_inv_streams [OF assms(1)] by (rule streams_ok_mono) (use hstep_env(2) [OF step] in simp_all)
  show ?thesis
    by (rule uplink_safe_frame [OF assms(1) uplink_roles_stream(1) [OF d assms(2)] _ assms(3) _ le
          uplink_roles_stream(2) [OF d assms(2)] ok]) (use step in simp_all)
qed

text \<open>What the open block of a stream holds.\<close>

definition stream_holds :: "'c pouch \<Rightarrow> addr \<Rightarrow> u8 \<Rightarrow> u8 list \<Rightarrow> bool" where
  "stream_holds s sp bid pl \<longleftrightarrow>
     (\<exists>st b. stream_get sp s = Some st \<and> store (p_heap s) (st_buf st) = Some b \<and> is_block b bid pl)"

definition block_at :: "heap \<Rightarrow> addr \<times> u8 \<times> u8 list \<Rightarrow> bool" where
  "block_at h d = (case d of (a, bid, pl) \<Rightarrow>
     (\<exists>b. store h a = Some b \<and> is_block b bid pl \<and> contents b = block_wire bid pl))"

lemma own_done_roles:
  assumes "own h (R @ done_roles D)"
  shows "list_all (block_at h) D"
proof -
  have "block_at h d" if "d \<in> set D" for d
  proof -
    obtain a i p where d: "d = (a, i, p)" by (cases d)
    then have "(a, \<lambda>b. is_block b i p \<and> contents b = block_wire i p) \<in> set (R @ done_roles D)"
      using that by (force simp: done_roles_def)
    from ownD [OF assms this] show ?thesis by (auto simp: d block_at_def)
  qed
  then show ?thesis by (simp add: list_all_iff)
qed

text \<open>The queued blocks are out of reach of a step on the open block of a stream.\<close>

lemma stream_queue_unchanged:
  assumes "uplink_inv s" and "stream_get sp s = Some st" and "hstep (p_heap s) [(st_buf st, P)] h R"
    and "a \<in> set (up_processing_queue (p_uplink s))"
  shows "store h a = store (p_heap s) a"
proof -
  have d: "distinct (map fst (p_streams s))"
    using uplink_inv_streams [OF assms(1)] by (simp add: streams_ok_def)
  have own: "own (p_heap s) ([(st_buf st, stream_role)] @ other_roles s sp)"
    using own_perm [OF uplink_inv_own [OF assms(1)] uplink_roles_stream(1) [OF d assms(2)]] .
  have a: "(a, block_done) \<in> set (other_roles s sp)" using assms(4) by (simp add: other_roles_def)
  then have "a \<in> fst ` set (other_roles s sp)" by force
  then have "a \<noteq> st_buf st" using own by (metis append_Cons append_Nil own_Cons_iff)
  moreover have "a \<in> live (p_heap s)" using ownD [OF own, of a block_done] a by (auto simp: in_live_iff)
  ultimately show ?thesis using hstep_foreign_store [OF assms(3)] by simp
qed

text \<open>
  Writing to a valid stream appends to it: the first \<open>n\<close> bytes of the data are accepted, all of
  them unless an allocation failed; the blocks \<open>D\<close> that were queued are full, and their payloads
  followed by the payload of the block that is open now are the old open payload followed by
  exactly these bytes.
\<close>

lemma stream_write_step:
  assumes "uplink_inv s" and "stream_get sp s = Some st" and "st_session_id st = uplink_session_id s"
    and "stream_holds s sp bid pl" and "len \<le> length data"
  shows "\<exists>n s' D bid' pl' st'. pouch_stream_write (Some sp) data len s = Some (n, s')
    \<and> uplink_safe s s'
    \<and> n \<le> len \<and> (n < len \<longrightarrow> (\<exists>k\<ge>next_addr (p_heap s). malloc_oracle (p_heap s) k = None))
    \<and> up_processing_queue (p_uplink s') = up_processing_queue (p_uplink s) @ map fst D
    \<and> (\<forall>a\<in>set (up_processing_queue (p_uplink s)). store (p_heap s') a = store (p_heap s) a)
    \<and> stream_get sp s' = Some st' \<and> st_id st' = st_id st \<and> st_session_id st' = uplink_session_id s'
    \<and> st_bytes st' = szt_add (st_bytes st) n
    \<and> list_all (block_at (p_heap s')) D \<and> stream_holds s' sp bid' pl'
    \<and> concat (map (\<lambda>(_, _, p). p) D) @ pl' = pl @ take n data
    \<and> map (\<lambda>(_, i, _). i) D @ [bid'] = bid # replicate (length D) (st_id st)"
proof -
  have d: "distinct (map fst (p_streams s))"
    using uplink_inv_streams [OF assms(1)] by (simp add: streams_ok_def)
  let ?a = "st_buf st"
  have o: "own (p_heap s) [(?a, \<lambda>b. is_block b bid pl)]"
    using assms(2,4) uplink_inv_heap [OF assms(1)] by (auto simp: stream_holds_def own_def)
  from stream_write_loop_run [OF o assms(2) refl d le0 assms(5)]
  obtain n h a' D where
    w: "stream_write_loop sp data len 0 s = Some (n, stream_step s h sp (st\<lparr>st_buf := a'\<rparr>) (map fst D))"
    and run: "stream_run (p_heap s) ?a bid pl (st_id st) (take n data) h a' D"
    and n: "n \<le> len" "n < len \<longrightarrow> (\<exists>k\<ge>next_addr (p_heap s). malloc_oracle (p_heap s) k = None)"
    unfolding drop_0 diff_zero by blast
  let ?st = "st\<lparr>st_buf := a', st_bytes := szt_add (st_bytes st) n\<rparr>"
  let ?s = "stream_step s h sp ?st (map fst D)"
  obtain bid' pl' where
    st: "hstep (p_heap s) [(?a, \<lambda>b. is_block b bid pl)] h ((a', \<lambda>b. is_block b bid' pl') # done_roles D)"
    and r: "concat (map (\<lambda>(_, _, p). p) D) @ pl' = pl @ take n data"
      "map (\<lambda>(_, i, _). i) D @ [bid'] = bid # replicate (length D) (st_id st)"
    by (rule stream_runE [OF run])
  have "pouch_stream_write (Some sp) data len s = Some (n, ?s)"
    using w assms(2,3)
    by (simp add: pouch_stream_write_def pouch_stream_is_valid_def stream_step_def stream_put_def
        stream_get_def map_of_replace comp_def split_beta cong: if_cong)
  moreover have "uplink_safe s ?s"
    by (rule stream_step_safe [OF assms(1,2) o, where Q = "\<lambda>b. is_block b bid' pl'"])
       (use st in \<open>auto simp: stream_role_def\<close>)
  moreover have "list_all (block_at h) D"
    using own_done_roles [of h "[(a', \<lambda>b. is_block b bid' pl')]"] hstep_own [OF st] by simp
  moreover have "stream_holds ?s sp bid' pl'"
    using hstep_own [OF st] assms(2) by (simp add: stream_holds_def own_Cons_iff)
  moreover have "\<forall>a\<in>set (up_processing_queue (p_uplink s)). store h a = store (p_heap s) a"
    using stream_queue_unchanged [OF assms(1,2) st] by blast
  moreover have "stream_get sp ?s = Some ?st" "st_session_id ?st = uplink_session_id ?s"
    using assms(2,3) by (simp_all add: uplink_session_id_def)
  ultimately show ?thesis using n r
    by (intro exI [of _ n] exI [of _ ?s] exI [of _ D] exI [of _ bid'] exI [of _ pl'] exI [of _ ?st]) simp
qed

text \<open>A state with one open stream, at handle 0 with its block at address 1.\<close>

definition demo_block :: pouch_buf where
  "demo_block = \<lparr>pb_bytes = 3, pb_mem = [0, 0, 0x41] @ replicate 512 0\<rparr>"

definition demo_stream :: "unit pouch" where
  "demo_stream = (pouch_static (\<lambda>_. Some (\<lambda>_. 0)) ())
     \<lparr>p_heap := \<lparr>store = [1 \<mapsto> demo_block], next_addr = 2, malloc_oracle = (\<lambda>_. Some (\<lambda>_. 0)), bufs = 1\<rparr>,
      p_open_streams := 1,
      p_streams := [(0, \<lparr>st_id = 1, st_buf = 1, st_bytes = 0, st_session_id = 0\<rparr>)]\<rparr>"

lemma demo_block_ok: "is_block demo_block 0x41 []"
proof -
  have "contents demo_block = put_be16 0 @ [0x41] @ []"
    by (simp add: demo_block_def contents_def put_be16_def)
  moreover have "buf_ok demo_block" "cap demo_block = 515"
    by (simp_all add: demo_block_def buf_ok_def cap_def SIZE_MOD_num)
  ultimately show ?thesis unfolding is_block_def by auto
qed

lemma demo_stream_ok: "uplink_inv demo_stream" "stream_holds demo_stream 0 0x41 []"
  using demo_block_ok is_block_ok(1) [OF demo_block_ok]
  by (auto simp: demo_stream_def uplink_inv_def own_def heap_ok_def uplink_roles_def transport_roles_def
      uplink_static_def streams_ok_def stream_roles_def stream_role_def stream_holds_def stream_get_def)

section \<open>Opening a stream\<close>

lemma write_stream_header_fits:
  assumes "is_block b bid []" and "3 + length path \<le> 512"
  shows "write_stream_header b ct path = Some (append_buf b (stream_header_wire path ct))"
proof -
  have "fits b (3 + length path)" using is_block_fits [OF assms(1)] assms(2) by simp
  then show ?thesis
    by (simp add: write_stream_header_def stream_header_wire_def buf_write_fits append_buf_simps
        fits_mono append_buf_append_buf)
qed

lemma write_header_hstep:
  assumes "own h ((a, \<lambda>b. is_block b bid []) # R)" and "3 + length path \<le> 512"
  obtains h' where "upd_buf a (\<lambda>b. write_stream_header b ct path) h = Some h'"
    and "hstep h ((a, \<lambda>b. is_block b bid []) # R) h'
      ((a, \<lambda>b. is_block b bid (stream_header_wire path ct)) # R)"
proof -
  have len: "length ([] :: u8 list) + length (stream_header_wire path ct) \<le> 512"
    using assms(2) by (simp add: stream_header_wire_def)
  have step: "\<exists>b'. write_stream_header b ct path = Some b'
      \<and> is_block b' bid (stream_header_wire path ct) \<and> buf_ok b'" if "is_block b bid []" for b
    using write_stream_header_fits [OF that assms(2), of ct] is_block_append [OF that len]
      is_block_ok(1) [OF is_block_append [OF that len]] by simp
  show ?thesis
    by (rule upd_buf_hstep [OF assms(1), where f = "\<lambda>b. write_stream_header b ct path"
          and Q = "\<lambda>b. is_block b bid (stream_header_wire path ct)"]) (use step that in blast)+
qed

lemma stream_malloc_hstep:
  assumes "own h R"
  obtains p h' where "stream_malloc h = (p, h')" "p = (if malloc_oracle h (next_addr h) = None then None
      else Some (next_addr h))" "hstep h R h' R" "next_addr h < next_addr h'"
proof -
  have "hstep h R (h\<lparr>next_addr := Suc (next_addr h)\<rparr>) R"
    using own_heap_ok [OF assms]
    by (intro hstep_nop [OF assms]) (auto simp: heap_ok_def less_Suc_eq)
  then show ?thesis by (intro that [of _ "h\<lparr>next_addr := Suc (next_addr h)\<rparr>"]) (auto simp: stream_malloc_def Let_def)
qed

text \<open>The state after a call that opened nothing, and after one that opened the stream \<open>sp\<close>.\<close>

lemma open_none_safe:
  assumes "uplink_inv s" and "hstep (p_heap s) [] h []"
  shows "uplink_safe s (s\<lparr>p_heap := h, p_stream_id := c\<rparr>)"
proof -
  have "uplink_roles (s\<lparr>p_heap := h, p_stream_id := c\<rparr>) = uplink_roles s" by (simp add: uplink_roles_def)
  moreover have "hstep (p_heap s) ([] @ uplink_roles s) h ([] @ uplink_roles s)"
    using uplink_inv_own [OF assms(1)] by (intro hstep_app [OF assms(2)]) simp
  moreover have "streams_ok (s\<lparr>p_heap := h, p_stream_id := c\<rparr>)"
    using uplink_inv_streams [OF assms(1)]
    by (rule streams_ok_mono) (use hstep_env(2) [OF assms(2)] in simp_all)
  ultimately show ?thesis by (intro uplink_safeI) simp_all
qed

lemma open_some_safe:
  assumes inv: "uplink_inv s" and step: "hstep (p_heap s) [] h [(st_buf st, P)]"
    and "next_addr (p_heap s) \<le> sp" and "sp < next_addr h" and P: "\<And>b. P b \<Longrightarrow> stream_role b"
  shows "uplink_safe s (s\<lparr>p_heap := h, p_stream_id := c, p_open_streams := p_open_streams s + 1,
      p_streams := (sp, st) # p_streams s\<rparr>)" (is "uplink_safe s ?s")
proof -
  have "sp \<notin> fst ` set (p_streams s)"
    using uplink_inv_streams [OF inv] assms(3) by (auto simp: streams_ok_def)
  then have ok: "streams_ok ?s"
    using uplink_inv_streams [OF inv] assms(4) hstep_env(2) [OF step]
    by (fastforce simp: streams_ok_def)
  have le: "role_le [(st_buf st, P)] [(st_buf st, stream_role)]" using P by (simp add: role_le_def)
  have after: "mset (uplink_roles ?s) = mset ([(st_buf st, stream_role)] @ uplink_roles s)"
    by (simp add: uplink_roles_def)
  have o: "own (p_heap s) []" using uplink_inv_heap [OF inv] by (simp add: own_def)
  show ?thesis
    by (rule uplink_safe_frame [OF inv _ _ o _ le after ok, where ?R0.0 = "[]"]) (use step in simp_all)
qed

text \<open>
  Opening a stream. With a path of at most 509 bytes the call stays within its block
  and keeps the ownership invariant. It fails only when 126 streams are open or an allocation
  failed, and then leaves the streams as they were and leaks nothing. Otherwise the new stream is
  empty, belongs to the current session, and its block is flagged as the first of the stream and
  holds content type, path length and path.
\<close>

lemma stream_open_step:
  assumes "uplink_inv s" and "length path \<le> 509"
  shows "\<exists>r s'. pouch_uplink_stream_open path ct s = Some (r, s') \<and> uplink_safe s s'
    \<and> (\<forall>a\<in>live (p_heap s). store (p_heap s') a = store (p_heap s) a)
    \<and> (case r of
         None \<Rightarrow> p_streams s' = p_streams s \<and> (POUCH_STREAMS_MAX \<le> p_open_streams s
           \<or> (\<exists>k\<ge>next_addr (p_heap s). malloc_oracle (p_heap s) k = None))
       | Some sp \<Rightarrow> (\<exists>st. p_streams s' = (sp, st) # p_streams s
           \<and> st_session_id st = uplink_session_id s \<and> st_bytes st = 0
           \<and> st_id st = fst (new_stream_id (p_stream_id s))
           \<and> stream_holds s' sp (st_id st OR FIRST_DATA_MASK) (stream_header_wire path ct)))"
proof (cases "POUCH_STREAMS_MAX \<le> p_open_streams s")
  case True
  then have "pouch_uplink_stream_open path ct s = Some (None, s)"
    by (simp add: pouch_uplink_stream_open_def dec_open_streams_def)
  then show ?thesis using True uplink_safe_refl [OF assms(1)] by simp
next
  case False
  have keep: "\<forall>a\<in>live (p_heap s). store h a = store (p_heap s) a" if "hstep (p_heap s) [] h R" for h R
    using hstep_foreign_store [OF that] by simp
  obtain sid c where sid: "new_stream_id (p_stream_id s) = (sid, c)" by fastforce
  have o: "own (p_heap s) []" using uplink_inv_heap [OF assms(1)] by (simp add: own_def)
  obtain p h1 where
    m: "stream_malloc (p_heap s) = (p, h1)"
      "p = (if malloc_oracle (p_heap s) (next_addr (p_heap s)) = None then None
            else Some (next_addr (p_heap s)))"
      "hstep (p_heap s) [] h1 []" "next_addr (p_heap s) < next_addr h1"
    by (rule stream_malloc_hstep [OF o])
  show ?thesis
  proof (cases p)
    case None
    have "pouch_uplink_stream_open path ct s = Some (None, s\<lparr>p_heap := h1, p_stream_id := p_stream_id s\<rparr>)"
      using False m(1) None by (simp add: pouch_uplink_stream_open_def dec_open_streams_def Let_def)
    then show ?thesis using open_none_safe [OF assms(1) m(3), of "p_stream_id s"] m(2) None keep [OF m(3)]
      by (auto split: if_splits)
  next
    case (Some sp)
    let ?bid = "sid OR FIRST_DATA_MASK"
    obtain q h2 where
      al: "block_alloc_stream sid True h1 = Some (q, h2)"
        "q = None \<longleftrightarrow> malloc_oracle h1 (next_addr h1) = None"
        "hstep h1 [] h2 (opt_role q (\<lambda>b. is_block b ?bid []) @ [])"
      by (rule block_alloc_stream_hstep [OF hstep_own [OF m(3)], where sid = sid and f = True,
            simplified if_True])
    show ?thesis
    proof (cases q)
      case None
      have "pouch_uplink_stream_open path ct s = Some (None, s\<lparr>p_heap := h2, p_stream_id := c\<rparr>)"
        using False m(1) Some sid al(1) None
        by (simp add: pouch_uplink_stream_open_def dec_open_streams_def Let_def)
      moreover have "uplink_safe s (s\<lparr>p_heap := h2, p_stream_id := c\<rparr>)"
        using open_none_safe [OF assms(1)] hstep_trans [OF m(3) al(3)] None by simp
      moreover have "\<forall>a\<in>live (p_heap s). store h2 a = store (p_heap s) a"
        by (rule keep [OF hstep_trans [OF m(3) al(3)]])
      moreover have "malloc_oracle (p_heap s) (next_addr h1) = None"
        using al(2) None hstep_env(1) [OF m(3)] by simp
      ultimately show ?thesis using m(4) by (auto intro!: exI [of _ "next_addr h1"])
    next
      case (Some a)
      have o2: "own h2 ((a, \<lambda>b. is_block b ?bid []) # [])" using hstep_own [OF al(3)] Some by simp
      have len: "3 + length path \<le> 512" using assms(2) by simp
      obtain h3 where w: "upd_buf a (\<lambda>b. write_stream_header b ct path) h2 = Some h3"
          "hstep h2 ((a, \<lambda>b. is_block b ?bid []) # []) h3
             ((a, \<lambda>b. is_block b ?bid (stream_header_wire path ct)) # [])"
        by (rule write_header_hstep [OF o2 len, where ct = ct])
      let ?st = "\<lparr>st_id = sid, st_buf = a, st_bytes = 0, st_session_id = uplink_session_id s\<rparr>"
      let ?s = "s\<lparr>p_heap := h3, p_stream_id := c, p_open_streams := p_open_streams s + 1,
          p_streams := (sp, ?st) # p_streams s\<rparr>"
      have st: "hstep (p_heap s) [] h3 [(a, \<lambda>b. is_block b ?bid (stream_header_wire path ct))]"
        using hstep_trans [OF hstep_trans [OF m(3) al(3)]] w(2) Some by simp
      have h23: "next_addr h1 \<le> next_addr h3"
        using hstep_env(2) [OF al(3)] hstep_env(2) [OF w(2)] by simp
      have sp: "sp = next_addr (p_heap s)" using m(2) \<open>p = Some sp\<close> by (auto split: if_splits)
      have "pouch_uplink_stream_open path ct s = Some (Some sp, ?s)"
        using False m(1) \<open>p = Some sp\<close> sid al(1) Some w(1)
        by (simp add: pouch_uplink_stream_open_def Let_def uplink_session_id_def)
      moreover have "uplink_safe s ?s"
        by (rule open_some_safe [OF assms(1), where P = "\<lambda>b. is_block b ?bid (stream_header_wire path ct)"])
           (use st h23 m(4) sp in \<open>auto simp: stream_role_def\<close>)
      moreover have "stream_holds ?s sp ?bid (stream_header_wire path ct)"
        using hstep_own [OF st] by (simp add: stream_holds_def stream_get_def own_Cons_iff)
      ultimately show ?thesis using sid keep [OF st] by (intro exI [of _ "Some sp"] exI [of _ ?s]) simp
    qed
  qed
qed

text \<open>
  The path of a stream is not checked against the block: opening a stream with a path
  of 510 bytes or more writes past the end of the freshly allocated block, whatever the path is.
\<close>

theorem stream_open_overflow:
  assumes "uplink_inv s" and "510 \<le> length path" and "length path < 65536"
    and "p_open_streams s < POUCH_STREAMS_MAX" and "\<And>k. malloc_oracle (p_heap s) k \<noteq> None"
  shows "pouch_uplink_stream_open path ct s = None"
proof -
  obtain sid c where sid: "new_stream_id (p_stream_id s) = (sid, c)" by fastforce
  have o: "own (p_heap s) []" using uplink_inv_heap [OF assms(1)] by (simp add: own_def)
  obtain p h1 where m: "stream_malloc (p_heap s) = (p, h1)"
      "p = (if malloc_oracle (p_heap s) (next_addr (p_heap s)) = None then None
            else Some (next_addr (p_heap s)))" "hstep (p_heap s) [] h1 []"
    by (rule stream_malloc_hstep [OF o])
  obtain q h2 where
    al: "block_alloc_stream sid True h1 = Some (q, h2)" "q = None \<longleftrightarrow> malloc_oracle h1 (next_addr h1) = None"
      "hstep h1 [] h2 (opt_role q (\<lambda>b. is_block b (sid OR FIRST_DATA_MASK) []) @ [])"
    by (rule block_alloc_stream_hstep [OF hstep_own [OF m(3)], where sid = sid and f = True,
          simplified if_True])
  obtain a where a: "q = Some a" using al(2) assms(5) hstep_env(1) [OF m(3)] by auto
  then obtain b where b: "store h2 a = Some b" "is_block b (sid OR FIRST_DATA_MASK) []"
    using hstep_own [OF al(3)] by (auto simp: own_Cons_iff)
  have f: "fits b 3" using is_block_fits [OF b(2), of 3] by simp
  let ?b = "append_buf b (put_be16 ct @ [of_nat (length path)])"
  have "buf_write ?b path = None"
    using assms(2) is_block_bytes(1) [OF b(2)] is_block_ok [OF b(2)] f
      append_buf_simps [of b "put_be16 ct @ [of_nat (length path)]"]
    by (intro buf_write_overflow) simp_all
  then have "write_stream_header b ct path = None"
    using f by (simp add: write_stream_header_def buf_write_fits append_buf_simps fits_mono
        append_buf_append_buf)
  then have "upd_buf a (\<lambda>b. write_stream_header b ct path) h2 = None"
    using b(1) by (simp add: upd_buf_def)
  then show ?thesis
    using assms(4,5) m(1,2) sid al(1) a by (simp add: pouch_uplink_stream_open_def Let_def)
qed

lemma stream_open_overflow_witness:
  "pouch_uplink_stream_open (replicate 510 0x61) 42 demo_stream = None"
  by (rule stream_open_overflow [OF demo_stream_ok(1)])
     (simp_all add: demo_stream_def POUCH_STREAMS_MAX_def)

section \<open>Closing a stream\<close>

text \<open>
  Closing a stream. The object is released and no longer open, the ownership
  invariant is kept and nothing leaks. When data was written in the current session the open
  block is queued with the last-data flag and its payload unchanged; otherwise the block is
  released and nothing is queued.
\<close>

lemma stream_close_step:
  assumes "uplink_inv s" and "stream_get sp s = Some st" and "stream_holds s sp bid pl"
  shows "\<exists>s'. pouch_stream_close (Some sp) s = Some (OK, s') \<and> uplink_safe s s'
    \<and> stream_get sp s' = None \<and> length (p_streams s') + 1 = length (p_streams s)
    \<and> (\<forall>a\<in>set (up_processing_queue (p_uplink s)). store (p_heap s') a = store (p_heap s) a)
    \<and> (if st_session_id st = uplink_session_id s \<and> 0 < st_bytes st
       then up_processing_queue (p_uplink s') = up_processing_queue (p_uplink s) @ [st_buf st]
         \<and> block_at (p_heap s') (st_buf st, bid OR LAST_DATA_MASK, pl)
       else up_processing_queue (p_uplink s') = up_processing_queue (p_uplink s)
         \<and> store (p_heap s') (st_buf st) = None)"
proof -
  let ?a = "st_buf st" and ?P = "\<lambda>b. is_block b bid pl"
  have d: "distinct (map fst (p_streams s))"
    using uplink_inv_streams [OF assms(1)] by (simp add: streams_ok_def)
  obtain xs ys where xs: "p_streams s = xs @ (sp, st) # ys" "sp \<notin> fst ` set xs" "sp \<notin> fst ` set ys"
    by (rule stream_split [OF d assms(2)])
  have o: "own (p_heap s) ((?a, ?P) # [])"
    using assms(2,3) uplink_inv_heap [OF assms(1)] by (auto simp: stream_holds_def own_def)
  have gone: "map_of (xs @ ys) sp = None" using xs(2,3) by (simp add: map_of_eq_None_iff)
  define closed where "closed h fl = s\<lparr>p_heap := h, p_streams := xs @ ys, p_open_streams := p_open_streams s - 1,
     p_uplink := (p_uplink s)\<lparr>up_processing_queue := up_processing_queue (p_uplink s) @ fl,
       up_processing_work := (up_processing_work (p_uplink s) \<or> fl \<noteq> [])\<rparr>\<rparr>" for h fl
  have safe: "uplink_safe s (closed h fl)" if st: "hstep (p_heap s) [(?a, ?P)] h (list_role fl Q)"
    and Q: "\<And>b. Q b \<Longrightarrow> block_done b" for h fl Q
  proof (rule uplink_safe_frame [OF assms(1) uplink_roles_stream(1) [OF d assms(2)] _ o])
    show "hstep (p_heap s) [(?a, ?P)] (p_heap (closed h fl)) (list_role fl Q)"
      using st by (simp add: closed_def)
    show "role_le (list_role fl Q) (list_role fl block_done)" using Q by auto
    show "mset (uplink_roles (closed h fl)) = mset (list_role fl block_done @ other_roles s sp)"
      by (simp add: uplink_roles_def other_roles_def closed_def xs filter_other transport_roles_def)
    show "streams_ok (closed h fl)"
      using uplink_inv_streams [OF assms(1)] hstep_env(2) [OF st]
      by (auto simp: streams_ok_def closed_def xs(1) intro: order_less_le_trans)
  qed simp
  have drop: "filter (\<lambda>x. fst x \<noteq> sp) (p_streams s) = xs @ ys" by (simp add: xs filter_other)
  show ?thesis
  proof (cases "st_session_id st = uplink_session_id s \<and> 0 < st_bytes st")
    case True
    obtain h where f: "upd_buf ?a (\<lambda>b. block_finish_stream b (st_id st) True) (p_heap s) = Some h"
        "hstep (p_heap s) ((?a, ?P) # []) h (done_roles [(?a, bid OR LAST_DATA_MASK, pl)] @ [])"
      by (rule finish_stream_block [OF o, where sid = "st_id st" and is_last = True, simplified if_True])
    have "pouch_stream_close (Some sp) s = Some (OK, closed h [?a])"
      using True assms(2) f(1) drop
      by (simp add: pouch_stream_close_def pouch_stream_is_valid_def stream_drop_def dec_open_streams_def
          uplink_enqueue_def closed_def uplink_session_id_def)
    moreover have "uplink_safe s (closed h [?a])"
      by (rule safe [where Q = "\<lambda>b. is_block b (bid OR LAST_DATA_MASK) pl
            \<and> contents b = block_wire (bid OR LAST_DATA_MASK) pl"])
         (use f(2) in \<open>auto simp: block_done_def\<close>)
    moreover have "block_at h (?a, bid OR LAST_DATA_MASK, pl)"
      using hstep_own [OF f(2)] by (simp add: block_at_def own_Cons_iff)
    moreover have "\<forall>a\<in>set (up_processing_queue (p_uplink s)). store h a = store (p_heap s) a"
      using stream_queue_unchanged [OF assms(1,2) f(2)] by blast
    ultimately show ?thesis using True gone xs(1) by (simp add: closed_def stream_get_def)
  next
    case False
    from hstep_free [OF o] obtain h where f: "buf_free (Some ?a) (p_heap s) = Some h"
        "hstep (p_heap s) [(?a, ?P)] h []" "store h = (store (p_heap s))(?a := None)" by blast
    have "pouch_stream_close (Some sp) s = Some (OK, closed h [])"
      using False assms(2) f(1) drop
      by (auto simp: pouch_stream_close_def pouch_stream_is_valid_def stream_drop_def dec_open_streams_def
          block_free_def closed_def uplink_session_id_def)
    moreover have "uplink_safe s (closed h [])" by (rule safe [where Q = block_done]) (use f(2) in simp_all)
    moreover have "\<forall>a\<in>set (up_processing_queue (p_uplink s)). store h a = store (p_heap s) a"
      using stream_queue_unchanged [OF assms(1,2) f(2)] by blast
    ultimately show ?thesis using False gone xs(1) f(3) by (auto simp: closed_def stream_get_def)
  qed
qed

section \<open>The life of a stream\<close>

text \<open>A sequence of writes of whole buffers, with the number of bytes each call accepted.\<close>

fun stream_writes :: "addr \<Rightarrow> u8 list list \<Rightarrow> 'c pouch \<Rightarrow> (nat list \<times> 'c pouch) option" where
  "stream_writes sp [] s = Some ([], s)"
| "stream_writes sp (d # ds) s =
     do { (n, s) \<leftarrow> pouch_stream_write (Some sp) d (length d) s;
          (ns, s) \<leftarrow> stream_writes sp ds s;
          Some (n # ns, s) }"

text \<open>What the calls together accepted.\<close>

definition accepted :: "nat list \<Rightarrow> u8 list list \<Rightarrow> u8 list" where
  "accepted ns ds = concat (map2 take ns ds)"

lemma accepted_simps [simp]: "accepted [] ds = []" "accepted (n # ns) (d # ds) = take n d @ accepted ns ds"
  by (simp_all add: accepted_def)

lemma block_at_cong: "store h' (fst d) = store h (fst d) \<Longrightarrow> block_at h d \<Longrightarrow> block_at h' d"
  by (auto simp: block_at_def split: prod.splits)

lemma list_block_at_cong:
  assumes "list_all (block_at h) D" and "\<And>d. d \<in> set D \<Longrightarrow> store h' (fst d) = store h (fst d)"
  shows "list_all (block_at h') D"
  using assms block_at_cong unfolding list_all_iff by blast

lemma stream_writes_step:
  assumes "uplink_inv s" and "stream_get sp s = Some st" and "st_session_id st = uplink_session_id s"
    and "stream_holds s sp bid pl" and "st_bytes st + sum_list (map length ds) < SIZE_MOD"
    and "\<And>k. malloc_oracle (p_heap s) k \<noteq> None"
  shows "\<exists>s' D bid' pl' st'. stream_writes sp ds s = Some (map length ds, s') \<and> uplink_safe s s'
    \<and> up_processing_queue (p_uplink s') = up_processing_queue (p_uplink s) @ map fst D
    \<and> (\<forall>a\<in>set (up_processing_queue (p_uplink s)). store (p_heap s') a = store (p_heap s) a)
    \<and> stream_get sp s' = Some st' \<and> st_id st' = st_id st \<and> st_session_id st' = uplink_session_id s'
    \<and> st_bytes st' = st_bytes st + sum_list (map length ds)
    \<and> list_all (block_at (p_heap s')) D \<and> stream_holds s' sp bid' pl'
    \<and> concat (map (\<lambda>(_, _, p). p) D) @ pl' = pl @ concat ds
    \<and> map (\<lambda>(_, i, _). i) D @ [bid'] = bid # replicate (length D) (st_id st)"
  using assms
proof (induction ds arbitrary: s st bid pl)
  case Nil
  then show ?case using uplink_safe_refl [OF Nil(1)]
    by (intro exI [of _ s] exI [of _ "[]"] exI [of _ bid] exI [of _ pl] exI [of _ st]) simp
next
  case (Cons d ds)
  from stream_write_step [OF Cons.prems(1-4) order_refl, of d] obtain n s1 D bid1 pl1 st1 where
    w: "pouch_stream_write (Some sp) d (length d) s = Some (n, s1)" "uplink_safe s s1" "n \<le> length d"
      "n < length d \<longrightarrow> (\<exists>k\<ge>next_addr (p_heap s). malloc_oracle (p_heap s) k = None)"
    and q: "up_processing_queue (p_uplink s1) = up_processing_queue (p_uplink s) @ map fst D"
      "\<forall>a\<in>set (up_processing_queue (p_uplink s)). store (p_heap s1) a = store (p_heap s) a"
    and g: "stream_get sp s1 = Some st1" "st_id st1 = st_id st" "st_session_id st1 = uplink_session_id s1"
      "st_bytes st1 = szt_add (st_bytes st) n" "list_all (block_at (p_heap s1)) D" "stream_holds s1 sp bid1 pl1"
    and r: "concat (map (\<lambda>(_, _, p). p) D) @ pl1 = pl @ take n d"
      "map (\<lambda>(_, i, _). i) D @ [bid1] = bid # replicate (length D) (st_id st)" by blast
  have n: "n = length d" using w(3,4) Cons.prems(6) by (meson le_neq_implies_less)
  have b1: "st_bytes st1 = st_bytes st + length d" using g(4) n Cons.prems(5) by simp
  have orc: "\<And>k. malloc_oracle (p_heap s1) k \<noteq> None"
    using Cons.prems(6) w(2) hstep_env(1) by (metis uplink_safe_def)
  have sz: "st_bytes st1 + sum_list (map length ds) < SIZE_MOD" using b1 Cons.prems(5) by simp
  from Cons.IH [OF uplink_safe_inv [OF w(2)] g(1,3,6) sz orc] obtain s2 E bid2 pl2 st2 where
    w2: "stream_writes sp ds s1 = Some (map length ds, s2)" "uplink_safe s1 s2"
    and q2: "up_processing_queue (p_uplink s2) = up_processing_queue (p_uplink s1) @ map fst E"
      "\<forall>a\<in>set (up_processing_queue (p_uplink s1)). store (p_heap s2) a = store (p_heap s1) a"
    and g2: "stream_get sp s2 = Some st2" "st_id st2 = st_id st1" "st_session_id st2 = uplink_session_id s2"
      "st_bytes st2 = st_bytes st1 + sum_list (map length ds)" "list_all (block_at (p_heap s2)) E"
      "stream_holds s2 sp bid2 pl2"
    and r2: "concat (map (\<lambda>(_, _, p). p) E) @ pl2 = pl1 @ concat ds"
      "map (\<lambda>(_, i, _). i) E @ [bid2] = bid1 # replicate (length E) (st_id st1)" by blast
  have "list_all (block_at (p_heap s2)) D"
    by (rule list_block_at_cong [OF g(5)]) (use q(1) q2(2) in auto)
  moreover have "concat (map (\<lambda>(_, _, p). p) (D @ E)) @ pl2 = pl @ concat (d # ds)"
    using r(1) r2(1) n by (metis append.assoc concat.simps(2) concat_append map_append order_refl take_all)
  moreover have "map (\<lambda>(_, i, _). i) (D @ E) @ [bid2] = bid # replicate (length (D @ E)) (st_id st)"
  proof -
    have "map (\<lambda>(_, i, _). i) (D @ E) @ [bid2]
        = (map (\<lambda>(_, i, _). i) D @ [bid1]) @ replicate (length E) (st_id st)"
      using r2(2) g(2) by simp
    also have "\<dots> = bid # replicate (length (D @ E)) (st_id st)" unfolding r(2) by (simp add: replicate_add)
    finally show ?thesis .
  qed
  ultimately show ?case
    using w(1) w2(1) n q q2 g2 b1 g(2) uplink_safe_trans [OF w(2) w2(2)]
    by (intro exI [of _ s2] exI [of _ "D @ E"] exI [of _ bid2] exI [of _ pl2] exI [of _ st2]) simp
qed

lemma queue_live: "uplink_inv s \<Longrightarrow> set (up_processing_queue (p_uplink s)) \<subseteq> live (p_heap s)"
proof
  fix a assume "uplink_inv s" and "a \<in> set (up_processing_queue (p_uplink s))"
  moreover from this(2) have "(a, block_done) \<in> set (uplink_roles s)" by (simp add: uplink_roles_def)
  ultimately show "a \<in> live (p_heap s)"
    using ownD [OF uplink_inv_own, of s a block_done] unfolding in_live_iff by blast
qed

lemma stream_open_same:
  assumes "pouch_uplink_stream_open path ct s = Some (r, s')"
  shows "up_id (p_uplink s') = up_id (p_uplink s)"
    and "up_processing_queue (p_uplink s') = up_processing_queue (p_uplink s)"
  using assms
  by (auto simp: pouch_uplink_stream_open_def dec_open_streams_def Let_def bind_eq_Some_conv
      split: if_splits option.splits prod.splits)

text \<open>The id bytes of the blocks of a stream, from those of the write loop and the close.\<close>

lemma stream_id_bytes:
  assumes "map (\<lambda>(_, i, _). i) D @ [bid] = (sid OR FIRST_DATA_MASK) # replicate (length D) st"
    and "st = sid"
  shows "map (\<lambda>(_, i, _). i) (D @ [(a, bid OR LAST_DATA_MASK, pl)])
    = (if length (D @ [(a, bid OR LAST_DATA_MASK, pl)]) = 1 then [sid OR FIRST_DATA_MASK OR LAST_DATA_MASK]
       else (sid OR FIRST_DATA_MASK) # replicate (length (D @ [(a, bid OR LAST_DATA_MASK, pl)]) - 2) sid
              @ [sid OR LAST_DATA_MASK])"
proof (cases D rule: rev_cases)
  case Nil
  then show ?thesis using assms by (simp add: or.assoc)
next
  case (snoc D' d)
  have r: "replicate (length D) st = replicate (length D') sid @ [sid]"
    using snoc assms(2) by (simp add: replicate_append_same)
  have "map (\<lambda>(_, i, _). i) D = (sid OR FIRST_DATA_MASK) # replicate (length D') sid \<and> bid = sid"
    using assms(1) unfolding r by (metis append_Cons append1_eq_conv)
  then show ?thesis using snoc by simp
qed

text \<open>
  Property C17. The life of a stream. When allocations succeed and fewer than 126 streams are open,
  opening a stream with a path of at most 509 bytes, writing any sequence of buffers (between one
  byte and 4 GiB in total) and closing it accepts every byte and queues, behind what was queued
  before, a sequence of blocks whose payloads concatenate to the stream header (content type, path
  length, path) followed by exactly the written bytes. Every block carries the stream's id; the
  first one and no other has the first-data flag and the final one and no other has the last-data
  flag. The ownership invariant holds, the stream is gone, and blocks queued before are untouched.
\<close>

theorem stream_lifecycle:
  assumes "uplink_inv s" and "length path \<le> 509" and "p_open_streams s < POUCH_STREAMS_MAX"
    and "\<And>k. malloc_oracle (p_heap s) k \<noteq> None"
    and "0 < sum_list (map length ds)" and "sum_list (map length ds) < SIZE_MOD"
  shows "\<exists>sp s1 s2 s3 D pl sid. pouch_uplink_stream_open path ct s = Some (Some sp, s1)
    \<and> stream_writes sp ds s1 = Some (map length ds, s2)
    \<and> pouch_stream_close (Some sp) s2 = Some (OK, s3) \<and> uplink_safe s s3 \<and> stream_get sp s3 = None
    \<and> up_processing_queue (p_uplink s3) = up_processing_queue (p_uplink s) @ map fst D
    \<and> list_all (block_at (p_heap s3)) D
    \<and> (\<forall>a\<in>set (up_processing_queue (p_uplink s)). store (p_heap s3) a = store (p_heap s) a)
    \<and> concat (map (\<lambda>(_, _, p). p) D) = stream_header_wire path ct @ concat ds
    \<and> sid = fst (new_stream_id (p_stream_id s))
    \<and> map (\<lambda>(_, i, _). i) D = (if length D = 1 then [sid OR FIRST_DATA_MASK OR LAST_DATA_MASK]
        else (sid OR FIRST_DATA_MASK) # replicate (length D - 2) sid @ [sid OR LAST_DATA_MASK])"
proof -
  let ?hdr = "stream_header_wire path ct" and ?sid = "fst (new_stream_id (p_stream_id s))"
  from stream_open_step [OF assms(1,2), of ct] assms(3,4) obtain sp s1 st where
    o: "pouch_uplink_stream_open path ct s = Some (Some sp, s1)" "uplink_safe s s1"
      "p_streams s1 = (sp, st) # p_streams s" "st_session_id st = uplink_session_id s" "st_bytes st = 0"
      "st_id st = ?sid" "stream_holds s1 sp (?sid OR FIRST_DATA_MASK) ?hdr"
      "\<forall>a\<in>live (p_heap s). store (p_heap s1) a = store (p_heap s) a"
    by (auto split: option.splits)
  note same = stream_open_same [OF o(1)]
  have g: "stream_get sp s1 = Some st" "st_session_id st = uplink_session_id s1"
    using o(3,4) same(1) by (simp_all add: stream_get_def uplink_session_id_def)
  have orc: "\<And>k. malloc_oracle (p_heap s1) k \<noteq> None"
    using assms(4) o(2) hstep_env(1) by (metis uplink_safe_def)
  have sz: "st_bytes st + sum_list (map length ds) < SIZE_MOD" using o(5) assms(6) by simp
  from stream_writes_step [OF uplink_safe_inv [OF o(2)] g o(7) sz orc] obtain s2 D bid pl st2 where
    w: "stream_writes sp ds s1 = Some (map length ds, s2)" "uplink_safe s1 s2"
      "up_processing_queue (p_uplink s2) = up_processing_queue (p_uplink s1) @ map fst D"
      "\<forall>a\<in>set (up_processing_queue (p_uplink s1)). store (p_heap s2) a = store (p_heap s1) a"
      "stream_get sp s2 = Some st2" "st_id st2 = st_id st" "st_session_id st2 = uplink_session_id s2"
      "st_bytes st2 = st_bytes st + sum_list (map length ds)" "list_all (block_at (p_heap s2)) D"
      "stream_holds s2 sp bid pl" "concat (map (\<lambda>(_, _, p). p) D) @ pl = ?hdr @ concat ds"
      "map (\<lambda>(_, i, _). i) D @ [bid] = (?sid OR FIRST_DATA_MASK) # replicate (length D) (st_id st)" by blast
  from stream_close_step [OF uplink_safe_inv [OF w(2)] w(5,10)] w(7,8) o(5) assms(5) obtain s3 where
    c: "pouch_stream_close (Some sp) s2 = Some (OK, s3)" "uplink_safe s2 s3" "stream_get sp s3 = None"
      "\<forall>a\<in>set (up_processing_queue (p_uplink s2)). store (p_heap s3) a = store (p_heap s2) a"
      "up_processing_queue (p_uplink s3) = up_processing_queue (p_uplink s2) @ [st_buf st2]"
      "block_at (p_heap s3) (st_buf st2, bid OR LAST_DATA_MASK, pl)" by auto
  let ?D = "D @ [(st_buf st2, bid OR LAST_DATA_MASK, pl)]"
  have "list_all (block_at (p_heap s3)) D"
    by (rule list_block_at_cong [OF w(9)]) (use w(3) c(4) in auto)
  then have "list_all (block_at (p_heap s3)) ?D" using c(6) by simp
  moreover have "\<forall>a\<in>set (up_processing_queue (p_uplink s)). store (p_heap s3) a = store (p_heap s) a"
    using w(3,4) c(4) same o(8) queue_live [OF assms(1)] by auto
  moreover have "concat (map (\<lambda>(_, _, p). p) ?D) = ?hdr @ concat ds" using w(11) by simp
  moreover have "map (\<lambda>(_, i, _). i) ?D = (if length ?D = 1 then [?sid OR FIRST_DATA_MASK OR LAST_DATA_MASK]
        else (?sid OR FIRST_DATA_MASK) # replicate (length ?D - 2) ?sid @ [?sid OR LAST_DATA_MASK])"
    using w(12) o(6) by (rule stream_id_bytes)
  ultimately show ?thesis
    using o(1) w(1,3) c(1,3,5) same uplink_safe_trans [OF o(2) uplink_safe_trans [OF w(2) c(2)]]
    by (intro exI [of _ sp] exI [of _ s1] exI [of _ s2] exI [of _ s3] exI [of _ ?D] exI [of _ pl]
        exI [of _ ?sid]) simp
qed

lemma stream_lifecycle_witness:
  "\<exists>sp s1 s2 s3 D. pouch_uplink_stream_open [0x61] 42 demo_stream = Some (Some sp, s1)
    \<and> stream_writes sp [[1, 2], [3]] s1 = Some ([2, 1], s2)
    \<and> pouch_stream_close (Some sp) s2 = Some (OK, s3)
    \<and> concat (map (\<lambda>(_ :: addr, _ :: u8, p). p) D) = ([0, 42, 1, 0x61, 1, 2, 3] :: u8 list)"
proof -
  have a: "length [0x61 :: u8] \<le> 509" "p_open_streams demo_stream < POUCH_STREAMS_MAX"
    "0 < sum_list (map length [[1, 2], [3 :: u8]])" "sum_list (map length [[1, 2], [3 :: u8]]) < SIZE_MOD"
    and m: "\<And>k. malloc_oracle (p_heap demo_stream) k \<noteq> None"
    by (simp_all add: demo_stream_def POUCH_STREAMS_MAX_def SIZE_MOD_num)
  have len: "map length [[1, 2], [3 :: u8]] = [2, 1]" by simp
  have w: "stream_header_wire [0x61] 42 @ concat [[1, 2], [3]] = [0, 42, 1, 0x61, 1, 2, 3]"
    by (simp add: stream_header_wire_def put_be16_def)
  show ?thesis
    using stream_lifecycle [OF demo_stream_ok(1) a(1,2) m a(3,4), of 42, unfolded w] len by metis
qed

end
