(* ===== verification/Crypto.thy ===== *)
theory Crypto
  imports State
begin

text \<open>
  The encryption interface of \<^verbatim>\<open>src/crypto.h\<close> and the plaintext backend of
  \<^verbatim>\<open>src/crypto_none.c\<close>. The pouch pipelines are written against the interface; the build links
  one backend. A backend is a record of functions on its state \<open>'c\<close>, and what the pipelines
  rely on is the locale \<open>crypto_backend\<close>. The data types are those of \<^verbatim>\<open>src/header.cddl\<close>.
\<close>

section \<open>The pouch header\<close>

datatype pouch_role = POUCH_ROLE_DEVICE | POUCH_ROLE_SERVER

datatype algorithm = Chacha20_poly1305 | Aes_gcm

datatype header_session_id = Session_id_random "u8 list" | Session_id_sequential "u8 list" u64

record session_info =
  si_id :: header_session_id
  si_initiator :: pouch_role
  si_algorithm :: algorithm
  si_max_block_size_log :: u8
  si_cert_ref :: "u8 list"

datatype encryption_info = Plaintext_info "u8 list" | Saead_info session_info u16

record pouch_header =
  ph_version :: u8
  ph_encryption_info :: encryption_info

text \<open>
  The encoder and the decoder are generated from the CDDL by the build and are parameters: the
  encoder gets the room it has and returns an error code or the bytes; the decoder gets the bytes
  and returns an error code or the header with its length. What the code relies on:
\<close>

type_synonym header_encoder = "nat \<Rightarrow> pouch_header \<Rightarrow> nat + u8 list"
type_synonym header_decoder = "u8 list \<Rightarrow> nat + (pouch_header \<times> nat)"

definition encoder_ok :: "header_encoder \<Rightarrow> bool" where
  "encoder_ok enc \<longleftrightarrow> (\<forall>n hd bs. enc n hd = Inr bs \<longrightarrow> length bs \<le> n)"

definition decoder_ok :: "header_decoder \<Rightarrow> bool" where
  "decoder_ok dec \<longleftrightarrow> (\<forall>bs hd n. dec bs = Inr (hd, n) \<longrightarrow> 0 < n \<and> n \<le> length bs)"

section \<open>The interface\<close>

record 'c crypto_ops =
  co_auth_tag_len :: nat
  co_header_max_len :: nat
  co_session_start :: "'c \<Rightarrow> ret \<times> 'c"
  co_session_end :: "'c \<Rightarrow> 'c"
  co_downlink_start :: "encryption_info \<Rightarrow> 'c \<Rightarrow> ret \<times> 'c"
  co_pouch_start :: "'c \<Rightarrow> ret \<times> 'c"
  co_header_get :: "'c \<Rightarrow> (ret \<times> encryption_info) option"
  co_decrypt_block :: "addr option \<Rightarrow> 'c \<Rightarrow> heap \<Rightarrow> (addr option \<times> 'c \<times> heap) option"
  co_encrypt_block :: "addr \<Rightarrow> 'c \<Rightarrow> heap \<Rightarrow> (addr option \<times> 'c \<times> heap) option"

text \<open>A block of the downlink as it waits for decryption: a buffer of the size of a ciphertext.\<close>

definition received_role :: "nat \<Rightarrow> pouch_buf \<Rightarrow> bool" where
  "received_role auth_tag_len b \<longleftrightarrow> cap b = MAX_CIPHERTEXT_BLOCK_SIZE auth_tag_len"

text \<open>
  The contract: both block operations take over the buffer they are given and either hand back a
  buffer of their own or none; they touch nothing else and leak nothing.
\<close>

locale crypto_backend =
  fixes ops :: "'c crypto_ops"
  assumes auth_tag_len: "co_auth_tag_len ops \<le> 16"
    and header_max_len: "co_header_max_len ops < SIZE_MOD"
    and encrypt_step: "own h ((a, block_done) # R) \<Longrightarrow>
      \<exists>r c' h'. co_encrypt_block ops a c h = Some (r, c', h')
        \<and> hstep h ((a, block_done) # R) h' (opt_role r any_role @ R)"
    and decrypt_step: "own h ((a, received_role (co_auth_tag_len ops)) # R) \<Longrightarrow>
      \<exists>r c' h'. co_decrypt_block ops (Some a) c h = Some (r, c', h')
        \<and> hstep h ((a, received_role (co_auth_tag_len ops)) # R) h' (opt_role r any_role @ R)"

section \<open>The plaintext backend\<close>

record crypto_none_state =
  device_id :: "u8 list option"

definition POUCH_DEVICE_ID_MAX_LEN :: nat where
  "POUCH_DEVICE_ID_MAX_LEN = 32"

definition none_crypto_init :: "u8 list option \<Rightarrow> crypto_none_state \<Rightarrow> ret \<times> crypto_none_state" where
  "none_crypto_init config_device_id c =
     (case config_device_id of
        None \<Rightarrow> (Err EINVAL, c)
      | Some d \<Rightarrow>
          if POUCH_DEVICE_ID_MAX_LEN < length d then (Err EINVAL, c)
          else (OK, c\<lparr>device_id := Some d\<rparr>))"

definition none_crypto_session_start :: "crypto_none_state \<Rightarrow> ret \<times> crypto_none_state" where
  "none_crypto_session_start c = (OK, c)"

definition none_crypto_session_end :: "crypto_none_state \<Rightarrow> crypto_none_state" where
  "none_crypto_session_end c = c"

definition none_crypto_downlink_start ::
    "encryption_info \<Rightarrow> crypto_none_state \<Rightarrow> ret \<times> crypto_none_state" where
  "none_crypto_downlink_start info c =
     (case info of Plaintext_info _ \<Rightarrow> (OK, c) | _ \<Rightarrow> (Err ENOTSUP, c))"

definition none_crypto_pouch_start :: "crypto_none_state \<Rightarrow> ret \<times> crypto_none_state" where
  "none_crypto_pouch_start c = (OK, c)"

text \<open>\<^verbatim>\<open>strlen()\<close> of a device id that was never set is undefined behaviour.\<close>

definition none_crypto_header_get :: "crypto_none_state \<Rightarrow> (ret \<times> encryption_info) option" where
  "none_crypto_header_get c = do { d \<leftarrow> device_id c; Some (OK, Plaintext_info d) }"

definition none_crypto_decrypt_block ::
    "addr option \<Rightarrow> crypto_none_state \<Rightarrow> heap \<Rightarrow> (addr option \<times> crypto_none_state \<times> heap) option" where
  "none_crypto_decrypt_block block c h = Some (block, c, h)"

definition none_crypto_encrypt_block ::
    "addr \<Rightarrow> crypto_none_state \<Rightarrow> heap \<Rightarrow> (addr option \<times> crypto_none_state \<times> heap) option" where
  "none_crypto_encrypt_block block c h = Some (Some block, c, h)"

definition POUCH_HEADER_OVERHEAD :: nat where
  "POUCH_HEADER_OVERHEAD = 2"

definition POUCH_HEADER_OVERHEAD_ENCRYPTION_NONE :: nat where
  "POUCH_HEADER_OVERHEAD_ENCRYPTION_NONE = 3"

definition POUCH_HEADER_MAX_LEN_NONE :: nat where
  "POUCH_HEADER_MAX_LEN_NONE =
     POUCH_HEADER_OVERHEAD + POUCH_HEADER_OVERHEAD_ENCRYPTION_NONE + POUCH_DEVICE_ID_MAX_LEN"

definition crypto_none :: "crypto_none_state crypto_ops" where
  "crypto_none = \<lparr>co_auth_tag_len = 0, co_header_max_len = POUCH_HEADER_MAX_LEN_NONE,
     co_session_start = none_crypto_session_start, co_session_end = none_crypto_session_end,
     co_downlink_start = none_crypto_downlink_start, co_pouch_start = none_crypto_pouch_start,
     co_header_get = none_crypto_header_get, co_decrypt_block = none_crypto_decrypt_block,
     co_encrypt_block = none_crypto_encrypt_block\<rparr>"

lemma crypto_none_simps [simp]:
  "co_auth_tag_len crypto_none = 0" "co_session_start crypto_none c = (OK, c)"
  "co_session_end crypto_none c = c" "co_pouch_start crypto_none c = (OK, c)"
  "co_encrypt_block crypto_none a c h = Some (Some a, c, h)"
  "co_decrypt_block crypto_none p c h = Some (p, c, h)"
  "co_header_max_len crypto_none = 37"
  by (simp_all add: crypto_none_def none_crypto_session_start_def none_crypto_session_end_def
      none_crypto_pouch_start_def none_crypto_encrypt_block_def none_crypto_decrypt_block_def
      POUCH_HEADER_MAX_LEN_NONE_def POUCH_HEADER_OVERHEAD_def POUCH_DEVICE_ID_MAX_LEN_def
      POUCH_HEADER_OVERHEAD_ENCRYPTION_NONE_def)

interpretation none: crypto_backend crypto_none
  by unfold_locales (auto simp: SIZE_MOD_num any_role_def intro!: hstep_role)

section \<open>Creating the pouch header\<close>

definition POUCH_HEADER_VERSION :: u8 where
  "POUCH_HEADER_VERSION = 1"

definition write_header ::
    "'c crypto_ops \<Rightarrow> header_encoder \<Rightarrow> 'c \<Rightarrow> nat \<Rightarrow> pouch_buf \<Rightarrow> (ret \<times> pouch_buf) option" where
  "write_header ops enc c maxlen buf =
     do { (err, info) \<leftarrow> co_header_get ops c;
          if is_err err then Some (err, buf)
          else case enc maxlen \<lparr>ph_version = POUCH_HEADER_VERSION, ph_encryption_info = info\<rparr> of
            Inl e \<Rightarrow> Some (Err (ZCBOR_ERR e), buf)
          | Inr bs \<Rightarrow> do {
              buf \<leftarrow> put_at (buf_next buf) bs buf;
              Some (OK, snd (buf_claim buf (length bs))) } }"

definition pouch_header_create ::
    "'c crypto_ops \<Rightarrow> header_encoder \<Rightarrow> 'c \<Rightarrow> heap \<Rightarrow> (addr option \<times> heap) option" where
  "pouch_header_create ops enc c h =
     (case buf_alloc (co_header_max_len ops) h of
        (None, h) \<Rightarrow> Some (None, h)
      | (Some header, h) \<Rightarrow> do {
          (err, h) \<leftarrow> with_buf header (write_header ops enc c (co_header_max_len ops)) h;
          if is_err err then do { h \<leftarrow> buf_free (Some header) h; Some (None, h) }
          else Some (Some header, h) })"

lemma put_claim_fits:
  assumes "fits b (length bs)"
  shows "\<exists>b'. put_at (buf_next b) bs b = Some b' \<and> snd (buf_claim b' (length bs)) = append_buf b bs"
  using assms
  by (simp add: put_at_def buf_next_def buf_claim_def mem_write_def fits_def buf_ok_def cap_def
      append_buf_def)

text \<open>
  The header is created in a buffer of its own, or nothing is left behind. \<open>bs\<close> is what the
  encoder produced.
\<close>

lemma pouch_header_create_step:
  assumes "own h R" and "encoder_ok enc" and "co_header_max_len ops < SIZE_MOD"
    and "co_header_get ops c = Some (err, info)"
  obtains p h' where "pouch_header_create ops enc c h = Some (p, h')"
    and "hstep h R h' (opt_role p (\<lambda>b. enc (co_header_max_len ops)
      \<lparr>ph_version = POUCH_HEADER_VERSION, ph_encryption_info = info\<rparr> = Inr (contents b)) @ R)"
proof (cases rule: buf_alloc_cases [OF own_heap_ok [OF assms(1)] assms(3)])
  case (1 h')
  then show ?thesis
    using hstep_nop [OF assms(1), of h'] by (intro that [of None h']) (auto simp: pouch_header_create_def)
next
  case (2 a b h1)
  let ?n = "co_header_max_len ops"
  let ?hd = "\<lparr>ph_version = POUCH_HEADER_VERSION, ph_encryption_info = info\<rparr>"
  let ?P = "\<lambda>x. x = b" and ?Q = "\<lambda>b. enc ?n ?hd = Inr (contents b)"
  have s1: "hstep h R h1 ((a, ?P) # R)" using 2 by (intro hstep_alloc [OF assms(1)]) auto
  note o1 = hstep_own [OF s1]
  show ?thesis
  proof (cases "\<exists>bs. err = OK \<and> enc ?n ?hd = Inr bs")
    case False
    obtain e where e: "with_buf a (write_header ops enc c ?n) h1 = Some (Err e, h1\<lparr>store := (store h1)(a \<mapsto> b)\<rparr>)"
      using False assms(4) 2(4)
      by (cases err; cases "enc ?n ?hd") (auto simp: with_buf_def write_header_def)
    have s2: "hstep h1 ((a, ?P) # R) (h1\<lparr>store := (store h1)(a \<mapsto> b)\<rparr>) ((a, ?P) # R)"
      using 2(8) by (intro hstep_upd [OF o1]) simp_all
    from hstep_free [OF hstep_own [OF s2]] obtain h3 where
      f: "buf_free (Some a) (h1\<lparr>store := (store h1)(a \<mapsto> b)\<rparr>) = Some h3"
        "hstep (h1\<lparr>store := (store h1)(a \<mapsto> b)\<rparr>) ((a, ?P) # R) h3 R" by blast
    have "pouch_header_create ops enc c h = Some (None, h3)"
      using 2(1) e f(1) by (simp add: pouch_header_create_def)
    then show ?thesis using hstep_trans [OF hstep_trans [OF s1 s2] f(2)] by (intro that [of None h3]) auto
  next
    case True
    then obtain bs where bs: "err = OK" "enc ?n ?hd = Inr bs" by blast
    then have len: "length bs \<le> ?n" using assms(2) by (auto simp: encoder_ok_def)
    then have fits: "fits b (length bs)" using 2 by (simp add: fits_def)
    from put_claim_fits [OF this] have w: "write_header ops enc c ?n b = Some (OK, append_buf b bs)"
      using assms(4) bs by (auto simp: write_header_def)
    let ?h = "h1\<lparr>store := (store h1)(a \<mapsto> append_buf b bs)\<rparr>"
    have wb: "with_buf a (write_header ops enc c ?n) h1 = Some (OK, ?h)"
      by (rule with_buf_eq [where b = b]) (use 2(4) w in simp_all)
    have s2: "hstep h1 ((a, ?P) # R) ?h ((a, ?Q) # R)"
      by (rule hstep_upd [OF o1]) (use append_buf_simps [OF fits] 2(5) bs in simp_all)
    have "pouch_header_create ops enc c h = Some (Some a, ?h)"
      using 2(1) wb by (simp add: pouch_header_create_def)
    then show ?thesis using hstep_trans [OF s1 s2] by (intro that [of "Some a" ?h]) auto
  qed
qed

end
