(* ===== verification/Events.thy ===== *)
theory Events
  imports State
begin

text \<open>
  The event queue of \<^verbatim>\<open>src/pouch.c\<close>: a message queue of bounded depth, a work item that
  dispatches the events to every registered handler. \<^verbatim>\<open>k_msgq_put(..., K_NO_WAIT)\<close> on a full queue
  returns an error, which the code ignores; \<^verbatim>\<open>k_msgq_get(..., K_NO_WAIT)\<close> takes the oldest event.
\<close>

definition CONFIG_POUCH_EVENT_QUEUE_DEPTH :: nat where
  "CONFIG_POUCH_EVENT_QUEUE_DEPTH = 4"

definition pouch_event_emit :: "pouch_event \<Rightarrow> 'c pouch \<Rightarrow> 'c pouch" where
  "pouch_event_emit event s =
     s\<lparr>p_events := (if length (p_events s) < CONFIG_POUCH_EVENT_QUEUE_DEPTH
                    then p_events s @ [event] else p_events s),
       p_event_work := True\<rparr>"

text \<open>
  A handler is its callback with the context pointer applied; it works on the state \<open>'w\<close> of the
  application and may call the library. The loop of \<^verbatim>\<open>dispatch_events()\<close> runs until the queue is
  empty, so events that a handler emits are dispatched as well.
\<close>

fun call_handlers ::
    "(pouch_event \<Rightarrow> 'w \<times> 'c pouch \<Rightarrow> ('w \<times> 'c pouch) option) list \<Rightarrow> pouch_event \<Rightarrow> 'w \<times> 'c pouch \<Rightarrow>
      ('w \<times> 'c pouch) option" where
  "call_handlers [] event ws = Some ws"
| "call_handlers (handler # handlers) event ws =
     do { ws \<leftarrow> handler event ws; call_handlers handlers event ws }"

partial_function (option) dispatch_loop ::
    "(pouch_event \<Rightarrow> 'w \<times> 'c pouch \<Rightarrow> ('w \<times> 'c pouch) option) list \<Rightarrow> 'w \<times> 'c pouch \<Rightarrow> ('w \<times> 'c pouch) option" where
  "dispatch_loop handlers ws =
     (case p_events (snd ws) of
        [] \<Rightarrow> Some ws
      | event # events \<Rightarrow> do {
          ws \<leftarrow> call_handlers handlers event (fst ws, (snd ws)\<lparr>p_events := events\<rparr>);
          dispatch_loop handlers ws })"

definition dispatch_events ::
    "(pouch_event \<Rightarrow> 'w \<times> 'c pouch \<Rightarrow> ('w \<times> 'c pouch) option) list \<Rightarrow> 'w \<Rightarrow> 'c pouch \<Rightarrow> ('w \<times> 'c pouch) option" where
  "dispatch_events handlers w s = dispatch_loop handlers (w, s)"

text \<open>
  Initialisation of the module. Starting the thread of the work queue changes no state of the library;
  the work item is not pending, and the statically defined event queue stays as it is.
\<close>

definition pouch_module_init :: "'c pouch \<Rightarrow> ret \<times> 'c pouch" where
  "pouch_module_init s = (OK, s\<lparr>p_event_work := False\<rparr>)"

lemma pouch_event_emit_simps [simp]:
  "p_heap (pouch_event_emit e s) = p_heap s" "p_uplink (pouch_event_emit e s) = p_uplink s"
  "p_block (pouch_event_emit e s) = p_block s" "p_streams (pouch_event_emit e s) = p_streams s"
  "p_open_streams (pouch_event_emit e s) = p_open_streams s" "p_crypto (pouch_event_emit e s) = p_crypto s"
  "p_downlink (pouch_event_emit e s) = p_downlink s" "uplink_roles (pouch_event_emit e s) = uplink_roles s"
  by (simp_all add: pouch_event_emit_def uplink_roles_def)

text \<open>The reachable states may therefore be counted from the static one.\<close>

lemma pouch_module_init_static: "pouch_module_init (pouch_static oracle c) = (OK, pouch_static oracle c)"
  by (simp add: pouch_module_init_def pouch_static_def)

text \<open>Emitting a list of events, in order.\<close>

definition emit_all :: "pouch_event list \<Rightarrow> 'c pouch \<Rightarrow> 'c pouch" where
  "emit_all es s = fold pouch_event_emit es s"

lemma emit_all_events:
  assumes "length (p_events s) \<le> CONFIG_POUCH_EVENT_QUEUE_DEPTH"
  shows "p_events (emit_all es s) = take CONFIG_POUCH_EVENT_QUEUE_DEPTH (p_events s @ es)"
  using assms
proof (induction es arbitrary: s)
  case (Cons e es)
  let ?s = "pouch_event_emit e s"
  have "length (p_events ?s) \<le> CONFIG_POUCH_EVENT_QUEUE_DEPTH"
    using Cons.prems by (simp add: pouch_event_emit_def)
  from Cons.IH [OF this] Cons.prems show ?case
    by (cases "length (p_events s) < CONFIG_POUCH_EVENT_QUEUE_DEPTH")
       (simp_all add: emit_all_def pouch_event_emit_def)
qed (simp add: emit_all_def)

section \<open>The contract of the handlers\<close>

text \<open>
  What the dispatcher expects of the registered handlers: after the events \<open>es\<close> the condition \<open>ok es\<close>
  holds, the handlers return on every further event, establish the condition for it, and emit nothing.
  The work item then returns with an empty queue, and every queued event has been handled, in order.
\<close>

locale event_handlers =
  fixes handlers :: "(pouch_event \<Rightarrow> 'w \<times> 'c pouch \<Rightarrow> ('w \<times> 'c pouch) option) list"
    and ok :: "pouch_event list \<Rightarrow> 'w \<times> 'c pouch \<Rightarrow> bool"
  assumes taken: "ok es (w, s) \<Longrightarrow> ok es (w, s\<lparr>p_events := q\<rparr>)"
    and handled: "ok es (w, s) \<Longrightarrow>
      \<exists>w' s'. call_handlers handlers event (w, s) = Some (w', s') \<and> ok (es @ [event]) (w', s') \<and> p_events s' = p_events s"
begin

lemma dispatch_returns:
  assumes "ok es (w, s)"
  shows "\<exists>w' s'. dispatch_loop handlers (w, s) = Some (w', s') \<and> ok (es @ p_events s) (w', s') \<and> p_events s' = []"
  using assms
proof (induction "p_events s" arbitrary: es w s)
  case Nil
  then show ?case by (subst dispatch_loop.simps) (simp flip: Nil(1))
next
  case (Cons event q)
  from handled [OF taken [OF Cons.prems]] obtain w1 s1 where
    1: "call_handlers handlers event (w, s\<lparr>p_events := q\<rparr>) = Some (w1, s1)" "ok (es @ [event]) (w1, s1)" "p_events s1 = q"
    by fastforce
  then have "dispatch_loop handlers (w, s) = dispatch_loop handlers (w1, s1)"
    by (subst dispatch_loop.simps) (simp flip: Cons.hyps(2))
  with Cons.hyps(1) [OF 1(3) [symmetric] 1(2)] show ?case by (simp flip: Cons.hyps(2) add: 1(3))
qed

end

text \<open>A handler that works on the state of the application only.\<close>

definition app_handler :: "(pouch_event \<Rightarrow> 'w \<Rightarrow> 'w) \<Rightarrow> pouch_event \<Rightarrow> 'w \<times> 'c pouch \<Rightarrow> ('w \<times> 'c pouch) option" where
  "app_handler f event = (\<lambda>(w, s). Some (f event w, s))"

lemma call_app_handlers:
  "call_handlers (map app_handler fs) event (w, s) = Some (fold (\<lambda>f. f event) fs w, s)"
  by (induction fs arbitrary: w) (simp_all add: app_handler_def)

interpretation apps: event_handlers "map app_handler fs"
    "\<lambda>es (w, s). w = foldl (\<lambda>w event. fold (\<lambda>f. f event) fs w) w0 es \<and> (\<exists>q. s = s0\<lparr>p_events := q\<rparr>)"
  for fs :: "(pouch_event \<Rightarrow> 'w \<Rightarrow> 'w) list" and w0 and s0 :: "'c pouch"
  by unfold_locales (auto simp: call_app_handlers)

lemma dispatch_app_handlers:
  "dispatch_loop (map app_handler fs) (w, s) =
     Some (foldl (\<lambda>w event. fold (\<lambda>f. f event) fs w) w (p_events s), s\<lparr>p_events := []\<rparr>)"
proof -
  have "\<exists>q. s = s\<lparr>p_events := q\<rparr>" by (rule exI [of _ "p_events s"]) simp
  with apps.dispatch_returns [where es = "[]" and fs = fs and w = w and ?w0.0 = w and s = s and ?s0.0 = s]
  show ?thesis by fastforce
qed

text \<open>
  Events reach the handlers exactly once and in order as long as no more are pending
  than the queue holds: dispatching after emitting \<open>es\<close> returns, runs every handler on the events that
  were pending and then on \<open>es\<close>, cut off at the queue depth (newer events are dropped silently),
  and leaves the queue empty.
\<close>

theorem dispatch_after_emit:
  assumes "length (p_events s) \<le> CONFIG_POUCH_EVENT_QUEUE_DEPTH"
  shows "dispatch_events (map app_handler fs) w (emit_all es s) =
    Some (foldl (\<lambda>w event. fold (\<lambda>f. f event) fs w) w
       (take CONFIG_POUCH_EVENT_QUEUE_DEPTH (p_events s @ es)), (emit_all es s)\<lparr>p_events := []\<rparr>)"
  using emit_all_events [OF assms] by (simp add: dispatch_events_def dispatch_app_handlers)

lemma dispatch_after_emit_witness:
  "map_option fst (dispatch_events (map app_handler [\<lambda>e w. w @ [e]]) []
     (emit_all [POUCH_EVENT_SESSION_START, POUCH_EVENT_SESSION_END] (pouch_static (\<lambda>_. None) ())))
   = Some [POUCH_EVENT_SESSION_START, POUCH_EVENT_SESSION_END]"
  by (subst dispatch_after_emit) (simp_all add: pouch_static_def CONFIG_POUCH_EVENT_QUEUE_DEPTH_def)

end
