(* ===== verification/Uplink.thy ===== *)
theory Uplink
  imports Stream Crypto Events
begin

text \<open>
  The uplink pipeline of \<^verbatim>\<open>src/uplink.c\<close>: finished blocks wait in the processing queue, a work
  item encrypts them into the transport queue behind the pouch header, and the transport pulls the
  bytes out. The operations take the crypto backend as an argument; \<open>up\<close> is the pointer the
  transport was given by \<^verbatim>\<open>pouch_uplink_start()\<close>, \<open>None\<close> when that returned NULL.
\<close>

section \<open>Operations\<close>

datatype pouch_result = POUCH_NO_MORE_DATA | POUCH_MORE_DATA | POUCH_ERROR

type_synonym uplink_ptr = "unit option"

definition set_uplink :: "(pouch_uplink \<Rightarrow> pouch_uplink) \<Rightarrow> 'c pouch \<Rightarrow> 'c pouch" where
  "set_uplink f s = s\<lparr>p_uplink := f (p_uplink s)\<rparr>"

definition set_flag :: "nat \<Rightarrow> 'c pouch \<Rightarrow> 'c pouch" where
  "set_flag n = set_uplink (\<lambda>u. u\<lparr>up_flags := set_bit n (up_flags u)\<rparr>)"

definition clear_flag :: "nat \<Rightarrow> 'c pouch \<Rightarrow> 'c pouch" where
  "clear_flag n = set_uplink (\<lambda>u. u\<lparr>up_flags := unset_bit n (up_flags u)\<rparr>)"

text \<open>One pass through the loop of \<^verbatim>\<open>process_blocks()\<close>.\<close>

definition process_block :: "'c crypto_ops \<Rightarrow> 'c pouch \<Rightarrow> 'c pouch option" where
  "process_block ops s =
     (case buf_queue_get (up_processing_queue (p_uplink s)) of
        (None, q) \<Rightarrow> None
      | (Some block, q) \<Rightarrow> do {
          (encrypted, c, h) \<leftarrow> co_encrypt_block ops block (p_crypto s) (p_heap s);
          let s = (set_uplink (\<lambda>u. u\<lparr>up_processing_queue := q\<rparr>) s)\<lparr>p_crypto := c, p_heap := h\<rparr>;
          Some (case encrypted of
              None \<Rightarrow> s
            | Some e \<Rightarrow>
                let s = (case up_header (p_uplink s) of
                    None \<Rightarrow> s
                  | Some header \<Rightarrow> set_uplink (\<lambda>u. u\<lparr>up_transport_queue :=
                        buf_queue_submit (up_transport_queue u) header, up_header := None\<rparr>) s) in
                set_uplink (\<lambda>u. u\<lparr>up_transport_queue :=
                        buf_queue_submit (up_transport_queue u) e\<rparr>) s) })"

partial_function (option) process_loop :: "'c crypto_ops \<Rightarrow> 'c pouch \<Rightarrow> 'c pouch option" where
  "process_loop ops s =
     (if session_is_active (p_uplink s) \<and> pouch_is_open (p_uplink s)
         \<and> \<not> buf_queue_is_empty (up_processing_queue (p_uplink s))
      then do { s \<leftarrow> process_block ops s; process_loop ops s }
      else Some s)"

definition process_blocks :: "'c crypto_ops \<Rightarrow> 'c pouch \<Rightarrow> 'c pouch option" where
  "process_blocks ops s =
     do { s \<leftarrow> process_loop ops s;
          Some (if pouch_is_closing (p_uplink s) then set_flag POUCH_CLOSED s else s) }"

text \<open>The work queue runs the item when it is pending; the flag is cleared first.\<close>

definition run_processing_work :: "'c crypto_ops \<Rightarrow> 'c pouch \<Rightarrow> 'c pouch option" where
  "run_processing_work ops s =
     (if up_processing_work (p_uplink s)
      then process_blocks ops (set_uplink (\<lambda>u. u\<lparr>up_processing_work := False\<rparr>) s)
      else Some s)"

definition end_session :: "'c crypto_ops \<Rightarrow> 'c pouch \<Rightarrow> 'c pouch" where
  "end_session ops s =
     pouch_event_emit POUCH_EVENT_SESSION_END
       (clear_flag SESSION_ACTIVE (s\<lparr>p_crypto := co_session_end ops (p_crypto s)\<rparr>))"

definition submit_processing_work :: "'c pouch \<Rightarrow> 'c pouch" where
  "submit_processing_work = set_uplink (\<lambda>u. u\<lparr>up_processing_work := True\<rparr>)"

definition pouch_uplink_close :: "ret \<Rightarrow> 'c pouch \<Rightarrow> (ret \<times> 'c pouch) option" where
  "pouch_uplink_close lock s =
     (if bit (up_flags (p_uplink s)) POUCH_CLOSING then Some (Err EALREADY, s)
      else do {
        (err, s) \<leftarrow> entry_block_close lock (set_flag POUCH_CLOSING s);
        Some (err, submit_processing_work s) })"

definition uplink_init :: "'c pouch \<Rightarrow> 'c pouch" where
  "uplink_init = set_uplink (\<lambda>u. u\<lparr>up_processing_queue := buf_queue_init,
     up_transport_queue := buf_queue_init, up_processing_work := False\<rparr>)"

definition pouch_uplink_start ::
    "'c crypto_ops \<Rightarrow> header_encoder \<Rightarrow> 'c pouch \<Rightarrow> (uplink_ptr \<times> 'c pouch) option" where
  "pouch_uplink_start ops enc s =
     (if bit (up_flags (p_uplink s)) SESSION_ACTIVE then Some (None, s)
      else
        let s = set_flag SESSION_ACTIVE s;
            (err, c) = co_session_start ops (p_crypto s);
            s = s\<lparr>p_crypto := c\<rparr> in
        if is_err err then Some (None, clear_flag SESSION_ACTIVE s)
        else
          let (err, c) = co_pouch_start ops (p_crypto s);
              s = s\<lparr>p_crypto := c\<rparr> in
          if is_err err then Some (None, clear_flag SESSION_ACTIVE s)
          else do {
            (header, h) \<leftarrow> pouch_header_create ops enc (p_crypto s) (p_heap s);
            let s = set_uplink (\<lambda>u. u\<lparr>up_header := header\<rparr>) (s\<lparr>p_heap := h\<rparr>);
            case header of
              None \<Rightarrow> Some (None, clear_flag SESSION_ACTIVE s)
            | Some _ \<Rightarrow>
                let s = pouch_event_emit POUCH_EVENT_SESSION_START s in
                Some (Some (),
                  if buf_queue_is_empty (up_processing_queue (p_uplink s)) then s
                  else submit_processing_work s) })"

text \<open>
  The copy loop of \<^verbatim>\<open>pouch_uplink_fill()\<close>; \<open>acc\<close> are the bytes written to the destination so
  far, so that its length is \<^verbatim>\<open>*len\<close>.
\<close>

partial_function (option) fill_loop ::
    "nat \<Rightarrow> u8 list \<Rightarrow> pouch_uplink \<Rightarrow> heap \<Rightarrow> (u8 list \<times> pouch_uplink \<times> heap) option" where
  "fill_loop maxlen acc u h =
     (if length acc < maxlen then do {
        ready \<leftarrow> pouch_bufview_is_ready (up_transport_reader u) h;
        let r = (if ready then Some u
                 else case buf_queue_get (up_transport_queue u) of
                   (None, q) \<Rightarrow> None
                 | (Some buf, q) \<Rightarrow> Some (u\<lparr>up_transport_queue := q,
                     up_transport_reader := pouch_bufview_init buf\<rparr>));
        case r of
          None \<Rightarrow> Some (acc, u, h)
        | Some u \<Rightarrow> do {
            (bs, reader) \<leftarrow> pouch_bufview_memcpy (up_transport_reader u) (maxlen - length acc) h;
            av \<leftarrow> pouch_bufview_available reader h;
            (reader, h) \<leftarrow> (if av = 0 then pouch_bufview_free reader h else Some (reader, h));
            fill_loop maxlen (acc @ bs) (u\<lparr>up_transport_reader := reader\<rparr>) h } }
      else Some (acc, u, h))"

text \<open>
  The result is the return code, the value of \<^verbatim>\<open>*len\<close> and the bytes written. The pointer is
  followed in the loop, and after it when the pouch is closed.
\<close>

definition pouch_uplink_fill ::
    "'c crypto_ops \<Rightarrow> uplink_ptr \<Rightarrow> nat \<Rightarrow> 'c pouch \<Rightarrow> ((pouch_result \<times> nat \<times> u8 list) \<times> 'c pouch) option"
where
  "pouch_uplink_fill ops up maxlen s =
     (if \<not> session_is_active (p_uplink s) then Some ((POUCH_ERROR, maxlen, []), s)
      else do {
        _ \<leftarrow> (if 0 < maxlen \<or> \<not> pouch_is_open (p_uplink s) then up else Some ());
        (bs, u, h) \<leftarrow> fill_loop maxlen [] (p_uplink s) (p_heap s);
        let s = s\<lparr>p_uplink := u, p_heap := h\<rparr>;
        av \<leftarrow> pouch_bufview_available (up_transport_reader u) h;
        if pouch_is_open u \<or> 0 < av \<or> \<not> buf_queue_is_empty (up_transport_queue u)
        then Some ((POUCH_MORE_DATA, length bs, bs), s)
        else Some ((POUCH_NO_MORE_DATA, length bs, bs), end_session ops s) })"

definition pouch_uplink_error :: "uplink_ptr \<Rightarrow> 'c pouch \<Rightarrow> int option" where
  "pouch_uplink_error up s = do { _ \<leftarrow> up; Some (up_error (p_uplink s)) }"

text \<open>Releasing every buffer of a queue.\<close>

fun free_queue :: "pouch_buf_queue \<Rightarrow> heap \<Rightarrow> heap option" where
  "free_queue [] h = Some h"
| "free_queue (a # q) h = do { h \<leftarrow> buf_free (Some a) h; free_queue q h }"

definition pouch_uplink_finish :: "'c crypto_ops \<Rightarrow> uplink_ptr \<Rightarrow> 'c pouch \<Rightarrow> 'c pouch option" where
  "pouch_uplink_finish ops up s =
     do { _ \<leftarrow> up;
          let u = p_uplink s;
          h \<leftarrow> free_queue (up_transport_queue u) (p_heap s);
          (reader, h) \<leftarrow> pouch_bufview_free (up_transport_reader u) h;
          h \<leftarrow> buf_free (up_header u) h;
          let flags = up_flags u;
          let s = s\<lparr>p_heap := h, p_uplink := u\<lparr>up_transport_queue := [], up_transport_reader := reader,
                up_header := None, up_id := up_id u + 1, up_flags := 0\<rparr>\<rparr>;
          Some (if bit flags SESSION_ACTIVE then end_session ops s else s) }"

section \<open>Flags\<close>

lemmas flag_defs = SESSION_ACTIVE_def POUCH_CLOSING_def POUCH_CLOSED_def

lemma flag_bits [simp]:
  "bit (set_bit n (w :: u32)) m \<longleftrightarrow> bit w m \<or> n = m \<and> m < 32"
  "bit (unset_bit n (w :: u32)) m \<longleftrightarrow> bit w m \<and> n \<noteq> m"
  by (auto simp: bit_simps dest: bit_imp_le_length)

lemma set_uplink_simps [simp]:
  "p_heap (set_uplink f s) = p_heap s" "p_uplink (set_uplink f s) = f (p_uplink s)"
  "p_block (set_uplink f s) = p_block s" "p_streams (set_uplink f s) = p_streams s"
  "p_open_streams (set_uplink f s) = p_open_streams s" "p_crypto (set_uplink f s) = p_crypto s"
  "p_downlink (set_uplink f s) = p_downlink s" "p_events (set_uplink f s) = p_events s"
  by (simp_all add: set_uplink_def)

text \<open>Changes that leave all buffers and who holds them alone.\<close>

lemma uplink_safe_same:
  assumes "uplink_inv s" and "p_heap s' = p_heap s" and "p_block s' = p_block s"
    and "p_streams s' = p_streams s" and "p_open_streams s' = p_open_streams s"
    and "up_processing_queue (p_uplink s') = up_processing_queue (p_uplink s)"
    and "up_transport_queue (p_uplink s') = up_transport_queue (p_uplink s)"
    and "up_header (p_uplink s') = up_header (p_uplink s)"
    and "up_transport_reader (p_uplink s') = up_transport_reader (p_uplink s)"
  shows "uplink_safe s s'"
proof -
  have "uplink_roles s' = uplink_roles s" using assms by (simp add: uplink_roles_def transport_roles_def)
  moreover have "streams_ok s'" using assms by (simp add: uplink_inv_def streams_ok_def)
  ultimately show ?thesis
    using assms(1,2) hstep_refl [OF uplink_inv_own] by (intro uplink_safeI) simp_all
qed

section \<open>Processing\<close>

context crypto_backend
begin

lemma process_block_step:
  assumes "uplink_inv s" and q: "up_processing_queue (p_uplink s) = a # q"
  obtains s' where "process_block ops s = Some s'" and "uplink_safe s s'"
    and "up_processing_queue (p_uplink s') = q" and "up_flags (p_uplink s') = up_flags (p_uplink s)"
    and "p_block s' = p_block s" and "p_streams s' = p_streams s"
proof -
  let ?S = "opt_role (p_block s) entry_role @ list_role q block_done @ stream_roles (p_streams s)
     @ transport_roles (p_uplink s)"
  have before: "mset (uplink_roles s) = mset ([(a, block_done)] @ ?S)"
    by (simp add: uplink_roles_def q)
  have o: "own (p_heap s) [(a, block_done)]"
    by (rule own_subset [OF uplink_inv_own [OF assms(1)] before])
  from encrypt_step [OF o, of "p_crypto s"] obtain r c h where
    e: "co_encrypt_block ops a (p_crypto s) (p_heap s) = Some (r, c, h)"
      "hstep (p_heap s) [(a, block_done)] h (opt_role r any_role @ [])" by blast
  from e(1) q obtain s' where s': "process_block ops s = Some s'" "p_heap s' = h"
      "up_processing_queue (p_uplink s') = q" "up_flags (p_uplink s') = up_flags (p_uplink s)"
      "p_block s' = p_block s" "p_streams s' = p_streams s" "p_open_streams s' = p_open_streams s"
      "mset (transport_roles (p_uplink s')) = mset (opt_role r any_role @ transport_roles (p_uplink s))"
    by (cases r; cases "up_header (p_uplink s)")
       (simp_all add: process_block_def Let_def transport_roles_def)
  have after: "mset (uplink_roles s') = mset (opt_role r any_role @ ?S)"
    using s' by (simp add: uplink_roles_def)
  have ok: "streams_ok s'"
    using uplink_inv_streams [OF assms(1)]
    by (rule streams_ok_mono) (use s' hstep_env(2) [OF e(2)] in simp_all)
  have "uplink_safe s s'"
    by (rule uplink_safe_frame [OF assms(1) before refl o _ role_le_refl after ok])
       (use e(2) s'(2) in simp)
  then show ?thesis using s' by (intro that)
qed

lemma process_loop_step:
  assumes "uplink_inv s"
  shows "\<exists>s'. process_loop ops s = Some s' \<and> uplink_safe s s'
    \<and> up_flags (p_uplink s') = up_flags (p_uplink s) \<and> p_block s' = p_block s
    \<and> p_streams s' = p_streams s
    \<and> (session_is_active (p_uplink s) \<and> pouch_is_open (p_uplink s) \<longrightarrow>
         up_processing_queue (p_uplink s') = [])"
  using assms
proof (induction "up_processing_queue (p_uplink s)" arbitrary: s)
  case Nil
  then show ?case using uplink_safe_refl [OF Nil(2)]
    by (subst process_loop.simps) simp
next
  case (Cons a q)
  show ?case
  proof (cases "session_is_active (p_uplink s) \<and> pouch_is_open (p_uplink s)")
    case False
    then have "process_loop ops s = Some s" by (subst process_loop.simps) auto
    then show ?thesis using False uplink_safe_refl [OF Cons(3)] by auto
  next
    case True
    obtain s1 where s1: "process_block ops s = Some s1" "uplink_safe s s1"
        "up_processing_queue (p_uplink s1) = q" "up_flags (p_uplink s1) = up_flags (p_uplink s)"
        "p_block s1 = p_block s" "p_streams s1 = p_streams s"
      by (rule process_block_step [OF Cons(3) Cons(2) [symmetric]])
    from Cons(1) [OF s1(3) [symmetric] uplink_safe_inv [OF s1(2)]] obtain s2 where
      s2: "process_loop ops s1 = Some s2" "uplink_safe s1 s2"
        "up_flags (p_uplink s2) = up_flags (p_uplink s1)" "p_block s2 = p_block s1"
        "p_streams s2 = p_streams s1"
        "session_is_active (p_uplink s1) \<and> pouch_is_open (p_uplink s1) \<longrightarrow>
           up_processing_queue (p_uplink s2) = []" by blast
    have "process_loop ops s = Some s2"
      using True s1(1) s2(1) Cons(2) [symmetric] by (subst process_loop.simps) simp
    moreover have "uplink_safe s s2" using s1(2) s2(2) by (rule uplink_safe_trans)
    ultimately show ?thesis using s1 s2 True
      by (simp add: session_is_active_def pouch_is_open_def)
  qed
qed

lemma process_blocks_step:
  assumes "uplink_inv s"
  shows "\<exists>s'. process_blocks ops s = Some s' \<and> uplink_safe s s'
    \<and> (session_is_active (p_uplink s) \<and> pouch_is_open (p_uplink s) \<longrightarrow>
         up_processing_queue (p_uplink s') = [])
    \<and> (pouch_is_closing (p_uplink s) \<longrightarrow> \<not> pouch_is_open (p_uplink s'))
    \<and> (\<not> pouch_is_closing (p_uplink s) \<longrightarrow> up_flags (p_uplink s') = up_flags (p_uplink s))"
proof -
  from process_loop_step [OF assms] obtain s1 where
    s1: "process_loop ops s = Some s1" "uplink_safe s s1" "up_flags (p_uplink s1) = up_flags (p_uplink s)"
      "session_is_active (p_uplink s) \<and> pouch_is_open (p_uplink s) \<longrightarrow>
         up_processing_queue (p_uplink s1) = []" by blast
  have "uplink_safe s1 (set_flag POUCH_CLOSED s1)"
    by (rule uplink_safe_same [OF uplink_safe_inv [OF s1(2)]]) (simp_all add: set_flag_def)
  then have "uplink_safe s (set_flag POUCH_CLOSED s1)" using uplink_safe_trans [OF s1(2)] by blast
  then show ?thesis using s1
    by (auto simp: process_blocks_def pouch_is_closing_def pouch_is_open_def set_flag_def flag_defs)
qed

end

section \<open>Pulling the bytes out\<close>

text \<open>What the transport has not seen yet: the rest of the reader's buffer, then the queue.\<close>

definition reader_rest :: "pouch_bufview \<Rightarrow> heap \<Rightarrow> u8 list" where
  "reader_rest v h = (case bv_buf v of None \<Rightarrow> [] | Some a \<Rightarrow> drop (bv_offset v) (buf_contents h a))"

definition pending :: "pouch_uplink \<Rightarrow> heap \<Rightarrow> u8 list" where
  "pending u h = reader_rest (up_transport_reader u) h @ concat (map (buf_contents h) (up_transport_queue u))"

lemma pending_cong:
  "\<forall>a\<in>fst ` set (transport_roles u). store h' a = store h a \<Longrightarrow> pending u h' = pending u h"
  by (auto simp: transport_roles_def pending_def reader_rest_def buf_contents_def image_Un image_image
      intro!: arg_cong [where f = concat] split: option.splits)

lemma transport_frame_pending:
  "transport_frame s s' \<Longrightarrow> pending (p_uplink s') (p_heap s') = pending (p_uplink s) (p_heap s)"
  "transport_frame s s' \<Longrightarrow> up_header (p_uplink s) = Some a \<Longrightarrow> buf_contents (p_heap s') a = buf_contents (p_heap s) a"
  by (auto simp: transport_frame_def transport_roles_def pending_def reader_rest_def buf_contents_def image_Un image_image
      intro!: arg_cong [where f = concat] split: option.splits)

definition fill_roles :: "pouch_bufview \<Rightarrow> pouch_buf_queue \<Rightarrow> role list" where
  "fill_roles v q = opt_role (bv_buf v) (reader_role (bv_offset v)) @ list_role q any_role"

text \<open>Copying from a buffer and dropping it when it is exhausted.\<close>

lemma drain_cases:
  assumes own: "own h ((a, any_role) # R)" and b: "store h a = Some b" and n: "n \<le> pb_bytes b"
  obtains (whole) v' h' where
      "pouch_bufview_memcpy \<lparr>bv_buf = Some a, bv_offset = n\<rparr> k h = Some (drop n (contents b), v')"
      "pouch_bufview_available v' h = Some 0"
      "pouch_bufview_free v' h = Some (\<lparr>bv_buf = None, bv_offset = 0\<rparr>, h')"
      "hstep h ((a, any_role) # R) h' R" "store h' = (store h)(a := None)"
      "length (drop n (contents b)) \<le> k"
    | (part) "pouch_bufview_memcpy \<lparr>bv_buf = Some a, bv_offset = n\<rparr> k h
        = Some (take k (drop n (contents b)), \<lparr>bv_buf = Some a, bv_offset = n + k\<rparr>)"
      "pouch_bufview_available \<lparr>bv_buf = Some a, bv_offset = n + k\<rparr> h = Some (pb_bytes b - (n + k))"
      "n + k < pb_bytes b" "hstep h ((a, any_role) # R) h ((a, reader_role (n + k)) # R)"
      "length (take k (drop n (contents b))) = k"
proof -
  have ok: "buf_ok b" using heap_ok_buf_ok [OF own_heap_ok [OF own] b] .
  have v: "view_at \<lparr>bv_buf = Some a, bv_offset = n\<rparr> h b n" using b ok n by (simp add: view_at_def)
  from pouch_bufview_memcpy_view [OF v, of k] obtain v' where
    m: "pouch_bufview_memcpy \<lparr>bv_buf = Some a, bv_offset = n\<rparr> k h = Some (take k (drop n (contents b)), v')"
      "view_at v' h b (n + min k (pb_bytes b - n))" by blast
  have bv: "bv_buf v' = Some a"
    using m(1) by (auto simp: pouch_bufview_memcpy_def bufview_read_def bind_eq_Some_conv)
  have av: "pouch_bufview_available v' h = Some (pb_bytes b - (n + min k (pb_bytes b - n)))"
    using pouch_bufview_available_view [OF m(2)] .
  show ?thesis
  proof (cases "n + k < pb_bytes b")
    case True
    then have "v' = \<lparr>bv_buf = Some a, bv_offset = n + k\<rparr>"
      using m(2) bv by (cases v') (simp add: view_at_def min_def)
    moreover have "hstep h ((a, any_role) # R) h ((a, reader_role (n + k)) # R)"
      using True b by (intro hstep_role [OF own]) (simp add: reader_role_def)
    ultimately show ?thesis using m(1) av True ok n by (intro part) (auto simp: min_def)
  next
    case False
    from hstep_free [OF own] obtain h' where "buf_free (Some a) h = Some h'"
        "hstep h ((a, any_role) # R) h' R" "store h' = (store h)(a := None)" by blast
    then show ?thesis using False m(1) av bv ok n
      by (intro whole [of v' h']) (auto simp: pouch_bufview_free_def min_def)
  qed
qed

lemma contents_other:
  assumes "own h ((a, P) # list_role q Q)" and "store h' = (store h)(a := None)"
  shows "map (buf_contents h') q = map (buf_contents h) q"
proof -
  have "x \<noteq> a" if "x \<in> set q" for x using assms(1) that by (force simp: own_Cons_iff)
  then show ?thesis using assms(2) by (simp add: buf_contents_def)
qed

lemma fill_loop_exit: "\<not> length acc < maxlen \<Longrightarrow> fill_loop maxlen acc u h = Some (acc, u, h)"
  by (subst fill_loop.simps) simp

text \<open>
  The loop from a state whose reader is at byte \<open>n\<close> of the buffer \<open>a\<close>; the queue is \<open>q\<close>.
  \<open>loop\<close> is the statement for fewer buffers.
\<close>

definition fill_spec ::
    "nat \<Rightarrow> u8 list \<Rightarrow> pouch_uplink \<Rightarrow> heap \<Rightarrow> u8 list \<times> pouch_uplink \<times> heap \<Rightarrow> bool" where
  "fill_spec maxlen acc u h r = (case r of (out, u', h') \<Rightarrow>
     out = acc @ take (maxlen - length acc) (pending u h)
     \<and> pending u' h' = drop (maxlen - length acc) (pending u h)
     \<and> u' = u\<lparr>up_transport_queue := up_transport_queue u', up_transport_reader := up_transport_reader u'\<rparr>
     \<and> hstep h (fill_roles (up_transport_reader u) (up_transport_queue u)) h'
          (fill_roles (up_transport_reader u') (up_transport_queue u')))"

lemma fill_from:
  assumes own: "own h ((a, any_role) # list_role q any_role)" and b: "store h a = Some b"
    and n: "n \<le> pb_bytes b" and acc: "length acc < maxlen"
    and loop: "\<And>acc h. own h (list_role q any_role) \<Longrightarrow> length acc \<le> maxlen \<Longrightarrow>
      \<exists>r. fill_loop maxlen acc (u\<lparr>up_transport_queue := q, up_transport_reader := \<lparr>bv_buf = None, bv_offset = 0\<rparr>\<rparr>) h = Some r
        \<and> fill_spec maxlen acc (u\<lparr>up_transport_queue := q, up_transport_reader := \<lparr>bv_buf = None, bv_offset = 0\<rparr>\<rparr>) h r"
  shows "\<exists>out u' h'. do { (bs, reader) \<leftarrow> pouch_bufview_memcpy \<lparr>bv_buf = Some a, bv_offset = n\<rparr> (maxlen - length acc) h;
            av \<leftarrow> pouch_bufview_available reader h;
            (reader, h) \<leftarrow> (if av = 0 then pouch_bufview_free reader h else Some (reader, h));
            fill_loop maxlen (acc @ bs) (u\<lparr>up_transport_queue := q, up_transport_reader := reader\<rparr>) h } = Some (out, u', h')
     \<and> out = acc @ take (maxlen - length acc) (drop n (contents b) @ concat (map (buf_contents h) q))
     \<and> pending u' h' = drop (maxlen - length acc) (drop n (contents b) @ concat (map (buf_contents h) q))
     \<and> u' = u\<lparr>up_transport_queue := up_transport_queue u', up_transport_reader := up_transport_reader u'\<rparr>
     \<and> hstep h ((a, any_role) # list_role q any_role) h'
          (fill_roles (up_transport_reader u') (up_transport_queue u'))"
proof (cases rule: drain_cases [OF own b n, where k = "maxlen - length acc"])
  case (1 v' h1)
  let ?acc = "acc @ drop n (contents b)"
  have "own h1 (list_role q any_role)" using hstep_own [OF 1(4)] .
  moreover have "length ?acc \<le> maxlen" using 1(6) acc by simp
  ultimately obtain out u' h' where
    l: "fill_loop maxlen ?acc (u\<lparr>up_transport_queue := q, up_transport_reader := \<lparr>bv_buf = None, bv_offset = 0\<rparr>\<rparr>) h1
        = Some (out, u', h')"
      "out = ?acc @ take (maxlen - length ?acc) (concat (map (buf_contents h1) q))"
      "pending u' h' = drop (maxlen - length ?acc) (concat (map (buf_contents h1) q))"
      "u' = u\<lparr>up_transport_queue := up_transport_queue u', up_transport_reader := up_transport_reader u'\<rparr>"
      "hstep h1 (list_role q any_role) h' (fill_roles (up_transport_reader u') (up_transport_queue u'))"
    using loop [of h1 ?acc]
    by (auto simp: fill_spec_def pending_def reader_rest_def fill_roles_def)
  have q: "map (buf_contents h1) q = map (buf_contents h) q" by (rule contents_other [OF own 1(5)])
  have "maxlen - length ?acc = maxlen - length acc - length (drop n (contents b))" by simp
  then have "out = acc @ take (maxlen - length acc) (drop n (contents b) @ concat (map (buf_contents h) q))"
    "pending u' h' = drop (maxlen - length acc) (drop n (contents b) @ concat (map (buf_contents h) q))"
    using l(2,3) 1(6) by (simp_all add: q)
  moreover have "hstep h ((a, any_role) # list_role q any_role) h'
      (fill_roles (up_transport_reader u') (up_transport_queue u'))"
    using 1(4) l(5) by (rule hstep_trans)
  ultimately show ?thesis using 1(1-3) l(1,4)
    by (intro exI [of _ out] exI [of _ u'] exI [of _ h']) simp
next
  case 2
  let ?k = "maxlen - length acc"
  let ?bs = "take ?k (drop n (contents b))"
  let ?v = "\<lparr>bv_buf = Some a, bv_offset = n + ?k\<rparr>"
  let ?u = "u\<lparr>up_transport_queue := q, up_transport_reader := ?v\<rparr>"
  have "\<not> length (acc @ ?bs) < maxlen" using 2(5) by simp
  then have "fill_loop maxlen (acc @ ?bs) ?u h = Some (acc @ ?bs, ?u, h)" by (rule fill_loop_exit)
  moreover have "length (drop n (contents b)) > ?k"
    using 2(3) heap_ok_buf_ok [OF own_heap_ok [OF own] b] by simp
  moreover from this have "pending ?u h = drop ?k (drop n (contents b) @ concat (map (buf_contents h) q))"
    using b by (simp add: pending_def reader_rest_def buf_contents_def add.commute)
  moreover have "hstep h ((a, any_role) # list_role q any_role) h
      (fill_roles (up_transport_reader ?u) (up_transport_queue ?u))"
    using 2(4) by (simp add: fill_roles_def)
  ultimately show ?thesis using 2(1-3)
    by (intro exI [of _ "acc @ ?bs"] exI [of _ ?u] exI [of _ h]) simp
qed

lemma fill_spec_exit:
  assumes "own h (fill_roles (up_transport_reader u) (up_transport_queue u))" and "maxlen \<le> length acc"
  shows "fill_spec maxlen acc u h (acc, u, h)"
  using assms by (simp add: fill_spec_def hstep_refl)

lemma fill_loop_idle:
  assumes "bv_buf (up_transport_reader u) = None" and "own h (list_role (up_transport_queue u) any_role)"
    and "length acc \<le> maxlen"
  shows "\<exists>r. fill_loop maxlen acc u h = Some r \<and> fill_spec maxlen acc u h r"
  using assms
proof (induction "up_transport_queue u" arbitrary: acc u h)
  case Nil
  then have o: "own h (fill_roles (up_transport_reader u) (up_transport_queue u))"
    by (simp add: fill_roles_def)
  have "fill_loop maxlen acc u h = Some (acc, u, h)"
    using Nil by (subst fill_loop.simps) (simp add: pouch_bufview_is_ready_def flip: Nil(1))
  moreover have "fill_spec maxlen acc u h (acc, u, h)"
    using Nil(2) hstep_refl [OF o] by (simp add: fill_spec_def pending_def reader_rest_def flip: Nil(1))
  ultimately show ?case by blast
next
  case (Cons a q)
  note q = Cons(2) [symmetric]
  have o: "own h ((a, any_role) # list_role q any_role)" using Cons.prems(2) q by simp
  show ?case
  proof (cases "length acc < maxlen")
    case False
    have "own h (fill_roles (up_transport_reader u) (up_transport_queue u))"
      using Cons.prems by (simp add: fill_roles_def)
    then show ?thesis using False fill_loop_exit [OF False] fill_spec_exit [of h u maxlen acc] by auto
  next
    case True
    obtain b where b: "store h a = Some b" using o by (auto simp: own_Cons_iff)
    from fill_from [OF o b le0 True, of u] Cons(1) [of "u\<lparr>up_transport_queue := q,
        up_transport_reader := \<lparr>bv_buf = None, bv_offset = 0\<rparr>\<rparr>"]
    obtain out u' h' where
      f: "do { (bs, reader) \<leftarrow> pouch_bufview_memcpy \<lparr>bv_buf = Some a, bv_offset = 0\<rparr> (maxlen - length acc) h;
            av \<leftarrow> pouch_bufview_available reader h;
            (reader, h) \<leftarrow> (if av = 0 then pouch_bufview_free reader h else Some (reader, h));
            fill_loop maxlen (acc @ bs) (u\<lparr>up_transport_queue := q, up_transport_reader := reader\<rparr>) h } = Some (out, u', h')"
        "out = acc @ take (maxlen - length acc) (drop 0 (contents b) @ concat (map (buf_contents h) q))"
        "pending u' h' = drop (maxlen - length acc) (drop 0 (contents b) @ concat (map (buf_contents h) q))"
        "u' = u\<lparr>up_transport_queue := up_transport_queue u', up_transport_reader := up_transport_reader u'\<rparr>"
        "hstep h ((a, any_role) # list_role q any_role) h'
          (fill_roles (up_transport_reader u') (up_transport_queue u'))"
      by fastforce
    have "fill_loop maxlen acc u h = Some (out, u', h')"
      using True f(1) Cons.prems(1) q
      by (subst fill_loop.simps) (simp add: pouch_bufview_is_ready_def pouch_bufview_init_def)
    moreover have "pending u h = drop 0 (contents b) @ concat (map (buf_contents h) q)"
      using Cons.prems(1) b q by (simp add: pending_def reader_rest_def buf_contents_def)
    moreover have "fill_roles (up_transport_reader u) (up_transport_queue u)
        = (a, any_role) # list_role q any_role"
      using Cons.prems(1) q by (simp add: fill_roles_def)
    ultimately show ?thesis using f(2-5) by (simp only: fill_spec_def) auto
  qed
qed

lemma fill_loop_ok:
  assumes own: "own h (fill_roles (up_transport_reader u) (up_transport_queue u))" and "length acc \<le> maxlen"
  shows "\<exists>r. fill_loop maxlen acc u h = Some r \<and> fill_spec maxlen acc u h r"
proof (cases "bv_buf (up_transport_reader u)")
  case None
  then show ?thesis using fill_loop_idle [OF None] own assms(2) by (simp add: fill_roles_def)
next
  case (Some a)
  let ?q = "up_transport_queue u" and ?n = "bv_offset (up_transport_reader u)"
  have o1: "own h ((a, reader_role ?n) # list_role ?q any_role)" using own Some by (simp add: fill_roles_def)
  then obtain b where b: "store h a = Some b" "?n < pb_bytes b"
    by (auto simp: own_Cons_iff reader_role_def)
  show ?thesis
  proof (cases "length acc < maxlen")
    case False
    then show ?thesis using own fill_loop_exit [OF False] fill_spec_exit [of h u maxlen acc] by auto
  next
    case True
    have s0: "hstep h ((a, reader_role ?n) # list_role ?q any_role) h ((a, any_role) # list_role ?q any_role)"
      by (rule hstep_role [OF o1]) (simp add: any_role_def)
    note o2 = hstep_own [OF s0]
    have loop: "\<exists>r. fill_loop maxlen acc (u\<lparr>up_transport_queue := ?q,
          up_transport_reader := \<lparr>bv_buf = None, bv_offset = 0\<rparr>\<rparr>) h = Some r
        \<and> fill_spec maxlen acc (u\<lparr>up_transport_queue := ?q,
            up_transport_reader := \<lparr>bv_buf = None, bv_offset = 0\<rparr>\<rparr>) h r"
      if "own h (list_role ?q any_role)" "length acc \<le> maxlen" for acc h
      by (rule fill_loop_idle) (use that in simp_all)
    from fill_from [OF o2 b(1) less_imp_le [OF b(2)] True loop]
    obtain out u' h' where
      f: "do { (bs, reader) \<leftarrow> pouch_bufview_memcpy \<lparr>bv_buf = Some a, bv_offset = ?n\<rparr> (maxlen - length acc) h;
            av \<leftarrow> pouch_bufview_available reader h;
            (reader, h) \<leftarrow> (if av = 0 then pouch_bufview_free reader h else Some (reader, h));
            fill_loop maxlen (acc @ bs) (u\<lparr>up_transport_queue := ?q, up_transport_reader := reader\<rparr>) h } = Some (out, u', h')"
        "out = acc @ take (maxlen - length acc) (drop ?n (contents b) @ concat (map (buf_contents h) ?q))"
        "pending u' h' = drop (maxlen - length acc) (drop ?n (contents b) @ concat (map (buf_contents h) ?q))"
        "u' = u\<lparr>up_transport_queue := up_transport_queue u', up_transport_reader := up_transport_reader u'\<rparr>"
        "hstep h ((a, any_role) # list_role ?q any_role) h'
          (fill_roles (up_transport_reader u') (up_transport_queue u'))" by blast
    have buf_ok: "buf_ok b" using heap_ok_buf_ok [OF own_heap_ok [OF own] b(1)] .
    have "pouch_bufview_is_ready (up_transport_reader u) h = Some True"
      using Some b buf_ok by (simp add: pouch_bufview_is_ready_def pouch_bufview_available_def buf_ok_def)
    moreover have "up_transport_reader u = \<lparr>bv_buf = Some a, bv_offset = ?n\<rparr>"
      using Some by (cases "up_transport_reader u") simp
    ultimately have "fill_loop maxlen acc u h = Some (out, u', h')"
      using True f(1) by (subst fill_loop.simps) simp
    moreover have "pending u h = drop ?n (contents b) @ concat (map (buf_contents h) ?q)"
      using Some b(1) by (simp add: pending_def reader_rest_def buf_contents_def)
    moreover have "hstep h (fill_roles (up_transport_reader u) ?q) h'
        (fill_roles (up_transport_reader u') (up_transport_queue u'))"
      using hstep_trans [OF s0 f(5)] Some by (simp add: fill_roles_def)
    ultimately show ?thesis using f(2-4) by (simp add: fill_spec_def)
  qed
qed

section \<open>The transport side and the invariant\<close>

lemma end_session_simps [simp]:
  "p_heap (end_session ops s) = p_heap s" "p_block (end_session ops s) = p_block s"
  "p_streams (end_session ops s) = p_streams s" "p_open_streams (end_session ops s) = p_open_streams s"
  "up_processing_queue (p_uplink (end_session ops s)) = up_processing_queue (p_uplink s)"
  "up_transport_queue (p_uplink (end_session ops s)) = up_transport_queue (p_uplink s)"
  "up_header (p_uplink (end_session ops s)) = up_header (p_uplink s)"
  "up_transport_reader (p_uplink (end_session ops s)) = up_transport_reader (p_uplink s)"
  "up_id (p_uplink (end_session ops s)) = up_id (p_uplink s)"
  "up_flags (p_uplink (end_session ops s)) = unset_bit SESSION_ACTIVE (up_flags (p_uplink s))"
  by (simp_all add: end_session_def clear_flag_def)

lemma end_session_safe: "uplink_inv s \<Longrightarrow> uplink_safe s (end_session ops s)"
  by (rule uplink_safe_same) simp_all

text \<open>The roles that the transport side does not touch while it pulls.\<close>

definition writer_roles :: "'c pouch \<Rightarrow> role list" where
  "writer_roles s = opt_role (p_block s) entry_role
     @ list_role (up_processing_queue (p_uplink s)) block_done @ stream_roles (p_streams s)"

lemma uplink_roles_transport:
  "mset (uplink_roles s) = mset (fill_roles (up_transport_reader (p_uplink s)) (up_transport_queue (p_uplink s))
     @ opt_role (up_header (p_uplink s)) any_role @ writer_roles s)"
  by (simp add: uplink_roles_def transport_roles_def fill_roles_def writer_roles_def)

lemma transport_step_safe:
  assumes "uplink_inv s"
    and step: "hstep (p_heap s) (fill_roles (up_transport_reader (p_uplink s)) (up_transport_queue (p_uplink s)))
      (p_heap s') (fill_roles (up_transport_reader (p_uplink s')) (up_transport_queue (p_uplink s')))"
    and "up_header (p_uplink s') = up_header (p_uplink s)" and "p_block s' = p_block s"
    and "up_processing_queue (p_uplink s') = up_processing_queue (p_uplink s)"
    and "p_streams s' = p_streams s" and "p_open_streams s' = p_open_streams s"
  shows "uplink_safe s s'"
proof -
  let ?R = "fill_roles (up_transport_reader (p_uplink s)) (up_transport_queue (p_uplink s))"
  have o: "own (p_heap s) ?R" by (rule own_subset [OF uplink_inv_own [OF assms(1)] uplink_roles_transport])
  have after: "mset (uplink_roles s') =
      mset (fill_roles (up_transport_reader (p_uplink s')) (up_transport_queue (p_uplink s'))
        @ opt_role (up_header (p_uplink s)) any_role @ writer_roles s)"
    using uplink_roles_transport [of s'] assms(3-6) by (simp add: writer_roles_def)
  have ok: "streams_ok s'"
    using uplink_inv_streams [OF assms(1)]
    by (rule streams_ok_mono) (use assms hstep_env(2) [OF step] in simp_all)
  show ?thesis
    by (rule uplink_safe_frame [OF assms(1) uplink_roles_transport refl o step role_le_refl after ok])
qed

lemma uplink_fill_step:
  assumes "uplink_inv s" and "session_is_active (p_uplink s)"
  shows "\<exists>res bs s'. pouch_uplink_fill ops (Some ()) maxlen s = Some ((res, length bs, bs), s')
    \<and> uplink_safe s s'
    \<and> bs = take maxlen (pending (p_uplink s) (p_heap s))
    \<and> pending (p_uplink s') (p_heap s') = drop maxlen (pending (p_uplink s) (p_heap s))
    \<and> (if res = POUCH_NO_MORE_DATA
       then \<not> pouch_is_open (p_uplink s) \<and> pending (p_uplink s') (p_heap s') = []
         \<and> \<not> session_is_active (p_uplink s')
       else res = POUCH_MORE_DATA \<and> up_flags (p_uplink s') = up_flags (p_uplink s))"
proof -
  let ?u = "p_uplink s"
  have o: "own (p_heap s) (fill_roles (up_transport_reader ?u) (up_transport_queue ?u))"
    by (rule own_subset [OF uplink_inv_own [OF assms(1)] uplink_roles_transport])
  from fill_loop_ok [OF o, of "[]" maxlen] obtain bs u h where
    l: "fill_loop maxlen [] ?u (p_heap s) = Some (bs, u, h)"
    and bs: "bs = take maxlen (pending ?u (p_heap s))"
    and rest: "pending u h = drop maxlen (pending ?u (p_heap s))"
    and u: "u = ?u\<lparr>up_transport_queue := up_transport_queue u, up_transport_reader := up_transport_reader u\<rparr>"
    and st: "hstep (p_heap s) (fill_roles (up_transport_reader ?u) (up_transport_queue ?u)) h
          (fill_roles (up_transport_reader u) (up_transport_queue u))"
    by (auto simp: fill_spec_def)
  let ?s = "s\<lparr>p_uplink := u, p_heap := h\<rparr>"
  have same: "up_header u = up_header ?u" "up_processing_queue u = up_processing_queue ?u"
    "up_flags u = up_flags ?u" by (subst u; simp)+
  have safe: "uplink_safe s ?s" by (rule transport_step_safe [OF assms(1)]) (use st same in simp_all)
  have safe': "uplink_safe s (end_session ops ?s)"
    using uplink_safe_trans [OF safe end_session_safe [OF uplink_safe_inv [OF safe]]] .
  obtain av where av: "pouch_bufview_available (up_transport_reader u) h = Some av"
    "av = 0 \<Longrightarrow> bv_buf (up_transport_reader u) = None"
  proof (cases "bv_buf (up_transport_reader u)")
    case (Some a)
    then obtain b where "store h a = Some b" "bv_offset (up_transport_reader u) < pb_bytes b" "buf_ok b"
      using hstep_own [OF st] heap_ok_buf_ok [OF own_heap_ok [OF hstep_own [OF st]]]
      by (auto simp: fill_roles_def own_Cons_iff reader_role_def)
    then show ?thesis using Some that by (simp add: pouch_bufview_available_def buf_ok_def)
  qed (simp add: pouch_bufview_available_def that)
  show ?thesis
  proof (cases "pouch_is_open u \<or> 0 < av \<or> up_transport_queue u \<noteq> []")
    case True
    then have "pouch_uplink_fill ops (Some ()) maxlen s = Some ((POUCH_MORE_DATA, length bs, bs), ?s)"
      using assms(2) l av(1) by (auto simp: pouch_uplink_fill_def)
    then show ?thesis using safe bs rest same(3) by (intro exI [of _ POUCH_MORE_DATA] exI [of _ bs] exI [of _ ?s]) simp
  next
    case False
    then have nil: "pending u h = []" using av(2) by (simp add: pending_def reader_rest_def)
    have "pouch_uplink_fill ops (Some ()) maxlen s = Some ((POUCH_NO_MORE_DATA, length bs, bs), end_session ops ?s)"
      using assms(2) l av(1) False by (auto simp: pouch_uplink_fill_def)
    moreover have "pending (p_uplink (end_session ops ?s)) h = pending u h" by (simp add: pending_def)
    ultimately show ?thesis using safe' bs rest nil False same(3)
      by (intro exI [of _ POUCH_NO_MORE_DATA] exI [of _ bs] exI [of _ "end_session ops ?s"])
         (simp add: pouch_is_open_def session_is_active_def)
  qed
qed

text \<open>The transport pulls packet after packet, with room \<open>m\<close> for each, until told to stop.\<close>

fun fill_packets ::
    "'c crypto_ops \<Rightarrow> nat list \<Rightarrow> 'c pouch \<Rightarrow> (u8 list list \<times> 'c pouch) option" where
  "fill_packets ops [] s = Some ([], s)"
| "fill_packets ops (m # ms) s =
     do { ((res, n, bs), s) \<leftarrow> pouch_uplink_fill ops (Some ()) m s;
          if res = POUCH_MORE_DATA
          then do { (rest, s) \<leftarrow> fill_packets ops ms s; Some (bs # rest, s) }
          else Some ([bs], s) }"

text \<open>
  Property C4. Filling transport packets. In a session, pulling with any packet sizes
  \<open>ms\<close> hands out, in order and without loss or duplication, the first \<open>sum_list ms\<close> bytes of
  what is pending (the rest of the reader's buffer, then the queued header and blocks) and leaves
  exactly the rest pending. Every call terminates, reads only inside live buffers, releases each
  exhausted buffer once and keeps the ownership invariant; no packet is longer than its room.
\<close>

theorem uplink_fill_packets:
  assumes "uplink_inv s" and "session_is_active (p_uplink s)"
  shows "\<exists>ps s'. fill_packets ops ms s = Some (ps, s') \<and> uplink_safe s s'
    \<and> concat ps = take (sum_list ms) (pending (p_uplink s) (p_heap s))
    \<and> pending (p_uplink s') (p_heap s') = drop (sum_list ms) (pending (p_uplink s) (p_heap s))
    \<and> length ps \<le> length ms \<and> (\<forall>i<length ps. length (ps ! i) \<le> ms ! i)"
  using assms
proof (induction ms arbitrary: s)
  case Nil
  then show ?case using uplink_safe_refl by auto
next
  case (Cons m ms)
  let ?p = "pending (p_uplink s) (p_heap s)"
  from uplink_fill_step [OF Cons.prems, of ops m] obtain res bs s1 where
    f: "pouch_uplink_fill ops (Some ()) m s = Some ((res, length bs, bs), s1)" "uplink_safe s s1"
      "bs = take m ?p" "pending (p_uplink s1) (p_heap s1) = drop m ?p"
    and r: "if res = POUCH_NO_MORE_DATA
       then \<not> pouch_is_open (p_uplink s) \<and> pending (p_uplink s1) (p_heap s1) = []
         \<and> \<not> session_is_active (p_uplink s1)
       else res = POUCH_MORE_DATA \<and> up_flags (p_uplink s1) = up_flags (p_uplink s)" by blast
  show ?case
  proof (cases "res = POUCH_NO_MORE_DATA")
    case True
    then have all: "length ?p \<le> m" using r f(4) by (simp add: drop_eq_Nil)
    then show ?thesis using f True
      by (intro exI [of _ "[bs]"] exI [of _ s1]) simp
  next
    case False
    then have "res = POUCH_MORE_DATA" "session_is_active (p_uplink s1)"
      using r Cons.prems(2) by (simp_all add: session_is_active_def)
    from Cons.IH [OF uplink_safe_inv [OF f(2)] this(2)] this(1) obtain ps s2 where
      n: "fill_packets ops ms s1 = Some (ps, s2)" "uplink_safe s1 s2"
        "concat ps = take (sum_list ms) (drop m ?p)"
        "pending (p_uplink s2) (p_heap s2) = drop (sum_list ms) (drop m ?p)"
        "length ps \<le> length ms" "\<forall>i<length ps. length (ps ! i) \<le> ms ! i" unfolding f(4) by blast
    have "\<forall>i<length (bs # ps). length ((bs # ps) ! i) \<le> (m # ms) ! i"
      using n(6) f(3) by (auto simp: nth_Cons split: nat.splits)
    then show ?thesis
      using f(1,3) n(1,3-5) \<open>res = POUCH_MORE_DATA\<close> uplink_safe_trans [OF f(2) n(2)] take_add [of m "sum_list ms" ?p]
      by (intro exI [of _ "bs # ps"] exI [of _ s2]) (simp add: add.commute)
  qed
qed

lemma uplink_fill_packets_witness:
  "\<exists>ps s'. fill_packets crypto_none [2, 3] (set_flag SESSION_ACTIVE (pouch_static (\<lambda>_. None) \<lparr>device_id = None\<rparr>))
      = Some (ps, s') \<and> concat ps = []"
proof -
  let ?s = "set_flag SESSION_ACTIVE (pouch_static (\<lambda>_. None) \<lparr>device_id = None\<rparr>)"
  have "uplink_safe (pouch_static (\<lambda>_. None) \<lparr>device_id = None\<rparr>) ?s"
    by (rule uplink_safe_same) (simp_all add: set_flag_def)
  then have "uplink_inv ?s" by (rule uplink_safe_inv)
  moreover have "session_is_active (p_uplink ?s)" "pending (p_uplink ?s) (p_heap ?s) = []"
    by (simp_all add: set_flag_def session_is_active_def flag_defs uplink_static_def pending_def reader_rest_def)
  ultimately show ?thesis using uplink_fill_packets [of ?s crypto_none "[2, 3]"] by auto
qed

section \<open>Finishing, starting and closing\<close>

lemma free_queue_step:
  assumes "own h (list_role q any_role @ R)"
  shows "\<exists>h'. free_queue q h = Some h' \<and> hstep h (list_role q any_role @ R) h' R"
  using assms
proof (induction q arbitrary: h)
  case Nil
  then show ?case by (simp add: hstep_refl)
next
  case (Cons a q)
  then have "own h ((a, any_role) # (list_role q any_role @ R))" by simp
  from hstep_free [OF this] obtain h1 where
    f: "buf_free (Some a) h = Some h1" "hstep h ((a, any_role) # list_role q any_role @ R) h1 (list_role q any_role @ R)"
    by blast
  from Cons.IH [OF hstep_own [OF f(2)]] obtain h2 where
    "free_queue q h1 = Some h2" "hstep h1 (list_role q any_role @ R) h2 R" by blast
  then show ?case using f hstep_trans [OF f(2)] by auto
qed

lemma free_opt_step:
  assumes "own h (opt_role p P @ R)"
  shows "\<exists>h'. buf_free p h = Some h' \<and> hstep h (opt_role p P @ R) h' R"
  using assms hstep_free [of h _ P R] by (cases p) (auto simp: hstep_refl)

lemma uplink_finish_step:
  assumes "uplink_inv s"
  shows "\<exists>s'. pouch_uplink_finish ops (Some ()) s = Some s' \<and> uplink_safe s s'
    \<and> transport_roles (p_uplink s') = [] \<and> up_id (p_uplink s') = up_id (p_uplink s) + 1
    \<and> up_flags (p_uplink s') = 0 \<and> up_header (p_uplink s') = None
    \<and> up_processing_queue (p_uplink s') = up_processing_queue (p_uplink s)
    \<and> p_block s' = p_block s \<and> p_streams s' = p_streams s"
proof -
  let ?u = "p_uplink s"
  let ?Q = "list_role (up_transport_queue ?u) any_role" and ?H = "opt_role (up_header ?u) any_role"
  let ?V = "opt_role (bv_buf (up_transport_reader ?u)) (reader_role (bv_offset (up_transport_reader ?u)))"
  have before: "mset (uplink_roles s) = mset ((?Q @ ?V @ ?H) @ writer_roles s)"
    by (simp add: uplink_roles_def transport_roles_def writer_roles_def)
  have o: "own (p_heap s) (?Q @ ?V @ ?H)" by (rule own_subset [OF uplink_inv_own [OF assms] before])
  from free_queue_step [OF o] obtain h1 where
    1: "free_queue (up_transport_queue ?u) (p_heap s) = Some h1" "hstep (p_heap s) (?Q @ ?V @ ?H) h1 (?V @ ?H)" by blast
  from free_opt_step [OF hstep_own [OF 1(2)]] obtain h2 where
    2: "buf_free (bv_buf (up_transport_reader ?u)) h1 = Some h2" "hstep h1 (?V @ ?H) h2 ?H" by blast
  have "own h2 (?H @ [])" using hstep_own [OF 2(2)] by simp
  from free_opt_step [OF this] obtain h3 where
    3: "buf_free (up_header ?u) h2 = Some h3" "hstep h2 (?H @ []) h3 []" by blast
  have st: "hstep (p_heap s) (?Q @ ?V @ ?H) h3 []"
    using hstep_trans [OF hstep_trans [OF 1(2) 2(2)]] 3(2) by simp
  let ?s = "s\<lparr>p_heap := h3, p_uplink := ?u\<lparr>up_transport_queue := [],
      up_transport_reader := \<lparr>bv_buf = None, bv_offset = 0\<rparr>, up_header := None, up_id := up_id ?u + 1, up_flags := 0\<rparr>\<rparr>"
  have after: "mset (uplink_roles ?s) = mset ([] @ writer_roles s)"
    by (simp add: uplink_roles_def transport_roles_def writer_roles_def)
  have ok: "streams_ok ?s"
    using uplink_inv_streams [OF assms] by (rule streams_ok_mono) (use hstep_env(2) [OF st] in simp_all)
  have safe: "uplink_safe s ?s"
    by (rule uplink_safe_frame [OF assms before refl o _ role_le_refl after ok]) (use st in simp)
  let ?s' = "if bit (up_flags ?u) SESSION_ACTIVE then end_session ops ?s else ?s"
  have "uplink_safe s ?s'"
    using safe uplink_safe_trans [OF safe end_session_safe [OF uplink_safe_inv [OF safe]]] by simp
  moreover have "pouch_uplink_finish ops (Some ()) s = Some ?s'"
    using 1(1) 2(1) 3(1) by (simp add: pouch_uplink_finish_def pouch_bufview_free_def Let_def)
  moreover have "unset_bit SESSION_ACTIVE (0 :: u32) = 0" by (rule bit_eqI) simp
  ultimately show ?thesis
    by (intro exI [of _ ?s']) (simp add: transport_roles_def)
qed

text \<open>
  Finishing an uplink releases everything the transport side holds: the queued
  buffers, the reader's buffer and an unsent header, each once, and nothing else. The flags are
  cleared, queued but unprocessed blocks stay for the next session, and the session id changes,
  so that every stream opened before is no longer valid.
\<close>

theorem uplink_finish_ok:
  assumes "uplink_inv s" and "stream_get sp s = Some st" and "st_session_id st = uplink_session_id s"
  shows "\<exists>s'. pouch_uplink_finish ops (Some ()) s = Some s' \<and> uplink_safe s s'
    \<and> transport_roles (p_uplink s') = [] \<and> up_flags (p_uplink s') = 0
    \<and> up_processing_queue (p_uplink s') = up_processing_queue (p_uplink s)
    \<and> pouch_stream_is_valid (Some sp) s = Some True \<and> pouch_stream_is_valid (Some sp) s' = Some False"
proof -
  from uplink_finish_step [OF assms(1), of ops] obtain s' where
    s': "pouch_uplink_finish ops (Some ()) s = Some s'" "uplink_safe s s'"
      "transport_roles (p_uplink s') = []" "up_id (p_uplink s') = up_id (p_uplink s) + 1"
      "up_flags (p_uplink s') = 0" "up_processing_queue (p_uplink s') = up_processing_queue (p_uplink s)"
      "p_streams s' = p_streams s" by blast
  then show ?thesis using assms(2,3)
    by (intro exI [of _ s']) (simp add: pouch_stream_is_valid_def stream_get_def uplink_session_id_def)
qed

lemma uplink_finish_ok_witness:
  "\<forall>ops. \<exists>s'. pouch_uplink_finish ops (Some ()) demo_stream = Some s'
    \<and> pouch_stream_is_valid (Some 0) s' = Some False"
proof -
  have "stream_get 0 demo_stream = Some \<lparr>st_id = 1, st_buf = 1, st_bytes = 0, st_session_id = 0\<rparr>"
    "st_session_id \<lparr>st_id = 1, st_buf = 1, st_bytes = 0, st_session_id = 0\<rparr> = uplink_session_id demo_stream"
    by (simp_all add: demo_stream_def stream_get_def uplink_session_id_def uplink_static_def)
  from uplink_finish_ok [OF demo_stream_ok(1) this] show ?thesis by blast
qed

text \<open>
  Starting: the result of the call, the session flag and the header, for any backend that honours
  the contract.
\<close>

context crypto_backend
begin

lemma uplink_start_step:
  assumes "uplink_inv s" and "encoder_ok enc" and "up_header (p_uplink s) = None"
    and hdr: "co_header_get ops (snd (co_pouch_start ops (snd (co_session_start ops (p_crypto s))))) = Some (err, info)"
  shows "\<exists>r s'. pouch_uplink_start ops enc s = Some (r, s') \<and> uplink_safe s s'
    \<and> up_processing_queue (p_uplink s') = up_processing_queue (p_uplink s)
    \<and> p_block s' = p_block s \<and> p_streams s' = p_streams s
    \<and> (r = None \<longrightarrow> up_header (p_uplink s') = None \<and> up_flags (p_uplink s') = up_flags (p_uplink s))
    \<and> (r = Some () \<longrightarrow> session_is_active (p_uplink s')
        \<and> (\<exists>a. up_header (p_uplink s') = Some a \<and> enc (co_header_max_len ops)
              \<lparr>ph_version = POUCH_HEADER_VERSION, ph_encryption_info = info\<rparr> = Inr (buf_contents (p_heap s') a))
        \<and> (up_processing_queue (p_uplink s') \<noteq> [] \<longrightarrow> up_processing_work (p_uplink s')))"
proof (cases "bit (up_flags (p_uplink s)) SESSION_ACTIVE")
  case True
  then show ?thesis using uplink_safe_refl [OF assms(1)] assms(3) by (simp add: pouch_uplink_start_def)
next
  case False
  obtain e1 c1 where 1: "co_session_start ops (p_crypto s) = (e1, c1)" by fastforce
  obtain e2 c2 where 2: "co_pouch_start ops c1 = (e2, c2)" by fastforce
  have flags: "unset_bit SESSION_ACTIVE (set_bit SESSION_ACTIVE (up_flags (p_uplink s))) = up_flags (p_uplink s)"
    using False by (intro bit_eqI) (auto simp: flag_defs intro!: gr0I)
  define undone where "undone c = clear_flag SESSION_ACTIVE ((set_flag SESSION_ACTIVE s)\<lparr>p_crypto := c\<rparr>)" for c
  have safe: "uplink_safe s (undone c)" "up_flags (p_uplink (undone c)) = up_flags (p_uplink s)" for c
    by (rule uplink_safe_same [OF assms(1)]) (simp_all add: undone_def set_flag_def clear_flag_def flags)
  have res: "p_uplink (undone c) = p_uplink s" "p_block (undone c) = p_block s" "p_streams (undone c) = p_streams s" for c
    by (simp_all add: undone_def set_flag_def clear_flag_def flags)
  show ?thesis
  proof (cases "is_err e1 \<or> is_err e2")
    case True
    then have "\<exists>c. pouch_uplink_start ops enc s = Some (None, undone c)"
      using False 1 2 by (auto simp: pouch_uplink_start_def undone_def Let_def set_flag_def)
    then show ?thesis using safe res assms(3) by auto
  next
    case ok: False
    let ?n = "co_header_max_len ops"
    let ?P = "\<lambda>b. enc ?n \<lparr>ph_version = POUCH_HEADER_VERSION, ph_encryption_info = info\<rparr> = Inr (contents b)"
    have o: "own (p_heap s) []" using uplink_inv_heap [OF assms(1)] by (simp add: own_def)
    have hg: "co_header_get ops c2 = Some (err, info)" using hdr 1 2 by simp
    obtain p h where
      c: "pouch_header_create ops enc c2 (p_heap s) = Some (p, h)" "hstep (p_heap s) [] h (opt_role p ?P @ [])"
      by (rule pouch_header_create_step [OF o assms(2) header_max_len hg])
    define s1 where "s1 = set_uplink (\<lambda>u. u\<lparr>up_header := p\<rparr>) ((set_flag SESSION_ACTIVE s)\<lparr>p_crypto := c2, p_heap := h\<rparr>)"
    have after: "mset (uplink_roles s1) = mset (opt_role p any_role @ uplink_roles s)"
      using assms(3) by (simp add: s1_def uplink_roles_def transport_roles_def set_flag_def)
    have ok1: "streams_ok s1"
      using uplink_inv_streams [OF assms(1)]
      by (rule streams_ok_mono) (use hstep_env(2) [OF c(2)] in \<open>simp_all add: s1_def set_flag_def\<close>)
    have le: "role_le (opt_role p ?P @ []) (opt_role p any_role)"
      by (cases p) (simp_all add: role_le_def any_role_def)
    have safe1: "uplink_safe s s1"
      by (rule uplink_safe_frame [OF assms(1) _ refl o _ le after ok1])
         (use c(2) in \<open>simp_all add: s1_def\<close>)
    show ?thesis
    proof (cases p)
      case None
      have "uplink_safe s1 (clear_flag SESSION_ACTIVE s1)"
        by (rule uplink_safe_same [OF uplink_safe_inv [OF safe1]]) (simp_all add: clear_flag_def)
      then have "uplink_safe s (clear_flag SESSION_ACTIVE s1)" by (rule uplink_safe_trans [OF safe1])
      moreover have "pouch_uplink_start ops enc s = Some (None, clear_flag SESSION_ACTIVE s1)"
        using False 1 2 ok c(1) None by (simp add: pouch_uplink_start_def Let_def s1_def set_flag_def)
      ultimately show ?thesis using None flags assms(3)
        by (simp add: s1_def clear_flag_def set_flag_def)
    next
      case (Some a)
      define s2 where "s2 = pouch_event_emit POUCH_EVENT_SESSION_START s1"
      let ?s' = "if up_processing_queue (p_uplink s2) = [] then s2 else submit_processing_work s2"
      have "uplink_safe s1 ?s'"
        by (rule uplink_safe_same [OF uplink_safe_inv [OF safe1]])
           (simp_all add: s2_def submit_processing_work_def)
      then have "uplink_safe s ?s'" by (rule uplink_safe_trans [OF safe1])
      moreover have "pouch_uplink_start ops enc s = Some (Some (), ?s')"
        using False 1 2 ok c(1) Some
        by (simp add: pouch_uplink_start_def Let_def s1_def s2_def set_flag_def)
      moreover have "enc ?n \<lparr>ph_version = POUCH_HEADER_VERSION, ph_encryption_info = info\<rparr>
          = Inr (buf_contents h a)"
        using hstep_own [OF c(2)] Some by (auto simp: own_Cons_iff buf_contents_def)
      ultimately show ?thesis using Some
        by (intro exI [of _ "Some ()"] exI [of _ ?s'])
           (auto simp: s1_def s2_def submit_processing_work_def set_flag_def session_is_active_def flag_defs)
    qed
  qed
qed

end

text \<open>The entry log does not depend on the flags or on the work item.\<close>

lemma entry_log_set_uplink:
  "up_processing_queue (f (p_uplink s)) = up_processing_queue (p_uplink s) \<Longrightarrow>
     entry_log (set_uplink f s) = entry_log s"
  "open_entries (set_uplink f s) es = open_entries s es"
  by (simp_all add: entry_log_def open_entries_def block_holds_def split: option.splits)

lemma uplink_close_step:
  assumes "uplink_inv s" and "open_entries s es"
  shows "\<exists>r s'. pouch_uplink_close lock s = Some (r, s') \<and> uplink_safe s s' \<and> entry_log s' = entry_log s
    \<and> (if pouch_is_closing (p_uplink s) then r = Err EALREADY \<and> s' = s
       else r = lock \<and> pouch_is_closing (p_uplink s') \<and> up_processing_work (p_uplink s')
         \<and> (if is_err lock then p_block s' = p_block s
            else p_block s' = None \<and> up_processing_queue (p_uplink s')
              = up_processing_queue (p_uplink s) @ (case p_block s of None \<Rightarrow> [] | Some a \<Rightarrow> [a])))"
proof (cases "pouch_is_closing (p_uplink s)")
  case True
  then show ?thesis using uplink_safe_refl [OF assms(1)]
    by (simp add: pouch_uplink_close_def pouch_is_closing_def)
next
  case False
  let ?s0 = "set_flag POUCH_CLOSING s"
  have s0: "uplink_safe s ?s0" by (rule uplink_safe_same [OF assms(1)]) (simp_all add: set_flag_def)
  have es: "open_entries ?s0 es" using assms(2) by (simp add: set_flag_def entry_log_set_uplink)
  from entry_block_close_step [OF uplink_safe_inv [OF s0] es, of lock] obtain s1 where
    s1: "entry_block_close lock ?s0 = Some (lock, s1)" "uplink_safe ?s0 s1" "entry_log s1 = entry_log ?s0"
      "if is_err lock then s1 = ?s0
       else p_block s1 = None \<and> up_processing_queue (p_uplink s1)
              = up_processing_queue (p_uplink ?s0) @ (case p_block ?s0 of None \<Rightarrow> [] | Some a \<Rightarrow> [a])" by blast
  have closing: "pouch_is_closing (p_uplink s1)"
    using s1(1) entry_block_close_flags [OF s1(1)]
    by (simp add: pouch_is_closing_def set_flag_def flag_defs)
  let ?s' = "submit_processing_work s1"
  have "uplink_safe s1 ?s'"
    by (rule uplink_safe_same [OF uplink_safe_inv [OF s1(2)]]) (simp_all add: submit_processing_work_def)
  then have "uplink_safe s ?s'" using s0 s1(2) by (blast intro: uplink_safe_trans)
  moreover have "pouch_uplink_close lock s = Some (lock, ?s')"
    using False s1(1) by (simp add: pouch_uplink_close_def pouch_is_closing_def)
  moreover have "entry_log ?s' = entry_log s"
    using s1(3) by (simp add: submit_processing_work_def set_flag_def entry_log_set_uplink)
  ultimately show ?thesis using False s1(4) closing
    by (intro exI [of _ lock] exI [of _ ?s'])
       (simp add: submit_processing_work_def pouch_is_closing_def set_flag_def split: if_splits)
qed

lemma uplink_start_frame:
  assumes "uplink_inv s" and "encoder_ok enc" and "co_header_max_len ops < SIZE_MOD"
    and "co_header_get ops (snd (co_pouch_start ops (snd (co_session_start ops (p_crypto s))))) = Some (err, info)"
    and "pouch_uplink_start ops enc s = Some (Some (), s')"
  shows "up_flags (p_uplink s') = set_bit SESSION_ACTIVE (up_flags (p_uplink s))"
    and "p_events s' = p_events (pouch_event_emit POUCH_EVENT_SESSION_START s)"
    and "up_transport_queue (p_uplink s') = up_transport_queue (p_uplink s)"
    and "up_transport_reader (p_uplink s') = up_transport_reader (p_uplink s)"
    and "\<forall>a\<in>live (p_heap s). store (p_heap s') a = store (p_heap s) a"
proof -
  obtain e1 c1 where 1: "co_session_start ops (p_crypto s) = (e1, c1)" by fastforce
  obtain e2 c2 where 2: "co_pouch_start ops c1 = (e2, c2)" by fastforce
  have o: "own (p_heap s) []" using uplink_inv_heap [OF assms(1)] by (simp add: own_def)
  have hg: "co_header_get ops c2 = Some (err, info)" using assms(4) 1 2 by simp
  obtain p h where
    c: "pouch_header_create ops enc c2 (p_heap s) = Some (p, h)" "\<forall>a\<in>foreign (p_heap s) []. store h a = store (p_heap s) a"
    by (rule pouch_header_create_step [OF o assms(2,3) hg]) (simp add: hstep_def)
  define s2 where "s2 = pouch_event_emit POUCH_EVENT_SESSION_START (set_uplink (\<lambda>u. u\<lparr>up_header := p\<rparr>)
      ((set_flag SESSION_ACTIVE s)\<lparr>p_crypto := c2, p_heap := h\<rparr>))"
  have s': "s' = (if up_processing_queue (p_uplink s2) = [] then s2 else submit_processing_work s2)"
    using assms(5) 1 2 c(1)
    by (auto simp: pouch_uplink_start_def Let_def s2_def set_flag_def split: if_splits option.splits)
  show "up_flags (p_uplink s') = set_bit SESSION_ACTIVE (up_flags (p_uplink s))"
    "p_events s' = p_events (pouch_event_emit POUCH_EVENT_SESSION_START s)"
    "up_transport_queue (p_uplink s') = up_transport_queue (p_uplink s)"
    "up_transport_reader (p_uplink s') = up_transport_reader (p_uplink s)"
    "\<forall>a\<in>live (p_heap s). store (p_heap s') a = store (p_heap s) a"
    using c(2) by (simp_all add: s' s2_def submit_processing_work_def set_flag_def pouch_event_emit_def foreign_def)
qed

text \<open>What the writers know is not touched by a step that keeps all live buffers.\<close>

lemma kept_heap:
  assumes "uplink_inv s" and "\<forall>a\<in>live (p_heap s). store (p_heap s') a = store (p_heap s) a"
    and "up_processing_queue (p_uplink s') = up_processing_queue (p_uplink s)" and "p_block s' = p_block s"
  shows "entry_log s' = entry_log s" and "open_entries s es \<Longrightarrow> open_entries s' es"
    and "up_transport_queue (p_uplink s') = up_transport_queue (p_uplink s) \<Longrightarrow>
      up_transport_reader (p_uplink s') = up_transport_reader (p_uplink s) \<Longrightarrow>
      pending (p_uplink s') (p_heap s') = pending (p_uplink s) (p_heap s)"
proof -
  have live: "a \<in> live (p_heap s)" if "(a, P) \<in> set (uplink_roles s)" for a P
    using ownD [OF uplink_inv_own [OF assms(1)] that] by (auto simp: live_def)
  have q: "store (p_heap s') a = store (p_heap s) a" if "a \<in> set (up_processing_queue (p_uplink s))" for a
    using live [of a block_done] assms(2) that by (simp add: uplink_roles_def)
  have b: "store (p_heap s') a = store (p_heap s) a" if "p_block s = Some a" for a
    using live [of a entry_role] assms(2) that by (simp add: uplink_roles_def)
  have t: "store (p_heap s') a = store (p_heap s) a" if "(a, P) \<in> set (transport_roles (p_uplink s))" for a P
    using live [of a P] assms(2) that by (simp add: uplink_roles_def)
  have "entries_of (p_heap s') a = entries_of (p_heap s) a"
    if "a \<in> set (up_processing_queue (p_uplink s)) \<or> p_block s = Some a" for a
    using q [of a] b [of a] that by (auto simp: entries_of_def buf_contents_def)
  then show "entry_log s' = entry_log s"
    by (auto simp: entry_log_def assms(3,4) intro!: arg_cong [where f = concat] split: option.splits)
  show "open_entries s' es" if "open_entries s es"
    using that b by (auto simp: open_entries_def block_holds_def assms(4) split: option.splits)
  show "pending (p_uplink s') (p_heap s') = pending (p_uplink s) (p_heap s)"
    if "up_transport_queue (p_uplink s') = up_transport_queue (p_uplink s)"
      "up_transport_reader (p_uplink s') = up_transport_reader (p_uplink s)"
  proof -
    have "\<forall>a\<in>fst ` set (transport_roles (p_uplink s)). store (p_heap s') a = store (p_heap s) a" using t by auto
    from pending_cong [OF this] that show ?thesis by (simp add: pending_def)
  qed
qed

lemma uplink_close_frame:
  assumes "uplink_inv s" and "open_entries s es" and "pouch_uplink_close lock s = Some (r, s')"
  shows "transport_frame s s'" and "\<not> pouch_is_closing (p_uplink s) \<Longrightarrow> up_flags (p_uplink s') = set_bit POUCH_CLOSING (up_flags (p_uplink s))"
proof -
  let ?s0 = "set_flag POUCH_CLOSING s"
  have "uplink_safe s ?s0" by (rule uplink_safe_same [OF assms(1)]) (simp_all add: set_flag_def)
  then have inv: "uplink_inv ?s0" by (rule uplink_safe_inv)
  have es: "open_entries ?s0 es" using assms(2) by (simp add: set_flag_def entry_log_set_uplink)
  have 0: "transport_frame s ?s0" by (simp add: transport_frame_def set_flag_def)
  have 1: "transport_frame s1 (submit_processing_work s1)" for s1 :: "'a pouch"
    by (simp add: transport_frame_def submit_processing_work_def)
  show "transport_frame s s'"
    using assms(3) transport_frame_refl
    by (auto simp: pouch_uplink_close_def bind_eq_Some_conv split: if_splits
        intro: transport_frame_trans [OF transport_frame_trans [OF 0 entry_block_close_frame [OF inv es]] 1])
  show "up_flags (p_uplink s') = set_bit POUCH_CLOSING (up_flags (p_uplink s))" if "\<not> pouch_is_closing (p_uplink s)"
    using assms(3) that entry_block_close_flags
    by (force simp: pouch_uplink_close_def bind_eq_Some_conv pouch_is_closing_def submit_processing_work_def set_flag_def
        split: if_splits)
qed

text \<open>
  Closing the pouch. The first call marks the pouch as closing, queues the open
  entry block, if any, behind everything queued before, schedules the processing, and loses no
  accepted entry; when the mutex cannot be taken in time the block stays open and its error is
  returned. A second call returns -EALREADY and changes nothing. The ownership invariant is kept.
\<close>

theorem uplink_close_ok:
  assumes "uplink_inv s" and "open_entries s es"
  shows "\<exists>r s'. pouch_uplink_close lock s = Some (r, s') \<and> uplink_safe s s' \<and> entry_log s' = entry_log s
    \<and> (if pouch_is_closing (p_uplink s) then r = Err EALREADY \<and> s' = s
       else r = lock \<and> pouch_is_closing (p_uplink s') \<and> up_processing_work (p_uplink s')
         \<and> (if is_err lock then p_block s' = p_block s
            else p_block s' = None \<and> up_processing_queue (p_uplink s')
              = up_processing_queue (p_uplink s) @ (case p_block s of None \<Rightarrow> [] | Some a \<Rightarrow> [a])))"
  using uplink_close_step [OF assms] .

lemma uplink_close_ok_witness:
  "\<exists>s'. pouch_uplink_close OK (pouch_static (\<lambda>_. None) ()) = Some (OK, s') \<and> pouch_is_closing (p_uplink s')
    \<and> up_processing_queue (p_uplink s') = []"
  using uplink_close_ok [of "pouch_static (\<lambda>_. None) ()" "[]" OK]
  by (auto simp: pouch_is_closing_def uplink_static_def)

section \<open>The plaintext pipeline\<close>

text \<open>The wire image of a sequence of blocks, and a reference parser for it.\<close>

definition blocks_wire :: "(u8 \<times> u8 list) list \<Rightarrow> u8 list" where
  "blocks_wire bs = concat (map (\<lambda>(bid, pl). block_wire bid pl) bs)"

function parse_blocks :: "u8 list \<Rightarrow> (u8 \<times> u8 list) list" where
  "parse_blocks bs =
     (if length bs < 3 then []
      else let n = unat (get_be16 bs) in
        (bs ! 2, take (n - 1) (drop 3 bs)) # parse_blocks (drop (3 + (n - 1)) bs))"
  by pat_completeness auto
termination
  by (relation "measure length") auto

declare parse_blocks.simps [simp del]

lemma blocks_wire_simps [simp]:
  "blocks_wire [] = []" "blocks_wire ((bid, pl) # bs) = block_wire bid pl @ blocks_wire bs"
  "blocks_wire (as @ bs) = blocks_wire as @ blocks_wire bs"
  by (simp_all add: blocks_wire_def)

lemma parse_blocks_wire:
  assumes "\<forall>(bid, pl)\<in>set bs. length pl \<le> 512"
  shows "parse_blocks (blocks_wire bs) = bs"
  using assms
proof (induction bs)
  case Nil
  show ?case by (simp add: parse_blocks.simps)
next
  case (Cons x bs)
  obtain bid pl where x: "x = (bid, pl)" by (cases x)
  let ?w = "block_wire bid pl @ blocks_wire bs"
  have len: "length pl \<le> 512" using Cons.prems x by simp
  have w: "?w = put_be16 (of_nat (Suc (length pl))) @ bid # pl @ blocks_wire bs"
    by (simp add: block_wire_def)
  have n: "unat (get_be16 ?w) = Suc (length pl)"
    using len unat_of_nat16 [of "Suc (length pl)"] by (simp only: w get_put_be16)
  have "?w ! 2 = bid" "drop 3 ?w = pl @ blocks_wire bs" by (simp_all add: w put_be16_def)
  moreover from this(2) have "drop (3 + length pl) ?w = blocks_wire bs"
    using drop_drop [of "length pl" 3 ?w] by (simp add: add.commute)
  moreover have "\<not> length ?w < 3" by (simp add: contents_block_wire_bytes)
  ultimately have "parse_blocks ?w = (bid, pl) # parse_blocks (blocks_wire bs)"
    by (subst parse_blocks.simps) (simp add: n Let_def)
  then show ?case using Cons x by simp
qed

lemma process_loop_none:
  assumes "session_is_active (p_uplink s)" and "pouch_is_open (p_uplink s)"
  shows "\<exists>s'. process_loop crypto_none s = Some s' \<and> p_heap s' = p_heap s
    \<and> up_flags (p_uplink s') = up_flags (p_uplink s)
    \<and> up_transport_reader (p_uplink s') = up_transport_reader (p_uplink s)
    \<and> up_processing_queue (p_uplink s') = []
    \<and> (if up_processing_queue (p_uplink s) = [] then s' = s
       else up_header (p_uplink s') = None \<and> up_transport_queue (p_uplink s') = up_transport_queue (p_uplink s)
         @ (case up_header (p_uplink s) of None \<Rightarrow> [] | Some a \<Rightarrow> [a]) @ up_processing_queue (p_uplink s))"
  using assms
proof (induction "up_processing_queue (p_uplink s)" arbitrary: s)
  case Nil
  then show ?case by (subst process_loop.simps) simp
next
  case (Cons a q)
  note q = Cons(2) [symmetric]
  obtain s1 where s1: "process_block crypto_none s = Some s1" "p_heap s1 = p_heap s"
      "up_flags (p_uplink s1) = up_flags (p_uplink s)" "up_processing_queue (p_uplink s1) = q"
      "up_transport_reader (p_uplink s1) = up_transport_reader (p_uplink s)" "up_header (p_uplink s1) = None"
      "up_transport_queue (p_uplink s1) = up_transport_queue (p_uplink s)
         @ (case up_header (p_uplink s) of None \<Rightarrow> [] | Some a \<Rightarrow> [a]) @ [a]"
    by (cases "up_header (p_uplink s)") (simp_all add: process_block_def q Let_def)
  have f: "session_is_active (p_uplink s1)" "pouch_is_open (p_uplink s1)"
    using Cons.prems s1(3) by (simp_all add: session_is_active_def pouch_is_open_def)
  from Cons(1) [OF s1(4) [symmetric] f] obtain s2 where
    s2: "process_loop crypto_none s1 = Some s2" "p_heap s2 = p_heap s1"
      "up_flags (p_uplink s2) = up_flags (p_uplink s1)"
      "up_transport_reader (p_uplink s2) = up_transport_reader (p_uplink s1)"
      "up_processing_queue (p_uplink s2) = []"
      "if q = [] then s2 = s1
       else up_header (p_uplink s2) = None \<and> up_transport_queue (p_uplink s2) = up_transport_queue (p_uplink s1)
         @ (case up_header (p_uplink s1) of None \<Rightarrow> [] | Some a \<Rightarrow> [a]) @ q" unfolding s1(4) by blast
  have "process_loop crypto_none s = Some s2"
    using Cons.prems s1(1) s2(1) q by (subst process_loop.simps) simp
  then show ?case using s1 s2 q by (auto split: if_splits)
qed

lemma pending_append:
  "pending (u\<lparr>up_transport_queue := up_transport_queue u @ q\<rparr>) h = pending u h @ concat (map (buf_contents h) q)"
  by (simp add: pending_def)

text \<open>The entries of a parsed block, and the queued blocks as pairs of id and payload.\<close>

definition block_entries :: "u8 \<times> u8 list \<Rightarrow> entry list" where
  "block_entries x = (if fst x AND BLOCK_ID_MASK = BLOCK_ID_ENTRY then decode_entries (snd x) else [])"

lemma queued_block:
  assumes "uplink_inv s" and "a \<in> set (up_processing_queue (p_uplink s))"
  obtains x where "buf_contents (p_heap s) a = block_wire (fst x) (snd x)" and "length (snd x) \<le> 512"
    and "entries_of (p_heap s) a = block_entries x"
proof -
  have "(a, block_done) \<in> set (uplink_roles s)" using assms(2) by (simp add: uplink_roles_def)
  from ownD [OF uplink_inv_own [OF assms(1)] this] obtain b bid pl where
    b: "store (p_heap s) a = Some b" "is_block b bid pl" "contents b = block_wire bid pl"
    by (auto simp: block_done_def)
  have "contents b ! 2 = bid" "drop 3 (contents b) = pl"
    by (simp_all add: b(3) block_wire_def put_be16_def)
  then show ?thesis using b is_block_bytes(2) [OF b(2)]
    by (intro that [of "(bid, pl)"]) (simp_all add: buf_contents_def entries_of_def block_entries_def)
qed

lemma queue_blocks:
  assumes "uplink_inv s"
  shows "set q \<subseteq> set (up_processing_queue (p_uplink s)) \<Longrightarrow>
    \<exists>bs. concat (map (buf_contents (p_heap s)) q) = blocks_wire bs \<and> (\<forall>(bid, pl)\<in>set bs. length pl \<le> 512)
      \<and> concat (map (entries_of (p_heap s)) q) = concat (map block_entries bs)"
proof (induction q)
  case Nil
  show ?case by (intro exI [of _ "[]"]) simp
next
  case (Cons a q)
  then obtain bs where bs: "concat (map (buf_contents (p_heap s)) q) = blocks_wire bs"
    "\<forall>(bid, pl)\<in>set bs. length pl \<le> 512"
    "concat (map (entries_of (p_heap s)) q) = concat (map block_entries bs)" by auto
  have "a \<in> set (up_processing_queue (p_uplink s))" using Cons.prems by simp
  then obtain x where "buf_contents (p_heap s) a = block_wire (fst x) (snd x)" "length (snd x) \<le> 512"
    "entries_of (p_heap s) a = block_entries x" by (rule queued_block [OF assms])
  then show ?case using bs
    by (intro exI [of _ "x # bs"]) (simp add: blocks_wire_def split_beta)
qed

lemma plaintext_step:
  assumes "uplink_inv s" and "session_is_active (p_uplink s)" and "pouch_is_open (p_uplink s)"
    and "p_block s = None" and "up_header (p_uplink s) = Some a"
    and "up_processing_queue (p_uplink s) \<noteq> []"
  shows "\<exists>s' bytes. process_blocks crypto_none s = Some s' \<and> up_processing_queue (p_uplink s') = []
    \<and> pending (p_uplink s') (p_heap s')
        = pending (p_uplink s) (p_heap s) @ buf_contents (p_heap s) a @ bytes
    \<and> concat (map block_entries (parse_blocks bytes)) = entry_log s"
proof -
  from process_loop_none [OF assms(2,3)] obtain s1 where
    s1: "process_loop crypto_none s = Some s1" "p_heap s1 = p_heap s" "up_processing_queue (p_uplink s1) = []"
      "up_transport_reader (p_uplink s1) = up_transport_reader (p_uplink s)"
      "up_transport_queue (p_uplink s1) = up_transport_queue (p_uplink s) @ [a] @ up_processing_queue (p_uplink s)"
    using assms(5,6) by auto
  obtain bs where bs: "concat (map (buf_contents (p_heap s)) (up_processing_queue (p_uplink s))) = blocks_wire bs"
    "\<forall>(bid, pl)\<in>set bs. length pl \<le> 512"
    "concat (map (entries_of (p_heap s)) (up_processing_queue (p_uplink s))) = concat (map block_entries bs)"
    using queue_blocks [OF assms(1) subset_refl] by blast
  let ?s' = "if pouch_is_closing (p_uplink s1) then set_flag POUCH_CLOSED s1 else s1"
  have "process_blocks crypto_none s = Some ?s'" using s1(1) by (simp add: process_blocks_def)
  moreover have "up_processing_queue (p_uplink ?s') = []" using s1(3) by (simp add: set_flag_def)
  moreover have "pending (p_uplink ?s') (p_heap ?s') = pending (p_uplink s) (p_heap s)
      @ buf_contents (p_heap s) a @ blocks_wire bs"
    using s1 bs(1) by (simp add: set_flag_def pending_def)
  moreover have "concat (map block_entries (parse_blocks (blocks_wire bs))) = entry_log s"
    unfolding parse_blocks_wire [OF bs(2)] using bs(3) assms(4) by (simp add: entry_log_def)
  ultimately show ?thesis by blast
qed

text \<open>
  Property C3. The plaintext pipeline is faithful. With the plaintext backend, an active session,
  an open pouch and the entry block closed, running the processing work appends to the pending
  bytes the header (once, in front of the first block) and a sequence of blocks; parsing that
  sequence with the reference parser and decoding the entry blocks gives back the log of accepted
  entries, in order and complete, and the processing queue is empty.
\<close>

theorem plaintext_pipeline:
  assumes "uplink_inv s" and "session_is_active (p_uplink s)" and "pouch_is_open (p_uplink s)"
    and "p_block s = None" and "up_header (p_uplink s) = Some a"
    and "up_processing_queue (p_uplink s) \<noteq> []"
  shows "\<exists>s' bytes. process_blocks crypto_none s = Some s' \<and> up_processing_queue (p_uplink s') = []
    \<and> pending (p_uplink s') (p_heap s')
        = pending (p_uplink s) (p_heap s) @ buf_contents (p_heap s) a @ bytes
    \<and> concat (map block_entries (parse_blocks bytes)) = entry_log s"
  by (rule plaintext_step [OF assms])

definition demo_done :: pouch_buf where
  "demo_done = \<lparr>pb_bytes = 11, pb_mem = block_wire 0xc0 (entry_wire ([0x61], 1, [7, 8])) @ replicate 504 0\<rparr>"

definition demo_session :: "crypto_none_state pouch" where
  "demo_session = (pouch_static (\<lambda>_. Some (\<lambda>_. 0)) \<lparr>device_id = Some [0x64]\<rparr>)
     \<lparr>p_heap := \<lparr>store = [0 \<mapsto> \<lparr>pb_bytes = 1, pb_mem = [0x99]\<rparr>, 1 \<mapsto> demo_done], next_addr = 2,
        malloc_oracle = (\<lambda>_. Some (\<lambda>_. 0)), bufs = 2\<rparr>,
      p_uplink := uplink_static\<lparr>up_header := Some 0, up_flags := 1, up_processing_queue := [1]\<rparr>\<rparr>"

lemma demo_done_ok: "block_done demo_done" "buf_ok demo_done"
  "is_block demo_done 0xc0 (entries_wire [([0x61], 1, [7, 8])])"
proof -
  have c: "contents demo_done = block_wire 0xc0 (entry_wire ([0x61], 1, [7, 8]))"
    by (simp add: demo_done_def contents_def block_wire_def entry_wire_def put_be16_def)
  show ok: "buf_ok demo_done"
    by (simp add: demo_done_def buf_ok_def cap_def SIZE_MOD_num block_wire_def entry_wire_def put_be16_def)
  have "cap demo_done = 515"
    by (simp add: demo_done_def cap_def block_wire_def entry_wire_def put_be16_def)
  with c ok show "block_done demo_done"
    by (auto simp: block_done_def is_block_def block_wire_def)
  from c ok \<open>cap demo_done = 515\<close> show "is_block demo_done 0xc0 (entries_wire [([0x61], 1, [7, 8])])"
    by (auto simp: is_block_def block_wire_def entries_wire_def)
qed

lemma demo_session_ok: "uplink_inv demo_session"
  using demo_done_ok
  by (auto simp: demo_session_def uplink_inv_def own_def heap_ok_def uplink_roles_def transport_roles_def
      uplink_static_def streams_ok_def stream_roles_def any_role_def buf_ok_def cap_def SIZE_MOD_num
      live_def pouch_static_def)

lemma plaintext_pipeline_witness:
  "\<exists>s' bytes. process_blocks crypto_none demo_session = Some s'
    \<and> pending (p_uplink s') (p_heap s') = [0x99] @ bytes
    \<and> concat (map block_entries (parse_blocks bytes)) = [([0x61], 1, [7, 8])]"
proof -
  have "session_is_active (p_uplink demo_session)" "pouch_is_open (p_uplink demo_session)"
    by (simp_all add: demo_session_def uplink_static_def session_is_active_def pouch_is_open_def flag_defs bit_1_iff)
  moreover have "p_block demo_session = None" "up_header (p_uplink demo_session) = Some 0"
    "up_processing_queue (p_uplink demo_session) \<noteq> []"
    by (simp_all add: demo_session_def uplink_static_def)
  moreover have "pending (p_uplink demo_session) (p_heap demo_session) = []"
    "buf_contents (p_heap demo_session) 0 = [0x99]" 
    by (simp_all add: demo_session_def uplink_static_def pending_def reader_rest_def buf_contents_def contents_def)
  moreover have "entries_of (p_heap demo_session) 1 = [([0x61], 1, [7, 8])]"
    by (rule entries_of_block [OF _ demo_done_ok(3)]) (simp_all add: demo_session_def entry_valid_def)
  then have "entry_log demo_session = [([0x61], 1, [7, 8])]"
    by (simp add: entry_log_def) (simp add: demo_session_def uplink_static_def)
  ultimately show ?thesis using plaintext_pipeline [OF demo_session_ok] by fastforce
qed

end
