(* ===== verification/Machine.thy ===== *)
theory Machine
  imports Uplink
begin

text \<open>
  The uplink side as a state machine: the calls the application and the transport make and the
  runs of the processing work, in any order. The step relation, its reachable states, and the
  proof that the ownership invariant holds in all of them and that no call, made as the API
  allows, runs into undefined behaviour or leaks a buffer.
\<close>

datatype uplink_call =
    Entry_write ret "u8 list option" u16 "u8 list option" nat
  | Stream_open "u8 list" u16
  | Stream_write "addr option" "u8 list" nat
  | Stream_close "addr option"
  | Uplink_close ret
  | Process
  | Uplink_start
  | Uplink_fill nat
  | Uplink_finish

fun uplink_exec ::
    "'c crypto_ops \<Rightarrow> header_encoder \<Rightarrow> uplink_call \<Rightarrow> 'c pouch \<Rightarrow> 'c pouch option" where
  "uplink_exec ops enc (Entry_write lock path ct data len) s =
     map_option snd (pouch_uplink_entry_write lock path ct data len s)"
| "uplink_exec ops enc (Stream_open path ct) s = map_option snd (pouch_uplink_stream_open path ct s)"
| "uplink_exec ops enc (Stream_write stream data len) s =
     map_option snd (pouch_stream_write stream data len s)"
| "uplink_exec ops enc (Stream_close stream) s = map_option snd (pouch_stream_close stream s)"
| "uplink_exec ops enc (Uplink_close lock) s = map_option snd (pouch_uplink_close lock s)"
| "uplink_exec ops enc Process s = run_processing_work ops s"
| "uplink_exec ops enc Uplink_start s = map_option snd (pouch_uplink_start ops enc s)"
| "uplink_exec ops enc (Uplink_fill maxlen) s = map_option snd (pouch_uplink_fill ops (Some ()) maxlen s)"
| "uplink_exec ops enc Uplink_finish s = pouch_uplink_finish ops (Some ()) s"

text \<open>
  What the API asks of the caller: the data is as long as it says, lengths fit \<^verbatim>\<open>size_t\<close>, a
  stream handle is NULL or open, a stream path fits its block, and a session is started only when
  the previous one was finished (no header is left) and the backend was initialised.
\<close>

fun call_ok :: "'c crypto_ops \<Rightarrow> uplink_call \<Rightarrow> 'c pouch \<Rightarrow> bool" where
  "call_ok ops (Entry_write lock path ct data len) s =
     (case (path, data) of (Some p, Some d) \<Rightarrow> len \<le> length d \<and> 5 + length p + len < SIZE_MOD | _ \<Rightarrow> True)"
| "call_ok ops (Stream_open path ct) s = (length path \<le> 509)"
| "call_ok ops (Stream_write stream data len) s =
     (len \<le> length data \<and> (\<forall>sp. stream = Some sp \<longrightarrow> stream_get sp s \<noteq> None))"
| "call_ok ops (Stream_close stream) s = (\<forall>sp. stream = Some sp \<longrightarrow> stream_get sp s \<noteq> None)"
| "call_ok ops Uplink_start s = (up_header (p_uplink s) = None \<and> co_header_get ops
     (snd (co_pouch_start ops (snd (co_session_start ops (p_crypto s))))) \<noteq> None)"
| "call_ok ops _ s = True"

inductive uplink_reachable ::
    "'c crypto_ops \<Rightarrow> header_encoder \<Rightarrow> 'c pouch \<Rightarrow> 'c pouch \<Rightarrow> bool" for ops enc s0 where
  init: "uplink_reachable ops enc s0 s0"
| call: "uplink_reachable ops enc s0 s \<Longrightarrow> call_ok ops c s \<Longrightarrow> uplink_exec ops enc c s = Some s' \<Longrightarrow>
    uplink_reachable ops enc s0 s'"

lemma stream_holds_ex:
  assumes "uplink_inv s" and "stream_get sp s = Some st"
  shows "\<exists>bid pl. stream_holds s sp bid pl"
proof -
  have "(sp, st) \<in> set (p_streams s)" using assms(2) by (auto simp: stream_get_def dest: map_of_SomeD)
  then have "(st_buf st, stream_role) \<in> set (uplink_roles s)"
    by (force simp: uplink_roles_def stream_roles_def)
  from ownD [OF uplink_inv_own [OF assms(1)] this] assms(2) show ?thesis
    by (auto simp: stream_holds_def stream_role_def)
qed

lemma stream_write_safe:
  assumes "uplink_inv s" and "len \<le> length data" and "\<forall>sp. stream = Some sp \<longrightarrow> stream_get sp s \<noteq> None"
  shows "\<exists>n s'. pouch_stream_write stream data len s = Some (n, s') \<and> uplink_safe s s'"
proof (cases stream)
  case None
  then show ?thesis using uplink_safe_refl [OF assms(1)]
    by (simp add: pouch_stream_write_def pouch_stream_is_valid_def)
next
  case (Some sp)
  then obtain st where st: "stream_get sp s = Some st" using assms(3) by auto
  obtain bid pl where h: "stream_holds s sp bid pl" using stream_holds_ex [OF assms(1) st] by blast
  show ?thesis
  proof (cases "st_session_id st = uplink_session_id s")
    case True
    from stream_write_step [OF assms(1) st True h assms(2)] Some show ?thesis by blast
  next
    case False
    then show ?thesis using Some st uplink_safe_refl [OF assms(1)]
      by (simp add: pouch_stream_write_def pouch_stream_is_valid_def)
  qed
qed

lemma stream_close_safe:
  assumes "uplink_inv s" and "\<forall>sp. stream = Some sp \<longrightarrow> stream_get sp s \<noteq> None"
  shows "\<exists>r s'. pouch_stream_close stream s = Some (r, s') \<and> uplink_safe s s'"
proof (cases stream)
  case None
  then show ?thesis using uplink_safe_refl [OF assms(1)] by (simp add: pouch_stream_close_def)
next
  case (Some sp)
  then obtain st where st: "stream_get sp s = Some st" using assms(2) by auto
  obtain bid pl where h: "stream_holds s sp bid pl" using stream_holds_ex [OF assms(1) st] by blast
  from stream_close_step [OF assms(1) st h] Some show ?thesis by blast
qed

lemma entry_write_total:
  assumes "uplink_inv s" and "call_ok ops (Entry_write lock path ct data len) s"
  shows "\<exists>r s'. pouch_uplink_entry_write lock path ct data len s = Some (r, s') \<and> uplink_safe s s'"
proof (cases "path = None \<or> data = None \<or> len = 0 \<or> is_err lock")
  case True
  then show ?thesis using uplink_safe_refl [OF assms(1)]
    by (cases path; cases data; cases lock; cases "len = 0") (auto simp: entry_write_rejects)
next
  case False
  then obtain p d where pd: "path = Some p" "data = Some d" "lock = OK" "0 < len"
    by (cases lock) auto
  then show ?thesis using entry_write_step [OF assms(1), of len d p ct] assms(2) by auto
qed

lemma uplink_close_safe:
  assumes "uplink_inv s"
  shows "\<exists>r s'. pouch_uplink_close lock s = Some (r, s') \<and> uplink_safe s s'"
proof (cases "bit (up_flags (p_uplink s)) POUCH_CLOSING")
  case True
  then show ?thesis using uplink_safe_refl [OF assms] by (simp add: pouch_uplink_close_def)
next
  case False
  let ?s0 = "set_flag POUCH_CLOSING s"
  have s0: "uplink_safe s ?s0" by (rule uplink_safe_same [OF assms]) (simp_all add: set_flag_def)
  from entry_block_close_safe [OF uplink_safe_inv [OF s0], of lock] obtain s1 where
    s1: "entry_block_close lock ?s0 = Some (lock, s1)" "uplink_safe ?s0 s1" by blast
  have "uplink_safe s1 (submit_processing_work s1)"
    by (rule uplink_safe_same [OF uplink_safe_inv [OF s1(2)]]) (simp_all add: submit_processing_work_def)
  then have "uplink_safe s (submit_processing_work s1)" using s0 s1(2) by (blast intro: uplink_safe_trans)
  then show ?thesis using False s1(1) by (simp add: pouch_uplink_close_def)
qed

lemma uplink_fill_safe:
  assumes "uplink_inv s"
  shows "\<exists>r s'. pouch_uplink_fill ops (Some ()) maxlen s = Some (r, s') \<and> uplink_safe s s'"
proof (cases "session_is_active (p_uplink s)")
  case True
  from uplink_fill_step [OF assms True, of ops maxlen] show ?thesis by blast
next
  case False
  then show ?thesis using uplink_safe_refl [OF assms] by (simp add: pouch_uplink_fill_def)
qed

context crypto_backend
begin

lemma run_processing_work_safe:
  assumes "uplink_inv s"
  shows "\<exists>s'. run_processing_work ops s = Some s' \<and> uplink_safe s s'"
proof (cases "up_processing_work (p_uplink s)")
  case True
  let ?s0 = "set_uplink (\<lambda>u. u\<lparr>up_processing_work := False\<rparr>) s"
  have s0: "uplink_safe s ?s0" by (rule uplink_safe_same [OF assms]) simp_all
  from process_blocks_step [OF uplink_safe_inv [OF s0]] obtain s1 where
    "process_blocks ops ?s0 = Some s1" "uplink_safe ?s0 s1" by blast
  then show ?thesis using True uplink_safe_trans [OF s0] by (auto simp: run_processing_work_def)
next
  case False
  then show ?thesis using uplink_safe_refl [OF assms] by (simp add: run_processing_work_def)
qed

text \<open>Progress: a call made as the API allows returns, and is safe.\<close>

lemma uplink_exec_safe:
  assumes "uplink_inv s" and "encoder_ok enc" and "call_ok ops c s"
  shows "\<exists>s'. uplink_exec ops enc c s = Some s' \<and> uplink_safe s s'"
proof (cases c)
  case (Entry_write lock path ct data len)
  with entry_write_total [OF assms(1) assms(3) [unfolded Entry_write]] show ?thesis by auto
next
  case (Stream_open path ct)
  with stream_open_step [OF assms(1), of path ct] assms(3) show ?thesis by auto
next
  case (Stream_write stream data len)
  with stream_write_safe [OF assms(1), of len data stream] assms(3) show ?thesis by auto
next
  case (Stream_close stream)
  with stream_close_safe [OF assms(1), of stream] assms(3) show ?thesis by auto
next
  case (Uplink_close lock)
  with uplink_close_safe [OF assms(1), of lock] show ?thesis by auto
next
  case Process
  with run_processing_work_safe [OF assms(1)] show ?thesis by simp
next
  case Uplink_start
  then obtain err info where "up_header (p_uplink s) = None" "co_header_get ops
      (snd (co_pouch_start ops (snd (co_session_start ops (p_crypto s))))) = Some (err, info)"
    using assms(3) by auto
  from uplink_start_step [OF assms(1,2) this] Uplink_start show ?thesis by auto
next
  case (Uplink_fill maxlen)
  with uplink_fill_safe [OF assms(1), of ops maxlen] show ?thesis by auto
next
  case Uplink_finish
  with uplink_finish_step [OF assms(1), of ops] show ?thesis by auto
qed

lemma uplink_reachable_safe:
  assumes "uplink_reachable ops enc s0 s" and "uplink_inv s0" and "encoder_ok enc"
  shows "uplink_safe s0 s"
  using assms(1)
proof (induction rule: uplink_reachable.induct)
  case init
  show ?case using assms(2) by (rule uplink_safe_refl)
next
  case (call s c s')
  from uplink_exec_safe [OF uplink_safe_inv [OF call.IH] assms(3) call.hyps(2)] call.hyps(3)
  show ?case using uplink_safe_trans [OF call.IH] by auto
qed

end

section \<open>From the static state\<close>

lemma static_safe:
  assumes "uplink_safe (pouch_static oracle c) s"
  shows "live (p_heap s) = fst ` set (uplink_roles s)"
    and "bufs (p_heap s) = int (length (uplink_roles s))"
proof -
  have f: "foreign (p_heap (pouch_static oracle c)) (uplink_roles (pouch_static oracle c)) = {}"
    by (simp add: foreign_def live_def pouch_static_def heap_static_def)
  from assms have h: "own (p_heap s) (uplink_roles s)" "foreign (p_heap s) (uplink_roles s) = {}"
    unfolding uplink_safe_def hstep_def f by blast+
  have "fst ` set (uplink_roles s) \<subseteq> live (p_heap s)" using h(1) by (force simp: own_def live_def)
  with h(2) show l: "live (p_heap s) = fst ` set (uplink_roles s)" by (auto simp: foreign_def)
  have "card (live (p_heap s)) = length (uplink_roles s)"
    using h(1) l distinct_card [of "map fst (uplink_roles s)"] by (simp add: own_def)
  then show "bufs (p_heap s) = int (length (uplink_roles s))" using h(1) by (simp add: own_def heap_ok_def live_def)
qed

text \<open>
  The plaintext build, whatever the application and the transport do. In every state
  that API calls reach from the static variables, in any order and with allocations failing at
  any point: the ownership invariant holds; the live buffers are exactly those the open block, the
  queues, the streams, the header and the reader hold, each held once, and the counter of
  \<^verbatim>\<open>buf_active_count()\<close> is their number, so nothing leaks; and the next call that the API
  allows returns, without undefined behaviour.
\<close>

theorem uplink_calls_safe:
  assumes "uplink_reachable crypto_none enc (pouch_static oracle c) s" and "encoder_ok enc"
  shows "uplink_inv s \<and> live (p_heap s) = fst ` set (uplink_roles s)
    \<and> buf_active_count (p_heap s) = int (length (uplink_roles s))
    \<and> (\<forall>call. call_ok crypto_none call s \<longrightarrow> (\<exists>s'. uplink_exec crypto_none enc call s = Some s'))"
proof -
  have safe: "uplink_safe (pouch_static oracle c) s"
    by (rule none.uplink_reachable_safe [OF assms(1) _ assms(2)]) simp
  then show ?thesis
    using uplink_safe_inv [OF safe] static_safe [OF safe]
      none.uplink_exec_safe [OF uplink_safe_inv [OF safe] assms(2)]
    by (simp add: buf_active_count_def) blast
qed

lemma uplink_calls_safe_witness:
  "\<exists>s s'. uplink_exec crypto_none (\<lambda>_ _. Inl 0) Uplink_start
      (pouch_static (\<lambda>_. None) \<lparr>device_id = Some []\<rparr>) = Some s
    \<and> uplink_inv s \<and> uplink_exec crypto_none (\<lambda>_ _. Inl 0) (Stream_open [0x61] 42) s = Some s'"
proof -
  let ?c = "Stream_open [0x61] 42" and ?enc = "\<lambda>_ _. Inl 0 :: nat + u8 list"
    and ?s0 = "pouch_static (\<lambda>_. None) \<lparr>device_id = Some []\<rparr>"
  have e: "encoder_ok ?enc" by (simp add: encoder_ok_def)
  have r0: "uplink_reachable crypto_none ?enc ?s0 ?s0" by (rule uplink_reachable.init)
  have c: "call_ok crypto_none Uplink_start ?s0"
    by (simp add: uplink_static_def) (simp add: crypto_none_def none_crypto_header_get_def)
  with uplink_calls_safe [OF r0 e] obtain s where
    s: "uplink_exec crypto_none ?enc Uplink_start ?s0 = Some s" by blast
  have "uplink_reachable crypto_none ?enc ?s0 s" by (rule uplink_reachable.call [OF r0 c s])
  note u = uplink_calls_safe [OF this e]
  have "call_ok crypto_none ?c s" by simp
  with u have "\<exists>s'. uplink_exec crypto_none ?enc ?c s = Some s'" by blast
  with s u show ?thesis by blast
qed

end
