(* ===== verification/Downlink.thy ===== *)
theory Downlink
  imports Entry Crypto
begin

text \<open>
  The downlink pipeline of \<^verbatim>\<open>src/downlink.c\<close>: bytes from the transport are collected in
  \<^verbatim>\<open>pouch_buf\<close>, the pouch header is parsed and cut off, complete blocks go to the decrypt queue,
  and two work items decrypt the blocks and hand them to the entry layer, one block per run.
\<close>

section \<open>Operations\<close>

definition set_downlink :: "(pouch_downlink \<Rightarrow> pouch_downlink) \<Rightarrow> 'c pouch \<Rightarrow> 'c pouch" where
  "set_downlink f s = s\<lparr>p_downlink := f (p_downlink s)\<rparr>"

definition downlink_init :: "'c pouch \<Rightarrow> 'c pouch" where
  "downlink_init = set_downlink (\<lambda>d. d\<lparr>dl_decrypt_queue := buf_queue_init, dl_decrypt_work := False,
     dl_consume_queue := buf_queue_init, dl_consume_work := False\<rparr>)"

definition consume_blocks ::
    "'w pouch_downlink_handler list \<Rightarrow> 'w \<Rightarrow> 'c pouch \<Rightarrow> ('w \<times> 'c pouch) option" where
  "consume_blocks hs w s =
     (case buf_queue_get (dl_consume_queue (p_downlink s)) of
        (None, q) \<Rightarrow> Some (w, s)
      | (Some buf, q) \<Rightarrow> do {
          w \<leftarrow> pouch_downlink_block_push hs buf (p_heap s) w;
          h \<leftarrow> buf_free (Some buf) (p_heap s);
          Some (w, set_downlink (\<lambda>d. d\<lparr>dl_consume_queue := q,
            dl_consume_work := (dl_consume_work d \<or> \<not> buf_queue_is_empty q)\<rparr>) (s\<lparr>p_heap := h\<rparr>)) })"

definition decrypt_blocks :: "'c crypto_ops \<Rightarrow> 'c pouch \<Rightarrow> 'c pouch option" where
  "decrypt_blocks ops s =
     (let (block, q) = buf_queue_get (dl_decrypt_queue (p_downlink s)) in
      do { (decrypted, c, h) \<leftarrow> co_decrypt_block ops block (p_crypto s) (p_heap s);
           let s = set_downlink (\<lambda>d. d\<lparr>dl_decrypt_queue := q\<rparr>) (s\<lparr>p_crypto := c, p_heap := h\<rparr>);
           case decrypted of
             None \<Rightarrow> Some s
           | Some a \<Rightarrow> Some (set_downlink (\<lambda>d. d\<lparr>dl_consume_queue := buf_queue_submit (dl_consume_queue d) a,
               dl_consume_work := True,
               dl_decrypt_work := (dl_decrypt_work d \<or> \<not> buf_queue_is_empty q)\<rparr>) s) })"

text \<open>The work queues run an item when it is pending; the flag is cleared first.\<close>

definition run_consume_work ::
    "'w pouch_downlink_handler list \<Rightarrow> 'w \<Rightarrow> 'c pouch \<Rightarrow> ('w \<times> 'c pouch) option" where
  "run_consume_work hs w s =
     (if dl_consume_work (p_downlink s)
      then consume_blocks hs w (set_downlink (\<lambda>d. d\<lparr>dl_consume_work := False\<rparr>) s) else Some (w, s))"

definition run_decrypt_work :: "'c crypto_ops \<Rightarrow> 'c pouch \<Rightarrow> 'c pouch option" where
  "run_decrypt_work ops s =
     (if dl_decrypt_work (p_downlink s)
      then decrypt_blocks ops (set_downlink (\<lambda>d. d\<lparr>dl_decrypt_work := False\<rparr>) s) else Some s)"

definition block_downlink_push :: "addr \<Rightarrow> 'c pouch \<Rightarrow> 'c pouch" where
  "block_downlink_push a = set_downlink (\<lambda>d. d\<lparr>
     dl_decrypt_queue := buf_queue_submit (dl_decrypt_queue d) a, dl_decrypt_work := True\<rparr>)"

definition dl_max :: "'c crypto_ops \<Rightarrow> nat" where
  "dl_max ops = MAX_CIPHERTEXT_BLOCK_SIZE (co_auth_tag_len ops)"

definition pouch_downlink_start :: "'c crypto_ops \<Rightarrow> 'c pouch \<Rightarrow> 'c pouch" where
  "pouch_downlink_start ops s =
     (let s = set_downlink (\<lambda>d. d\<lparr>dl_pouch_header := False\<rparr>) s;
          (p, h) = buf_alloc (dl_max ops) (p_heap s) in
      set_downlink (\<lambda>d. d\<lparr>dl_pouch_buf := p\<rparr>) (s\<lparr>p_heap := h\<rparr>))"

text \<open>The result is the error code, the header length, and the state of the backend.\<close>

definition pouch_downlink_parse_header ::
    "'c crypto_ops \<Rightarrow> header_decoder \<Rightarrow> pouch_bufview \<Rightarrow> heap \<Rightarrow> 'c \<Rightarrow> (ret \<times> nat \<times> 'c) option" where
  "pouch_downlink_parse_header ops dec v h c =
     do { (header_raw, v) \<leftarrow> pouch_bufview_read v 0 h;
          len \<leftarrow> pouch_bufview_available v h;
          p \<leftarrow> header_raw;
          bytes \<leftarrow> ptr_read p len h;
          case dec bytes of
            Inl e \<Rightarrow> Some (Err EIO, 0, c)
          | Inr (header, header_len) \<Rightarrow>
              let (err, c) = co_downlink_start ops (ph_encryption_info header) c in
              Some (err, header_len, c) }"

text \<open>Cutting the complete block off \<^verbatim>\<open>pouch_buf\<close>: the view is behind the size field.\<close>

definition extract_block :: "'c crypto_ops \<Rightarrow> addr \<Rightarrow> pouch_bufview \<Rightarrow> nat \<Rightarrow> 'c pouch \<Rightarrow> 'c pouch option" where
  "extract_block ops a v block_size s =
     (let (p, h) = buf_alloc (dl_max ops) (p_heap s);
          s = set_downlink (\<lambda>d. d\<lparr>dl_pouch_buf := p\<rparr>) (s\<lparr>p_heap := h\<rparr>) in
      do { available \<leftarrow> pouch_bufview_available v (p_heap s);
           s \<leftarrow> (case p of
               None \<Rightarrow> Some s
             | Some new \<Rightarrow>
                 if block_size < available then do {
                   (q, v) \<leftarrow> pouch_bufview_read v 0 (p_heap s);
                   (base, off) \<leftarrow> q;
                   let remaining_len = available - block_size;
                   remaining \<leftarrow> ptr_read (base, off + block_size) remaining_len (p_heap s);
                   h \<leftarrow> upd_buf new (\<lambda>b. buf_write b remaining) (p_heap s);
                   (_, h) \<leftarrow> with_buf a (\<lambda>b. Some (buf_trim_end b remaining_len)) h;
                   Some (s\<lparr>p_heap := h\<rparr>) }
                 else Some s);
           Some (block_downlink_push a s) })"

text \<open>
  The part of the loop body behind the header: \<open>False\<close> in the result means that the function
  returns.
\<close>

definition push_block :: "'c crypto_ops \<Rightarrow> addr \<Rightarrow> pouch_bufview \<Rightarrow> 'c pouch \<Rightarrow> (bool \<times> 'c pouch) option" where
  "push_block ops a v s =
     do { available \<leftarrow> pouch_bufview_available v (p_heap s);
          if 2 < available then do {
            (size_field, v) \<leftarrow> pouch_bufview_read_be16 v (p_heap s);
            let block_size = unat size_field;
            if MAX_BLOCK_SIZE_FIELD_VALUE (co_auth_tag_len ops) < block_size then Some (False, s)
            else do {
              available \<leftarrow> pouch_bufview_available v (p_heap s);
              if block_size \<le> available
              then do { s \<leftarrow> extract_block ops a v block_size s; Some (True, s) }
              else Some (True, s) } }
          else Some (True, s) }"

text \<open>The part of the loop body that parses the header and cuts it off.\<close>

definition push_header ::
    "'c crypto_ops \<Rightarrow> header_decoder \<Rightarrow> addr \<Rightarrow> pouch_bufview \<Rightarrow> 'c pouch \<Rightarrow> (ret \<times> 'c pouch) option" where
  "push_header ops dec a v s =
     do { (err, header_len, c) \<leftarrow> pouch_downlink_parse_header ops dec v (p_heap s) (p_crypto s);
          let s = s\<lparr>p_crypto := c\<rparr>;
          if is_err err then Some (err, s)
          else do {
            let s = set_downlink (\<lambda>d. d\<lparr>dl_pouch_header := True\<rparr>) s;
            (_, h) \<leftarrow> with_buf a (\<lambda>b. buf_trim_start b header_len) (p_heap s);
            Some (OK, s\<lparr>p_heap := h\<rparr>) } }"

text \<open>One pass through the loop: the data that is left, or \<open>None\<close> when the function returns.\<close>

definition push_pass ::
    "'c crypto_ops \<Rightarrow> header_decoder \<Rightarrow> u8 list \<Rightarrow> 'c pouch \<Rightarrow> (u8 list option \<times> 'c pouch) option" where
  "push_pass ops dec data s =
     (case dl_pouch_buf (p_downlink s) of
        None \<Rightarrow> Some (None, s)
      | Some a \<Rightarrow> do {
          sz \<leftarrow> read_buf a buf_size_get (p_heap s);
          if dl_max ops \<le> sz then Some (None, s)
          else do {
            let buf_written = min (length data) (dl_max ops - sz);
            h \<leftarrow> upd_buf a (\<lambda>b. buf_write b (take buf_written data)) (p_heap s);
            let s = s\<lparr>p_heap := h\<rparr>;
            let data = drop buf_written data;
            let v = pouch_bufview_init a;
            (err, s) \<leftarrow> (if dl_pouch_header (p_downlink s) then Some (OK, s) else push_header ops dec a v s);
            if is_err err then Some (None, s)
            else do {
              (go, s) \<leftarrow> push_block ops a v s;
              Some (if go then Some data else None, s) } } })"

partial_function (option) pouch_downlink_push ::
    "'c crypto_ops \<Rightarrow> header_decoder \<Rightarrow> u8 list \<Rightarrow> 'c pouch \<Rightarrow> 'c pouch option" where
  "pouch_downlink_push ops dec buf s =
     (if buf = [] then Some s
      else do {
        (rest, s) \<leftarrow> push_pass ops dec buf s;
        case rest of None \<Rightarrow> Some s | Some buf \<Rightarrow> pouch_downlink_push ops dec buf s })"

definition pouch_downlink_finish :: "'c pouch \<Rightarrow> 'c pouch" where
  "pouch_downlink_finish s = s"

section \<open>Frames\<close>

text \<open>
  The bytes behind the header are a sequence of frames: a size field and that many bytes. A
  frame is complete, or the end of what has arrived so far.
\<close>

definition frame_len :: "u8 list \<Rightarrow> nat" where
  "frame_len ys = 2 + unat (get_be16 ys)"

definition valid_frame :: "nat \<Rightarrow> u8 list \<Rightarrow> bool" where
  "valid_frame M b \<longleftrightarrow> 2 < length b \<and> length b = frame_len b \<and> length b \<le> M"

definition incomplete :: "nat \<Rightarrow> u8 list \<Rightarrow> bool" where
  "incomplete M rem \<longleftrightarrow> length rem \<le> 2 \<or> (length rem < frame_len rem \<and> frame_len rem \<le> M)"

lemma get_be16_append: "2 \<le> length xs \<Longrightarrow> get_be16 (xs @ ys) = get_be16 xs"
  by (cases xs) (auto simp: get_be16_def nth_append)

lemma frame_len_append: "2 \<le> length xs \<Longrightarrow> frame_len (xs @ ys) = frame_len xs"
  by (simp add: frame_len_def get_be16_append)

text \<open>What a prefix of a well-framed sequence looks like.\<close>

lemma prefix_first_frame:
  assumes "ys @ zs = b @ rest" and "valid_frame M b" and "2 < length ys"
  shows "frame_len ys = length b"
proof -
  have "frame_len ys = frame_len (ys @ zs)" using assms(3) by (simp add: frame_len_append)
  also have "\<dots> = frame_len b" using assms(1,2) by (simp add: frame_len_append valid_frame_def)
  finally show ?thesis using assms(2) by (simp add: valid_frame_def)
qed

lemma prefix_incomplete:
  assumes "ys @ zs = rem" and "incomplete M rem"
  shows "incomplete M ys"
  using assms frame_len_append [of ys zs] by (auto simp: incomplete_def)

section \<open>Ownership\<close>

text \<open>A collecting buffer that holds the bytes \<open>xs\<close>.\<close>

definition holding :: "nat \<Rightarrow> u8 list \<Rightarrow> pouch_buf \<Rightarrow> bool" where
  "holding M xs b \<longleftrightarrow> cap b = M \<and> contents b = xs"

definition dl_state :: "'c pouch \<Rightarrow> heap \<Rightarrow> addr option \<Rightarrow> addr list \<Rightarrow> 'c pouch" where
  "dl_state s h p fl = s\<lparr>p_heap := h, p_downlink := (p_downlink s)\<lparr>dl_pouch_buf := p,
     dl_decrypt_queue := dl_decrypt_queue (p_downlink s) @ fl,
     dl_decrypt_work := (dl_decrypt_work (p_downlink s) \<or> fl \<noteq> [])\<rparr>\<rparr>"

lemma dl_state_simps [simp]:
  "p_heap (dl_state s h p fl) = h" "dl_pouch_buf (p_downlink (dl_state s h p fl)) = p"
  "dl_pouch_header (p_downlink (dl_state s h p fl)) = dl_pouch_header (p_downlink s)"
  "dl_decrypt_queue (p_downlink (dl_state s h p fl)) = dl_decrypt_queue (p_downlink s) @ fl"
  "dl_consume_queue (p_downlink (dl_state s h p fl)) = dl_consume_queue (p_downlink s)"
  "dl_state (dl_state s h p fl) h' p' fl' = dl_state s h' p' (fl @ fl')"
  "p_crypto (dl_state s h p fl) = p_crypto s"
  by (simp_all add: dl_state_def)

lemma set_downlink_simps [simp]:
  "p_heap (set_downlink f s) = p_heap s" "p_downlink (set_downlink f s) = f (p_downlink s)"
  "p_crypto (set_downlink f s) = p_crypto s"
  by (simp_all add: set_downlink_def)

lemma holding_write:
  assumes "own h ((a, holding M xs) # R)" and "length xs + length d \<le> M"
  obtains h' where "upd_buf a (\<lambda>b. buf_write b d) h = Some h'"
    and "hstep h ((a, holding M xs) # R) h' ((a, holding M (xs @ d)) # R)"
proof -
  have step: "\<exists>b'. buf_write b d = Some b' \<and> holding M (xs @ d) b' \<and> buf_ok b'"
    if "holding M xs b" "buf_ok b" for b
  proof -
    have "fits b (length d)" using that assms(2) by (auto simp: holding_def fits_def)
    then show ?thesis using that append_buf_simps [of b d] by (simp add: buf_write_fits holding_def)
  qed
  show ?thesis
    by (rule upd_buf_hstep [OF assms(1), where f = "\<lambda>b. buf_write b d" and Q = "holding M (xs @ d)"])
       (use step that in blast)+
qed

lemma holding_trim_end:
  assumes "own h ((a, holding M (xs @ d)) # R)"
  obtains h' where "with_buf a (\<lambda>b. Some (buf_trim_end b (length d))) h = Some (length d, h')"
    and "hstep h ((a, holding M (xs @ d)) # R) h' ((a, holding M xs) # R)"
proof -
  have step: "\<exists>b'. Some (buf_trim_end b (length d)) = Some (length d, b') \<and> holding M xs b' \<and> buf_ok b'"
    if "holding M (xs @ d) b" "buf_ok b" for b
  proof -
    have len: "pb_bytes b = length xs + length d" using that length_contents [of b] by (simp add: holding_def)
    note t = buf_trim_end_ok [OF that(2), of "length d"]
    have "holding M xs (snd (buf_trim_end b (length d)))"
      using that(1) t(1,3) len by (simp add: holding_def)
    then show ?thesis using t(2,5) len by (cases "buf_trim_end b (length d)") simp
  qed
  show ?thesis
    by (rule with_buf_hstep [OF assms, where f = "\<lambda>b. Some (buf_trim_end b (length d))"
          and Q = "holding M xs" and r = "length d"]) (use step that in blast)+
qed

lemma holding_view:
  assumes "own h ((a, holding M xs) # R)"
  obtains b where "store h a = Some b" "contents b = xs" "cap b = M" "buf_ok b" "pb_bytes b = length xs"
    "view_at (pouch_bufview_init a) h b 0"
proof -
  obtain b where b: "store h a = Some b" "holding M xs b" "buf_ok b" using ownD [OF assms, of a] by auto
  then show ?thesis using length_contents [of b] by (intro that [of b]) (auto simp: holding_def view_at_init)
qed

lemma alloc_holding:
  assumes "own h R" and "M < SIZE_MOD"
  obtains p h' where "buf_alloc M h = (p, h')" "p = None \<longleftrightarrow> malloc_oracle h (next_addr h) = None"
    "hstep h R h' (opt_role p (holding M []) @ R)"
proof (cases rule: buf_alloc_cases [OF own_heap_ok [OF assms(1)] assms(2)])
  case (1 h')
  then show ?thesis using hstep_nop [OF assms(1), of h'] by (intro that [of None h']) auto
next
  case (2 a b h')
  then show ?thesis using hstep_alloc [OF assms(1), of h' a b "holding M []"]
    by (intro that [of "Some a" h']) (auto simp: holding_def)
qed

lemma available_at:
  assumes "own h ((a, holding M xs) # R)" and "n \<le> length xs"
  shows "pouch_bufview_available \<lparr>bv_buf = Some a, bv_offset = n\<rparr> h = Some (length xs - n)"
    and "\<exists>b. view_at \<lparr>bv_buf = Some a, bv_offset = n\<rparr> h b n \<and> contents b = xs \<and> pb_bytes b = length xs"
proof -
  obtain b where b: "store h a = Some b" "contents b = xs" "cap b = M" "buf_ok b" "pb_bytes b = length xs"
      "view_at (pouch_bufview_init a) h b 0"
    by (rule holding_view [OF assms(1)])
  have v: "view_at \<lparr>bv_buf = Some a, bv_offset = n\<rparr> h b n" using b assms(2) by (simp add: view_at_def)
  show "pouch_bufview_available \<lparr>bv_buf = Some a, bv_offset = n\<rparr> h = Some (length xs - n)"
    using pouch_bufview_available_view [OF v] b(5) by simp
  show "\<exists>b. view_at \<lparr>bv_buf = Some a, bv_offset = n\<rparr> h b n \<and> contents b = xs \<and> pb_bytes b = length xs"
    using v b(2,5) by blast
qed

lemma read_size_field:
  assumes "own h ((a, holding M xs) # R)" and "2 \<le> length xs"
  shows "pouch_bufview_read_be16 (pouch_bufview_init a) h
    = Some (get_be16 xs, \<lparr>bv_buf = Some a, bv_offset = 2\<rparr>)"
proof -
  obtain b where b: "store h a = Some b" "contents b = xs" "buf_ok b" "pb_bytes b = length xs"
      "view_at (pouch_bufview_init a) h b 0"
    by (rule holding_view [OF assms(1)])
  have "0 + 2 \<le> pb_bytes b" using b assms(2) by simp
  from bufview_read_view [OF b(5) this] obtain p v' where
    r: "bufview_read (pouch_bufview_init a) 2 = Some (p, v')" "ptr_read p 2 h = Some (take 2 xs)"
    using b(2) by auto
  have "v' = \<lparr>bv_buf = Some a, bv_offset = 2\<rparr>"
    using r(1) by (auto simp: bufview_read_def pouch_bufview_init_def SIZE_MOD_num)
  moreover have "get_be16 (take 2 xs) = get_be16 xs"
    using get_be16_append [of "take 2 xs" "drop 2 xs"] assms(2) by simp
  ultimately show ?thesis using r by (simp add: pouch_bufview_read_be16_def)
qed

lemma read_rest:
  assumes "own h ((a, holding M xs) # R)" and "n + k \<le> length xs"
  shows "pouch_bufview_read \<lparr>bv_buf = Some a, bv_offset = n\<rparr> 0 h
      = Some (Some (a, n), \<lparr>bv_buf = Some a, bv_offset = n\<rparr>)"
    and "ptr_read (a, n + k) (length xs - n - k) h = Some (drop (n + k) xs)"
proof -
  obtain b where b: "store h a = Some b" "contents b = xs" "cap b = M" "buf_ok b" "pb_bytes b = length xs"
      "view_at (pouch_bufview_init a) h b 0"
    by (rule holding_view [OF assms(1)])
  have n: "n < SIZE_MOD" using b(4,5) assms(2) by (simp add: buf_ok_def)
  then show "pouch_bufview_read \<lparr>bv_buf = Some a, bv_offset = n\<rparr> 0 h
      = Some (Some (a, n), \<lparr>bv_buf = Some a, bv_offset = n\<rparr>)"
    using available_at(1) [OF assms(1), of n] assms(2)
    by (simp add: pouch_bufview_read_def bufview_read_def)
  have "mem_read (pb_mem b) (n + k) (length xs - n - k) = Some (drop (n + k) xs)"
  proof -
    have "take (length xs - n - k) (drop (n + k) (pb_mem b)) = drop (n + k) (contents b)"
      using b(5) by (simp add: contents_def drop_take)
    then show ?thesis using assms(2) b(2,4,5) by (simp add: mem_read_def buf_ok_def cap_def)
  qed
  then show "ptr_read (a, n + k) (length xs - n - k) h = Some (drop (n + k) xs)"
    using b(1) by (simp add: ptr_read_def)
qed

lemma extract_block_cases:
  assumes own: "own (p_heap s) [(a, holding M ys)]" and k: "2 + k \<le> length ys"
    and M: "M = dl_max ops" "M < SIZE_MOD" "length ys \<le> M"
  obtains (fail) h where "extract_block ops a \<lparr>bv_buf = Some a, bv_offset = 2\<rparr> k s = Some (dl_state s h None [a])"
      "hstep (p_heap s) [(a, holding M ys)] h [(a, holding M ys)]"
      "malloc_oracle (p_heap s) (next_addr (p_heap s)) = None"
    | (ok) h a' where
      "extract_block ops a \<lparr>bv_buf = Some a, bv_offset = 2\<rparr> k s = Some (dl_state s h (Some a') [a])"
      "hstep (p_heap s) [(a, holding M ys)] h
         [(a', holding M (drop (2 + k) ys)), (a, holding M (take (2 + k) ys))]"
proof -
  let ?v = "\<lparr>bv_buf = Some a, bv_offset = 2\<rparr>" and ?r = "drop (2 + k) ys"
  obtain p h1 where al: "buf_alloc M (p_heap s) = (p, h1)"
      "p = None \<longleftrightarrow> malloc_oracle (p_heap s) (next_addr (p_heap s)) = None"
      "hstep (p_heap s) [(a, holding M ys)] h1 (opt_role p (holding M []) @ [(a, holding M ys)])"
    by (rule alloc_holding [OF own M(2)])
  show ?thesis
  proof (cases p)
    case None
    have o1: "own h1 ((a, holding M ys) # [])" using hstep_own [OF al(3)] None by simp
    have "extract_block ops a ?v k s = Some (dl_state s h1 None [a])"
      using al(1) None M(1) available_at(1) [OF o1, of 2] k
      by (simp add: extract_block_def block_downlink_push_def set_downlink_def dl_state_def)
    then show ?thesis using al(2,3) None by (intro fail) simp_all
  next
    case (Some a')
    have "own h1 ((a', holding M []) # [(a, holding M ys)])" using hstep_own [OF al(3)] Some by simp
    then have o1: "own h1 ((a, holding M ys) # [(a', holding M [])])" by (rule own_perm) simp
    have av: "pouch_bufview_available ?v h1 = Some (length ys - 2)" using available_at(1) [OF o1, of 2] k by simp
    have s1: "hstep (p_heap s) [(a, holding M ys)] h1 ((a', holding M []) # [(a, holding M ys)])"
      using al(3) Some by simp
    show ?thesis
    proof (cases "k < length ys - 2")
      case False
      then have "length ys = 2 + k" using k by simp
      then have "take (2 + k) ys = ys" "?r = []" by simp_all
      moreover have "extract_block ops a ?v k s = Some (dl_state s h1 (Some a') [a])"
        using al(1) Some M(1) av False
        by (simp add: extract_block_def block_downlink_push_def set_downlink_def dl_state_def)
      ultimately show ?thesis using s1 by (intro ok) simp_all
    next
      case True
      note rd = read_rest [OF o1 k]
      obtain h2 where w: "upd_buf a' (\<lambda>b. buf_write b ?r) h1 = Some h2"
          "hstep h1 ((a', holding M []) # [(a, holding M ys)]) h2 ((a', holding M ([] @ ?r)) # [(a, holding M ys)])"
        by (rule holding_write [OF hstep_own [OF s1], where d = ?r]) (use M(3) in simp_all)
      have "own h2 ((a', holding M ?r) # [(a, holding M ys)])" using hstep_own [OF w(2)] by simp
      then have o2: "own h2 ((a, holding M (take (2 + k) ys @ ?r)) # [(a', holding M ?r)])"
        by (rule own_perm) simp
      obtain h3 where t: "with_buf a (\<lambda>b. Some (buf_trim_end b (length ?r))) h2 = Some (length ?r, h3)"
          "hstep h2 ((a, holding M (take (2 + k) ys @ ?r)) # [(a', holding M ?r)]) h3
             ((a, holding M (take (2 + k) ys)) # [(a', holding M ?r)])"
        by (rule holding_trim_end [OF o2])
      have s2: "hstep h2 [(a', holding M ?r), (a, holding M ys)] h2
          [(a, holding M (take (2 + k) ys @ ?r)), (a', holding M ?r)]"
        using hstep_own [OF w(2)] by (intro hstep_perm) simp_all
      have s4: "hstep h3 [(a, holding M (take (2 + k) ys)), (a', holding M ?r)] h3
          [(a', holding M ?r), (a, holding M (take (2 + k) ys))]"
        using hstep_own [OF t(2)] by (rule hstep_perm) simp
      have "hstep (p_heap s) [(a, holding M ys)] h3 [(a', holding M ?r), (a, holding M (take (2 + k) ys))]"
        using hstep_trans [OF s1 w(2)] s2 t(2) s4 hstep_trans unfolding append_Nil by blast
      moreover have "extract_block ops a ?v k s = Some (dl_state s h3 (Some a') [a])"
        using al(1) Some M(1) av True rd w(1) t(1)
        by (simp add: extract_block_def block_downlink_push_def set_downlink_def dl_state_def Let_def)
      ultimately show ?thesis by (intro ok)
    qed
  qed
qed

section \<open>Collecting frames\<close>

text \<open>One pass with the header behind: \<open>xs\<close> was collected before, \<open>ys\<close> after the write.\<close>

lemma push_block_cases:
  assumes own: "own (p_heap s) [(a, holding M ys)]"
    and M: "M = dl_max ops" "M < SIZE_MOD" "length ys \<le> M"
  obtains (bad) "2 < length ys" "M < frame_len ys" "push_block ops a (pouch_bufview_init a) s = Some (False, s)"
    | (wait) "incomplete M ys" "push_block ops a (pouch_bufview_init a) s = Some (True, s)"
    | (fail) h where "2 < length ys" "frame_len ys \<le> length ys"
      "push_block ops a (pouch_bufview_init a) s = Some (True, dl_state s h None [a])"
      "hstep (p_heap s) [(a, holding M ys)] h [(a, holding M ys)]"
      "malloc_oracle (p_heap s) (next_addr (p_heap s)) = None"
    | (ready) h a' where "2 < length ys" "frame_len ys \<le> length ys" "frame_len ys \<le> M"
      "push_block ops a (pouch_bufview_init a) s = Some (True, dl_state s h (Some a') [a])"
      "hstep (p_heap s) [(a, holding M ys)] h
         [(a', holding M (drop (frame_len ys) ys)), (a, holding M (take (frame_len ys) ys))]"
proof -
  have av: "pouch_bufview_available (pouch_bufview_init a) (p_heap s) = Some (length ys)"
    using available_at(1) [OF own, of 0] by (simp add: pouch_bufview_init_def)
  have Mv: "MAX_BLOCK_SIZE_FIELD_VALUE (co_auth_tag_len ops) = M - 2" "2 \<le> M"
    using M(1) by (simp_all add: dl_max_def)
  show ?thesis
  proof (cases "2 < length ys")
    case False
    then show ?thesis using av by (intro wait) (simp_all add: incomplete_def push_block_def)
  next
    case True
    let ?n = "unat (get_be16 ys)" and ?v = "\<lparr>bv_buf = Some a, bv_offset = 2\<rparr>"
    have rd: "pouch_bufview_read_be16 (pouch_bufview_init a) (p_heap s) = Some (get_be16 ys, ?v)"
      using True by (intro read_size_field [OF own]) simp
    have av2: "pouch_bufview_available ?v (p_heap s) = Some (length ys - 2)"
      using True by (intro available_at(1) [OF own]) simp
    show ?thesis
    proof (cases "M - 2 < ?n")
      case big: True
      have "M < frame_len ys" using big Mv(2) by (simp add: frame_len_def)
      then show ?thesis using True av rd Mv big by (intro bad) (simp_all add: push_block_def)
    next
      case small: False
      then have fM: "frame_len ys \<le> M" using Mv(2) by (simp add: frame_len_def)
      show ?thesis
      proof (cases "?n \<le> length ys - 2")
        case False
        then have "incomplete M ys" using True fM by (simp add: incomplete_def frame_len_def)
        then show ?thesis using True av rd av2 Mv small False by (intro wait) (simp_all add: push_block_def)
      next
        case le: True
        then have k: "2 + ?n \<le> length ys" using True by simp
        have pb: "push_block ops a (pouch_bufview_init a) s
            = Option.bind (extract_block ops a ?v ?n s) (\<lambda>s. Some (True, s))"
          using True av rd av2 Mv small le by (simp add: push_block_def)
        show ?thesis
        proof (cases rule: extract_block_cases [OF own k M])
          case (1 h)
          then show ?thesis using True k pb by (intro fail [of h]) (simp_all add: frame_len_def)
        next
          case (2 h a')
          then show ?thesis using True k pb fM by (intro ready [of h a']) (simp_all add: frame_len_def)
        qed
      qed
    qed
  qed
qed

lemma push_pass_header:
  assumes own: "own (p_heap s) [(a, holding M xs)]" and "dl_pouch_buf (p_downlink s) = Some a"
    and "dl_pouch_header (p_downlink s)" and "M = dl_max ops" and "length xs < M"
    and n: "n = min (length data) (M - length xs)"
  obtains h where "hstep (p_heap s) [(a, holding M xs)] h [(a, holding M (xs @ take n data))]"
    and "push_pass ops dec data s = Option.bind (push_block ops a (pouch_bufview_init a) (dl_state s h (Some a) []))
      (\<lambda>(go, s). Some (if go then Some (drop n data) else None, s))"
proof -
  obtain b where b: "store (p_heap s) a = Some b" "pb_bytes b = length xs" "contents b = xs" "cap b = M"
      "buf_ok b" "view_at (pouch_bufview_init a) (p_heap s) b 0"
    by (rule holding_view [OF own]) blast
  have len: "length xs + length (take n data) \<le> M" using assms(5) n by simp
  obtain h where w: "upd_buf a (\<lambda>b. buf_write b (take n data)) (p_heap s) = Some h"
      "hstep (p_heap s) [(a, holding M xs)] h [(a, holding M (xs @ take n data))]"
    by (rule holding_write [OF own len])
  have "s\<lparr>p_heap := h\<rparr> = dl_state s h (Some a) []" using assms(2) by (simp add: dl_state_def)
  then have "push_pass ops dec data s = Option.bind (push_block ops a (pouch_bufview_init a) (dl_state s h (Some a) []))
      (\<lambda>(go, s). Some (if go then Some (drop n data) else None, s))"
    using assms(2,3,5) b(1,2) w(1) unfolding n assms(4)
    by (simp add: push_pass_def push_header_def buf_size_get_def Let_def)
  with w(2) show ?thesis by (intro that)
qed

text \<open>
  The roles of delivered frames, in the order of the queue.
\<close>

definition frame_roles :: "nat \<Rightarrow> (addr \<times> u8 list) list \<Rightarrow> role list" where
  "frame_roles M F = map (\<lambda>(a, b). (a, holding M b)) F"

lemma frame_roles_simps [simp]:
  "frame_roles M [] = []" "frame_roles M ((a, b) # F) = (a, holding M b) # frame_roles M F"
  "frame_roles M (F @ G) = frame_roles M F @ frame_roles M G"
  by (simp_all add: frame_roles_def)

text \<open>
  What a call of the receive loop leaves: the complete frames collected so far are handed over in order,
  each in a buffer of its own, and the collecting buffer holds what follows them.
\<close>

definition frames_pushed ::
    "'c crypto_ops \<Rightarrow> header_decoder \<Rightarrow> nat \<Rightarrow> u8 list \<Rightarrow> u8 list \<Rightarrow> 'c pouch \<Rightarrow> role list \<Rightarrow> u8 list list \<Rightarrow> bool" where
  "frames_pushed ops dec M end_part data s R bs \<longleftrightarrow>
    (\<exists>h a' F. pouch_downlink_push ops dec data s = Some (dl_state s h (Some a') (map fst F))
      \<and> map snd F = take (length F) bs \<and> length F \<le> length bs
      \<and> length (concat (drop (length F) bs) @ end_part) < M
      \<and> hstep (p_heap s) R h ((a', holding M (concat (drop (length F) bs) @ end_part)) # frame_roles M F)
      \<and> (data \<noteq> [] \<and> bs \<noteq> [] \<longrightarrow> F \<noteq> []))"

text \<open>A pass that leaves the frame incomplete, and one that hands the first frame over.\<close>

lemma frames_pushed_wait:
  assumes "frames_pushed ops dec M end_part data' (dl_state s h (Some a) []) R' bs" and "hstep (p_heap s) R h R'"
    and "pouch_downlink_push ops dec data s = pouch_downlink_push ops dec data' (dl_state s h (Some a) [])"
    and "bs \<noteq> [] \<Longrightarrow> data' \<noteq> []"
  shows "frames_pushed ops dec M end_part data s R bs"
proof -
  from assms(1) obtain h' a' F where
    f: "pouch_downlink_push ops dec data' (dl_state s h (Some a) []) = Some (dl_state s h' (Some a') (map fst F))"
      "map snd F = take (length F) bs" "length F \<le> length bs"
      "length (concat (drop (length F) bs) @ end_part) < M"
      "hstep h R' h' ((a', holding M (concat (drop (length F) bs) @ end_part)) # frame_roles M F)"
      "data' \<noteq> [] \<and> bs \<noteq> [] \<longrightarrow> F \<noteq> []" unfolding frames_pushed_def by auto
  then show ?thesis using assms(3,4) hstep_trans [OF assms(2) f(5)] unfolding frames_pushed_def
    by (intro exI [of _ h'] exI [of _ a'] exI [of _ F]) simp
qed

lemma frames_pushed_frame:
  assumes "frames_pushed ops dec M end_part data' (dl_state s h (Some a1) [a]) [Q] bs"
    and "hstep (p_heap s) R h ([Q] @ [(a, holding M b)])"
    and "pouch_downlink_push ops dec data s = pouch_downlink_push ops dec data' (dl_state s h (Some a1) [a])"
  shows "frames_pushed ops dec M end_part data s R (b # bs)"
proof -
  let ?s = "dl_state s h (Some a1) [a]"
  from assms(1) obtain h' a' F where
    f: "pouch_downlink_push ops dec data' ?s = Some (dl_state ?s h' (Some a') (map fst F))"
      "map snd F = take (length F) bs" "length F \<le> length bs"
      "length (concat (drop (length F) bs) @ end_part) < M"
      "hstep h [Q] h' ((a', holding M (concat (drop (length F) bs) @ end_part)) # frame_roles M F)"
    unfolding frames_pushed_def by auto
  let ?T = "(a', holding M (concat (drop (length F) bs) @ end_part))"
  have "hstep h ([Q] @ [(a, holding M b)]) h' ((?T # frame_roles M F) @ [(a, holding M b)])"
    using f(5) hstep_own [OF assms(2)] by (intro hstep_app) simp_all
  then have s1: "hstep (p_heap s) R h' ((?T # frame_roles M F) @ [(a, holding M b)])"
    using hstep_trans [OF assms(2)] by simp
  have "hstep h' ((?T # frame_roles M F) @ [(a, holding M b)]) h' (?T # frame_roles M ((a, b) # F))"
    using hstep_own [OF s1] by (rule hstep_perm) simp
  then have "hstep (p_heap s) R h' (?T # frame_roles M ((a, b) # F))" using hstep_trans [OF s1] by simp
  then show ?thesis using assms(3) f(1-4) unfolding frames_pushed_def
    by (intro exI [of _ h'] exI [of _ a'] exI [of _ "(a, b) # F"]) simp
qed

text \<open>What the collected bytes say of the frames: the first frame's length, once its size field is there.\<close>

lemma first_frame_known:
  assumes "ys @ rest = concat bs @ end_part" and "list_all (valid_frame M) bs" and "incomplete M end_part" and "2 < length ys"
  shows "bs \<noteq> [] \<and> frame_len ys = length (bs ! 0) \<or> bs = [] \<and> incomplete M ys"
  using assms prefix_first_frame [of ys rest "hd bs" "concat (List.tl bs) @ end_part" M]
    prefix_incomplete [of ys rest end_part M]
  by (cases bs) auto

lemma more_to_come:
  assumes "ys @ rest = concat bs @ end_part" and "list_all (valid_frame M) bs" and "incomplete M end_part"
    and "incomplete M ys" and "bs \<noteq> []"
  shows "rest \<noteq> []"
proof
  assume "rest = []"
  then have "ys = bs ! 0 @ concat (List.tl bs) @ end_part" using assms(1,5) by (cases bs) simp_all
  then have "length (bs ! 0) \<le> length ys" by (metis le_add1 length_append)
  moreover have "2 < length (bs ! 0)" using assms(2,5) by (cases bs) (simp_all add: valid_frame_def)
  ultimately show False using first_frame_known [OF assms(1-3)] assms(4,5) unfolding incomplete_def by linarith
qed

text \<open>
  The loop on a well-framed sequence: the frames \<open>bs\<close> and an incomplete end. Each pass takes
  data in, and cuts at most one frame off.
\<close>

lemma push_loop:
  assumes "own (p_heap s) [(a, holding M xs)]" and "dl_pouch_buf (p_downlink s) = Some a"
    and "dl_pouch_header (p_downlink s)" and "M = dl_max ops" and "M < SIZE_MOD" and "length xs < M"
    and "xs @ data = concat bs @ end_part" and "list_all (valid_frame M) bs" and "incomplete M end_part"
    and "\<And>k. malloc_oracle (p_heap s) k \<noteq> None"
  shows "frames_pushed ops dec M end_part data s [(a, holding M xs)] bs"
  using assms
proof (induction "length data" arbitrary: data s a xs bs rule: less_induct)
  case less
  show ?case
  proof (cases "data = []")
    case True
    have "pouch_downlink_push ops dec data s = Some (dl_state s (p_heap s) (Some a) [])"
      using True less.prems(2) by (subst pouch_downlink_push.simps) (simp add: dl_state_def)
    then show ?thesis using True less.prems(6,7) hstep_refl [OF less.prems(1)] unfolding frames_pushed_def
      by (intro exI [of _ "p_heap s"] exI [of _ a] exI [of _ "[]"]) simp
  next
    case False
    define n where "n = min (length data) (M - length xs)"
    let ?ys = "xs @ take n data"
    have n: "0 < n" "length ?ys \<le> M" using False less.prems(6) by (auto simp: n_def)
    have shorter: "length (drop n data) < length data" using n(1) False by simp
    have split: "?ys @ drop n data = concat bs @ end_part" using less.prems(7) by simp
    obtain h where
      p: "hstep (p_heap s) [(a, holding M xs)] h [(a, holding M ?ys)]"
        "push_pass ops dec data s = Option.bind (push_block ops a (pouch_bufview_init a) (dl_state s h (Some a) []))
          (\<lambda>(go, s). Some (if go then Some (drop n data) else None, s))"
      by (rule push_pass_header [OF less.prems(1-4) less.prems(6) n_def])
    let ?s1 = "dl_state s h (Some a) []"
    have o1: "own (p_heap ?s1) [(a, holding M ?ys)]" using hstep_own [OF p(1)] by simp
    have orc: "malloc_oracle h k \<noteq> None" for k using less.prems(10) hstep_env(1) [OF p(1)] by simp
    note fr = first_frame_known [OF split less.prems(8,9)]
    have len0: "length (bs ! 0) \<le> M" "2 < length (bs ! 0)" if "bs \<noteq> []"
      using that less.prems(8) by (cases bs; simp add: valid_frame_def)+
    have step: "pouch_downlink_push ops dec data s = (case r of (go, s2) \<Rightarrow>
        if go then pouch_downlink_push ops dec (drop n data) s2 else Some s2)"
      if "push_block ops a (pouch_bufview_init a) ?s1 = Some r" for r
      using False p(2) that by (subst pouch_downlink_push.simps) (simp split: prod.splits)
    show ?thesis
    proof (cases rule: push_block_cases [OF o1 less.prems(4,5) n(2)])
      case 1
      have False
        using fr [OF 1(1)] len0(1) 1(1,2) unfolding incomplete_def by linarith
      then show ?thesis ..
    next
      case 2
      have lt: "length ?ys < M" using 2(1) n(2) less.prems(4) by (auto simp: incomplete_def dl_max_def)
      have "frames_pushed ops dec M end_part (drop n data) ?s1 [(a, holding M ?ys)] bs"
        using orc less.prems(3) by (intro less.hyps [OF shorter o1 _ _ less.prems(4,5) lt split less.prems(8,9)]) simp_all
      then show ?thesis
        by (rule frames_pushed_wait [OF _ p(1)]) (use step [OF 2(2)] more_to_come [OF split less.prems(8,9) 2(1)] in auto)
    next
      case (3 h1)
      then show ?thesis using orc by simp
    next
      case (4 h1 a1)
      have bs: "bs \<noteq> []" "frame_len ?ys = length (bs ! 0)"
        using fr [OF 4(1)] 4(1,2) unfolding incomplete_def by linarith+
      then obtain b bs' where b: "bs = b # bs'" by (cases bs) auto
      have lb: "frame_len ?ys = length b" "length b \<le> length ?ys" using bs b 4(2) by simp_all
      have tk: "take (length b) ?ys = b" "drop (length b) ?ys @ drop n data = concat bs' @ end_part"
        using split lb(2) b by (metis append_eq_append_conv_if append_take_drop_id append.assoc concat.simps(2))+
      have lt: "length (drop (length b) ?ys) < M" using n(2) lb(2) len0(2) [OF bs(1)] b by simp
      let ?s2 = "dl_state s h1 (Some a1) [a]"
      have o2: "own (p_heap ?s2) [(a1, holding M (drop (length b) ?ys))]"
        using hstep_own [OF 4(5)] lb(1) by (auto simp: own_def)
      have "frames_pushed ops dec M end_part (drop n data) ?s2 [(a1, holding M (drop (length b) ?ys))] bs'"
        using orc hstep_env(1) [OF 4(5)] less.prems(3,8) b
        by (intro less.hyps [OF shorter o2 _ _ less.prems(4,5) lt tk(2) _ less.prems(9)]) simp_all
      then show ?thesis unfolding b
        by (rule frames_pushed_frame) (use hstep_trans [OF p(1)] 4(4,5) step lb(1) tk(1) in auto)
    qed
  qed
qed

section \<open>The downlink side\<close>

text \<open>
  Who holds which buffer: the collecting buffer, which always has room, and the two queues.
\<close>

definition collect_role :: "nat \<Rightarrow> pouch_buf \<Rightarrow> bool" where
  "collect_role M b \<longleftrightarrow> cap b = M \<and> pb_bytes b < M"

definition downlink_roles :: "'c crypto_ops \<Rightarrow> 'c pouch \<Rightarrow> role list" where
  "downlink_roles ops s = opt_role (dl_pouch_buf (p_downlink s)) (collect_role (dl_max ops))
     @ list_role (dl_decrypt_queue (p_downlink s)) (received_role (co_auth_tag_len ops))
     @ list_role (dl_consume_queue (p_downlink s)) any_role"

definition downlink_inv :: "'c crypto_ops \<Rightarrow> 'c pouch \<Rightarrow> bool" where
  "downlink_inv ops s \<longleftrightarrow> own (p_heap s) (downlink_roles ops s)"

definition downlink_safe :: "'c crypto_ops \<Rightarrow> 'c pouch \<Rightarrow> 'c pouch \<Rightarrow> bool" where
  "downlink_safe ops s s' \<longleftrightarrow>
     hstep (p_heap s) (downlink_roles ops s) (p_heap s') (downlink_roles ops s')"

lemma downlink_safe_inv: "downlink_safe ops s s' \<Longrightarrow> downlink_inv ops s'"
  by (simp add: downlink_safe_def downlink_inv_def hstep_own)

lemma downlink_safe_refl: "downlink_inv ops s \<Longrightarrow> downlink_safe ops s s"
  by (simp add: downlink_safe_def downlink_inv_def hstep_refl)

lemma downlink_safe_trans: "downlink_safe ops s s' \<Longrightarrow> downlink_safe ops s' s'' \<Longrightarrow> downlink_safe ops s s''"
  by (auto simp: downlink_safe_def intro: hstep_trans)

lemma downlink_inv_static [simp]: "downlink_inv ops (pouch_static oracle c)"
  by (simp add: downlink_inv_def downlink_roles_def downlink_static_def own_def pouch_static_def)

lemma downlink_safe_frame:
  assumes inv: "downlink_inv ops s" and before: "mset (downlink_roles ops s) = mset (R0 @ S)"
    and "map fst R = map fst R0" and ownR: "own (p_heap s) R"
    and step: "hstep (p_heap s) R (p_heap s') R'" and "role_le R' R1"
    and after: "mset (downlink_roles ops s') = mset (R1 @ S)"
  shows "downlink_safe ops s s'"
proof -
  have o0: "own (p_heap s) (R0 @ S)" using own_perm [OF inv [unfolded downlink_inv_def] before] .
  have oR: "own (p_heap s) (R @ S)" using o0 ownR assms(3) by (rule own_swap)
  have "fst ` set R = fst ` set R0" using assms(3) by (metis list.set_map)
  then have s1: "hstep (p_heap s) (R0 @ S) (p_heap s) (R @ S)"
    using oR by (simp add: hstep_def foreign_def image_Un)
  have s2: "hstep (p_heap s) (R @ S) (p_heap s') (R' @ S)" using step oR by (rule hstep_app)
  have s3: "hstep (p_heap s') (R' @ S) (p_heap s') (R1 @ S)"
    using hstep_own [OF s2] assms(6) by (intro hstep_role_le role_le_app) simp_all
  have "hstep (p_heap s) (downlink_roles ops s) (p_heap s) (R0 @ S)"
    using inv before unfolding downlink_inv_def by (rule hstep_perm)
  moreover have "hstep (p_heap s') (R1 @ S) (p_heap s') (downlink_roles ops s')"
    using hstep_own [OF s3] after [symmetric] by (rule hstep_perm)
  ultimately show ?thesis using s1 s2 s3 hstep_trans unfolding downlink_safe_def by blast
qed

text \<open>From a step on the collecting buffer to the downlink side.\<close>

lemma role_le_frames:
  "role_le (frame_roles (dl_max ops) F) (list_role (map fst F) (received_role (co_auth_tag_len ops)))"
  by (auto simp: role_le_def frame_roles_def list_role_def received_role_def holding_def dl_max_def
      list_all2_conv_all_nth split_beta)

lemma collect_safe:
  assumes "downlink_inv ops s" and "dl_pouch_buf (p_downlink s) = Some a"
    and "own (p_heap s) [(a, holding (dl_max ops) xs)]"
    and step: "hstep (p_heap s) [(a, holding (dl_max ops) xs)] (p_heap s')
      ((a', holding (dl_max ops) ys) # frame_roles (dl_max ops) F)" and "length ys < dl_max ops"
    and "dl_pouch_buf (p_downlink s') = Some a'"
    and "dl_decrypt_queue (p_downlink s') = dl_decrypt_queue (p_downlink s) @ map fst F"
    and "dl_consume_queue (p_downlink s') = dl_consume_queue (p_downlink s)"
  shows "downlink_safe ops s s'"
proof -
  let ?M = "dl_max ops"
  let ?S = "list_role (dl_decrypt_queue (p_downlink s)) (received_role (co_auth_tag_len ops))
     @ list_role (dl_consume_queue (p_downlink s)) any_role"
  have before: "mset (downlink_roles ops s) = mset ([(a, collect_role ?M)] @ ?S)"
    using assms(2) by (simp add: downlink_roles_def)
  have after: "mset (downlink_roles ops s') =
      mset (((a', collect_role ?M) # list_role (map fst F) (received_role (co_auth_tag_len ops))) @ ?S)"
    using assms(6-8) by (simp add: downlink_roles_def)
  have ok: "heap_ok (p_heap s')" using own_heap_ok [OF hstep_own [OF step]] .
  have "hstep (p_heap s') ((a', holding ?M ys) # frame_roles ?M F) (p_heap s') ((a', collect_role ?M) # frame_roles ?M F)"
    using hstep_own [OF step]
  proof (rule hstep_role)
    fix b assume b: "store (p_heap s') a' = Some b" "holding ?M ys b"
    then show "collect_role ?M b"
      using heap_ok_buf_ok [OF ok b(1)] length_contents [of b] assms(5) by (auto simp: holding_def collect_role_def)
  qed
  then have step': "hstep (p_heap s) [(a, holding ?M xs)] (p_heap s') ((a', collect_role ?M) # frame_roles ?M F)"
    using hstep_trans [OF step] by blast
  have le: "role_le ((a', collect_role ?M) # frame_roles ?M F)
      ((a', collect_role ?M) # list_role (map fst F) (received_role (co_auth_tag_len ops)))"
    using role_le_frames [of ops F] by (simp add: role_le_def)
  show ?thesis by (rule downlink_safe_frame [OF assms(1) before _ assms(3) step' le after]) simp
qed

lemma collecting:
  assumes "downlink_inv ops s" and "dl_pouch_buf (p_downlink s) = Some a"
  shows "own (p_heap s) [(a, holding (dl_max ops) (buf_contents (p_heap s) a))]"
    and "length (buf_contents (p_heap s) a) < dl_max ops"
proof -
  have own: "own (p_heap s) (downlink_roles ops s)" using assms(1) by (simp add: downlink_inv_def)
  have "(a, collect_role (dl_max ops)) \<in> set (downlink_roles ops s)"
    using assms(2) by (simp add: downlink_roles_def)
  from ownD [OF own this] obtain b where b: "store (p_heap s) a = Some b" "collect_role (dl_max ops) b" "buf_ok b"
    by blast
  then show "own (p_heap s) [(a, holding (dl_max ops) (buf_contents (p_heap s) a))]"
    "length (buf_contents (p_heap s) a) < dl_max ops"
    using own by (simp_all add: own_def holding_def collect_role_def buf_contents_def)
qed

lemma frames_contents:
  assumes "own h (R @ frame_roles M F)"
  shows "map (buf_contents h) (map fst F) = map snd F"
proof -
  have "buf_contents h (fst x) = snd x" if "x \<in> set F" for x
  proof -
    have "(fst x, holding M (snd x)) \<in> set (R @ frame_roles M F)"
      using that by (force simp: frame_roles_def)
    from ownD [OF assms this] show ?thesis by (auto simp: holding_def buf_contents_def)
  qed
  then show ?thesis by simp
qed

section \<open>Properties of the collector\<close>

text \<open>
  Property C5. Framing conserves the byte stream. Once the header is parsed, pushing a
  fragment of any size onto what was collected, where collected bytes and fragment together are
  a sequence of valid frames with an incomplete end and allocations succeed, terminates, keeps
  within its buffers and preserves the ownership invariant; it appends to the decrypt queue
  the first \<open>k\<close> of these frames, each in a buffer of its own and in order, and what stays
  collected is exactly the remaining frames and the incomplete end: no byte is lost, duplicated
  or moved across a frame boundary. A complete frame is delivered by every push that adds a byte,
  and what stays collected is less than the buffer for one frame of maximal size.
\<close>

theorem downlink_push_frames:
  assumes "downlink_inv ops s" and "co_auth_tag_len ops \<le> 16"
    and "dl_pouch_buf (p_downlink s) = Some a" and "dl_pouch_header (p_downlink s)"
    and "buf_contents (p_heap s) a @ data = concat bs @ end_part"
    and "list_all (valid_frame (dl_max ops)) bs" and "incomplete (dl_max ops) end_part"
    and "\<And>k. malloc_oracle (p_heap s) k \<noteq> None"
  shows "\<exists>s' a' new k. pouch_downlink_push ops dec data s = Some s' \<and> downlink_safe ops s s'
    \<and> dl_decrypt_queue (p_downlink s') = dl_decrypt_queue (p_downlink s) @ new
    \<and> map (buf_contents (p_heap s')) new = take k bs \<and> k \<le> length bs
    \<and> (data \<noteq> [] \<and> bs \<noteq> [] \<longrightarrow> 0 < k) \<and> length (concat (drop k bs) @ end_part) < dl_max ops
    \<and> dl_pouch_buf (p_downlink s') = Some a'
    \<and> buf_contents (p_heap s') a' = concat (drop k bs) @ end_part"
proof -
  let ?M = "dl_max ops"
  have M: "?M < SIZE_MOD" using assms(2) by (simp add: dl_max_def SIZE_MOD_num)
  note c = collecting [OF assms(1,3)]
  from push_loop [OF c(1) assms(3,4) refl M c(2) assms(5-8), of dec] obtain h a' F where
    p: "pouch_downlink_push ops dec data s = Some (dl_state s h (Some a') (map fst F))"
      "map snd F = take (length F) bs" "length F \<le> length bs"
      "length (concat (drop (length F) bs) @ end_part) < ?M"
      "hstep (p_heap s) [(a, holding ?M (buf_contents (p_heap s) a))] h
         ((a', holding ?M (concat (drop (length F) bs) @ end_part)) # frame_roles ?M F)"
      "data \<noteq> [] \<and> bs \<noteq> [] \<longrightarrow> F \<noteq> []" unfolding frames_pushed_def by blast
  let ?s = "dl_state s h (Some a') (map fst F)"
  have "downlink_safe ops s ?s"
    by (rule collect_safe [OF assms(1,3) c(1) _ p(4)]) (use p(5) in simp_all)
  moreover have "map (buf_contents h) (map fst F) = take (length F) bs"
    using frames_contents [of h "[(a', holding ?M (concat (drop (length F) bs) @ end_part))]" ?M F]
      hstep_own [OF p(5)] p(2) by simp
  moreover have "buf_contents h a' = concat (drop (length F) bs) @ end_part"
    using hstep_own [OF p(5)] by (auto simp: own_Cons_iff holding_def buf_contents_def)
  ultimately show ?thesis using p(1,3,4,6)
    by (intro exI [of _ ?s] exI [of _ a'] exI [of _ "map fst F"] exI [of _ "length F"]) simp
qed

text \<open>A state that has just parsed the header, for the witnesses.\<close>

definition demo_down :: "u8 list \<Rightarrow> crypto_none_state pouch" where
  "demo_down xs = (pouch_static (\<lambda>_. Some (\<lambda>_. 0)) \<lparr>device_id = None\<rparr>)
     \<lparr>p_heap := \<lparr>store = [0 \<mapsto> \<lparr>pb_bytes = length xs, pb_mem = xs @ replicate (515 - length xs) 0\<rparr>],
        next_addr = 1, malloc_oracle = (\<lambda>_. Some (\<lambda>_. 0)), bufs = 1\<rparr>,
      p_downlink := downlink_static\<lparr>dl_pouch_buf := Some 0, dl_pouch_header := True\<rparr>\<rparr>"

lemma demo_down_ok:
  assumes "length xs < 515"
  shows "downlink_inv crypto_none (demo_down xs)" and "buf_contents (p_heap (demo_down xs)) 0 = xs"
  using assms
  by (auto simp: downlink_inv_def demo_down_def own_def heap_ok_def downlink_roles_def downlink_static_def
      collect_role_def cap_def dl_max_def buf_ok_def SIZE_MOD_num buf_contents_def contents_def)

lemma demo_down_simps [simp]:
  "dl_pouch_buf (p_downlink (demo_down xs)) = Some 0" "dl_pouch_header (p_downlink (demo_down xs))"
  "malloc_oracle (p_heap (demo_down xs)) k = Some (\<lambda>_. 0)" "dl_decrypt_queue (p_downlink (demo_down xs)) = []"
  by (simp_all add: demo_down_def downlink_static_def)

lemma dl_max_none [simp]: "dl_max crypto_none = 515"
  by (simp add: dl_max_def)

lemma downlink_push_frames_witness:
  "\<exists>s' a' new k. pouch_downlink_push crypto_none (\<lambda>_. Inl 0) [2, 0xc0, 9, 0] (demo_down [0]) = Some s'
    \<and> downlink_safe crypto_none (demo_down [0]) s'
    \<and> map (buf_contents (p_heap s')) new = take k [[0, 2, 0xc0, 9]] \<and> dl_pouch_buf (p_downlink s') = Some a'
    \<and> buf_contents (p_heap s') a' = concat (drop k [[0, 2, 0xc0, 9]]) @ [0]"
proof -
  have v: "list_all (valid_frame (dl_max crypto_none)) [[0, 2, 0xc0, 9]]" "incomplete (dl_max crypto_none) [0]"
    by (simp_all add: valid_frame_def frame_len_def get_be16_def incomplete_def)
  have c: "buf_contents (p_heap (demo_down [0])) 0 @ [2, 0xc0, 9, 0] = concat [[0, 2, 0xc0, 9]] @ [0]"
    by (simp add: demo_down_ok)
  show ?thesis
    using downlink_push_frames [OF demo_down_ok(1) _ demo_down_simps(1,2) c v, of "\<lambda>_. Inl 0"] by simp blast
qed

text \<open>The end of a pass on a well-framed buffer.\<close>

lemma push_block_frames:
  assumes own: "own (p_heap s) [(a, holding M ys)]" and M: "M = dl_max ops" "M < SIZE_MOD" "length ys \<le> M"
    and "dl_pouch_buf (p_downlink s) = Some a" and ys: "ys = concat bs @ end_part"
    and "list_all (valid_frame M) bs" and "incomplete M end_part"
    and orc: "\<And>k. malloc_oracle (p_heap s) k \<noteq> None"
  obtains h a' where
    "push_block ops a (pouch_bufview_init a) s = Some (True, dl_state s h (Some a') (if bs = [] then [] else [a]))"
    "hstep (p_heap s) [(a, holding M ys)] h
       ((a', holding M (concat (List.tl bs) @ end_part)) # frame_roles M (if bs = [] then [] else [(a, hd bs)]))"
proof (cases bs)
  case Nil
  then have inc: "incomplete M ys" using assms(8) ys by simp
  have s: "dl_state s (p_heap s) (Some a) [] = s" using assms(5) by (simp add: dl_state_def)
  show ?thesis
  proof (cases rule: push_block_cases [OF own M])
    case 2
    then show ?thesis using Nil s ys hstep_refl [OF own] by (intro that [of "p_heap s" a]) simp_all
  qed (use inc orc in \<open>auto simp: incomplete_def\<close>)
next
  case (Cons b bs')
  have b: "valid_frame M b" using Cons assms(7) by simp
  have le: "length b \<le> length ys" "2 < length b" "length b \<le> M" using ys Cons b by (simp_all add: valid_frame_def)
  have fl: "frame_len ys = length b"
    using prefix_first_frame [of ys "[]" b "concat bs' @ end_part" M] ys Cons b le by simp
  have tk: "take (length b) ys = b" "drop (length b) ys = concat bs' @ end_part" using ys Cons by simp_all
  show ?thesis
  proof (cases rule: push_block_cases [OF own M])
    case (4 h a1)
    then show ?thesis using Cons fl tk by (intro that [of h a1]) simp_all
  qed (use fl le orc in \<open>auto simp: incomplete_def\<close>)
qed

lemma push_stop:
  assumes "data \<noteq> []" and "push_pass ops dec data s = Some (Some [], s')"
  shows "pouch_downlink_push ops dec data s = Some s'"
  using assms by (subst pouch_downlink_push.simps, simp) (subst pouch_downlink_push.simps, simp)

text \<open>
  At most one block is taken out per pass. A non-empty fragment that fits the
  collecting buffer is handled in one pass of the loop, and exactly the first complete frame, if
  there is one, is queued; every further frame, complete or not, stays in the buffer. So one
  complete frame per fragment is delivered at once, but when a fragment completes two frames the
  second is only delivered after more data arrives.
\<close>

theorem downlink_push_one_frame:
  assumes "downlink_inv ops s" and "co_auth_tag_len ops \<le> 16"
    and "dl_pouch_buf (p_downlink s) = Some a" and "dl_pouch_header (p_downlink s)"
    and "buf_contents (p_heap s) a @ data = concat bs @ end_part"
    and "list_all (valid_frame (dl_max ops)) bs" and "incomplete (dl_max ops) end_part"
    and "\<And>k. malloc_oracle (p_heap s) k \<noteq> None"
    and "data \<noteq> []" and "length (buf_contents (p_heap s) a @ data) \<le> dl_max ops"
  shows "\<exists>s' a' new. pouch_downlink_push ops dec data s = Some s' \<and> dl_pouch_buf (p_downlink s') = Some a'
    \<and> dl_decrypt_queue (p_downlink s') = dl_decrypt_queue (p_downlink s) @ new
    \<and> map (buf_contents (p_heap s')) new = take 1 bs
    \<and> buf_contents (p_heap s') a' = concat (drop 1 bs) @ end_part"
proof -
  let ?M = "dl_max ops" and ?xs = "buf_contents (p_heap s) a"
  have M: "?M < SIZE_MOD" using assms(2) by (simp add: dl_max_def SIZE_MOD_num)
  note c = collecting [OF assms(1,3)]
  have n: "length data = min (length data) (?M - length ?xs)" using assms(10) by simp
  obtain h where
    p: "hstep (p_heap s) [(a, holding ?M ?xs)] h [(a, holding ?M (?xs @ take (length data) data))]"
      "push_pass ops dec data s = Option.bind (push_block ops a (pouch_bufview_init a) (dl_state s h (Some a) []))
          (\<lambda>(go, s). Some (if go then Some (drop (length data) data) else None, s))"
    by (rule push_pass_header [OF c(1) assms(3,4) refl c(2) n])
  let ?s1 = "dl_state s h (Some a) []" and ?q = "if bs = [] then [] else [a]"
  have o1: "own (p_heap ?s1) [(a, holding ?M (?xs @ data))]" using hstep_own [OF p(1)] by simp
  have orc: "malloc_oracle (p_heap ?s1) k \<noteq> None" for k using assms(8) hstep_env(1) [OF p(1)] by simp
  obtain h1 a1 where
    f: "push_block ops a (pouch_bufview_init a) ?s1 = Some (True, dl_state ?s1 h1 (Some a1) ?q)"
      "hstep (p_heap ?s1) [(a, holding ?M (?xs @ data))] h1
         ((a1, holding ?M (concat (List.tl bs) @ end_part)) # frame_roles ?M (if bs = [] then [] else [(a, hd bs)]))"
    by (rule push_block_frames [OF o1 refl M assms(10) _ assms(5-7) orc]) simp_all
  have "pouch_downlink_push ops dec data s = Some (dl_state ?s1 h1 (Some a1) ?q)"
    by (rule push_stop [OF assms(9)]) (use p(2) f(1) in simp)
  moreover have "buf_contents h1 a1 = concat (drop 1 bs) @ end_part"
    "map (buf_contents h1) ?q = take 1 bs"
    using hstep_own [OF f(2)] by (cases bs; auto simp: own_Cons_iff holding_def buf_contents_def)+
  ultimately show ?thesis
    by (intro exI [of _ "dl_state ?s1 h1 (Some a1) ?q"] exI [of _ a1] exI [of _ ?q]) simp
qed

lemma downlink_push_one_frame_witness:
  "\<exists>s' a' new. pouch_downlink_push crypto_none (\<lambda>_. Inl 0) [0, 2, 0xc0, 1, 0, 2, 0xc0, 2] (demo_down []) = Some s'
    \<and> dl_decrypt_queue (p_downlink s') = new \<and> map (buf_contents (p_heap s')) new = [[0, 2, 0xc0, 1]]
    \<and> dl_pouch_buf (p_downlink s') = Some a' \<and> buf_contents (p_heap s') a' = [0, 2, 0xc0, 2]"
proof -
  let ?bs = "[[0, 2, 0xc0, 1], [0, 2, 0xc0, 2]] :: u8 list list"
  have v: "list_all (valid_frame (dl_max crypto_none)) ?bs" "incomplete (dl_max crypto_none) []"
    by (simp_all add: valid_frame_def frame_len_def get_be16_def incomplete_def)
  have c: "buf_contents (p_heap (demo_down [])) 0 @ [0, 2, 0xc0, 1, 0, 2, 0xc0, 2] = concat ?bs @ []"
    by (simp add: demo_down_ok)
  show ?thesis
    using downlink_push_one_frame [OF demo_down_ok(1) _ demo_down_simps(1,2) c v, of "\<lambda>_. Inl 0"]
    by (auto simp: demo_down_ok)
qed

section \<open>The header\<close>

lemma holding_trim_start:
  assumes "own h ((a, holding M xs) # R)"
  obtains k h' where "with_buf a (\<lambda>b. buf_trim_start b n) h = Some (k, h')"
    and "hstep h ((a, holding M xs) # R) h' ((a, holding M (drop n xs)) # R)"
proof -
  have step: "\<exists>b'. buf_trim_start b n = Some (min n (length xs), b') \<and> holding M (drop n xs) b' \<and> buf_ok b'"
    if "holding M xs b" "buf_ok b" for b
  proof -
    have "pb_bytes b = length xs" using that length_contents [of b] by (simp add: holding_def)
    then show ?thesis using buf_trim_start_ok [OF that(2), of n] that(1) by (auto simp: holding_def)
  qed
  show ?thesis
    by (rule with_buf_hstep [OF assms, where f = "\<lambda>b. buf_trim_start b n" and r = "min n (length xs)"
          and Q = "holding M (drop n xs)"]) (use step that in blast)+
qed

lemma parse_header_eq:
  assumes "own h ((a, holding M ys) # R)"
  shows "pouch_downlink_parse_header ops dec (pouch_bufview_init a) h c =
    (case dec ys of Inl e \<Rightarrow> Some (Err EIO, 0, c)
     | Inr (header, n) \<Rightarrow> let (err, c) = co_downlink_start ops (ph_encryption_info header) c in Some (err, n, c))"
proof -
  have "pouch_bufview_init a = \<lparr>bv_buf = Some a, bv_offset = 0\<rparr>" by (simp add: pouch_bufview_init_def)
  then show ?thesis
    using read_rest [OF assms, of 0 0] available_at(1) [OF assms, of 0]
    by (simp add: pouch_downlink_parse_header_def split: sum.splits)
qed

text \<open>The write that every pass starts with, when the fragment fits.\<close>

lemma push_write:
  assumes "downlink_inv ops s" and "dl_pouch_buf (p_downlink s) = Some a"
    and "length (buf_contents (p_heap s) a @ data) \<le> dl_max ops"
  obtains h where "read_buf a buf_size_get (p_heap s) = Some (length (buf_contents (p_heap s) a))"
    and "length (buf_contents (p_heap s) a) < dl_max ops"
    and "upd_buf a (\<lambda>b. buf_write b data) (p_heap s) = Some h"
    and "hstep (p_heap s) [(a, holding (dl_max ops) (buf_contents (p_heap s) a))] h
      [(a, holding (dl_max ops) (buf_contents (p_heap s) a @ data))]"
proof -
  note c = collecting [OF assms(1,2)]
  obtain b where b: "store (p_heap s) a = Some b" "pb_bytes b = length (buf_contents (p_heap s) a)"
    by (rule holding_view [OF c(1)]) blast
  have len: "length (buf_contents (p_heap s) a) + length data \<le> dl_max ops" using assms(3) by simp
  show ?thesis
    by (rule holding_write [OF c(1) len]) (use b c(2) that in \<open>simp add: buf_size_get_def\<close>)
qed

text \<open>A header that is accepted: the bytes behind it are framed as if they had come alone.\<close>

lemma push_header_accepted:
  assumes "downlink_inv ops s" and "co_auth_tag_len ops \<le> 16"
    and "dl_pouch_buf (p_downlink s) = Some a" and "\<not> dl_pouch_header (p_downlink s)"
    and "data \<noteq> []" and "length (buf_contents (p_heap s) a @ data) \<le> dl_max ops"
    and "\<And>k. malloc_oracle (p_heap s) k \<noteq> None"
    and Inr: "dec (buf_contents (p_heap s) a @ data) = Inr (header, n')"
    and st: "co_downlink_start ops (ph_encryption_info header) (p_crypto s) = (err, c)" and ok: "\<not> is_err err"
    and zs: "drop n' (buf_contents (p_heap s) a @ data) = concat bs @ end_part"
    and vf: "list_all (valid_frame (dl_max ops)) bs" "incomplete (dl_max ops) end_part"
  shows "\<exists>s' a' new. pouch_downlink_push ops dec data s = Some s' \<and> dl_pouch_header (p_downlink s')
    \<and> p_crypto s' = c \<and> dl_pouch_buf (p_downlink s') = Some a'
    \<and> dl_decrypt_queue (p_downlink s') = dl_decrypt_queue (p_downlink s) @ new
    \<and> map (buf_contents (p_heap s')) new = take 1 bs
    \<and> buf_contents (p_heap s') a' = concat (drop 1 bs) @ end_part"
proof -
  let ?M = "dl_max ops" and ?ys = "buf_contents (p_heap s) a @ data"
  have M: "?M < SIZE_MOD" using assms(2) by (simp add: dl_max_def SIZE_MOD_num)
  obtain h where
    w: "read_buf a buf_size_get (p_heap s) = Some (length (buf_contents (p_heap s) a))"
      "length (buf_contents (p_heap s) a) < ?M" "upd_buf a (\<lambda>b. buf_write b data) (p_heap s) = Some h"
      "hstep (p_heap s) [(a, holding ?M (buf_contents (p_heap s) a))] h [(a, holding ?M ?ys)]"
    by (rule push_write [OF assms(1,3,6)])
  note o1 = hstep_own [OF w(4)]
  note ph = parse_header_eq [OF o1, of ops dec "p_crypto s"]
  have n: "min (length data) (?M - length (buf_contents (p_heap s) a)) = length data" using assms(6) by simp
  obtain k h2 where t: "with_buf a (\<lambda>b. buf_trim_start b n') h = Some (k, h2)"
      "hstep h [(a, holding ?M ?ys)] h2 [(a, holding ?M (drop n' ?ys))]"
    by (rule holding_trim_start [OF o1, where n = n'])
  define s1 where "s1 = (set_downlink (\<lambda>d. d\<lparr>dl_pouch_header := True\<rparr>) (s\<lparr>p_heap := h, p_crypto := c\<rparr>))\<lparr>p_heap := h2\<rparr>"
  have o2: "own (p_heap s1) [(a, holding ?M (drop n' ?ys))]" using hstep_own [OF t(2)] by (simp add: s1_def)
  have orc: "malloc_oracle (p_heap s1) k \<noteq> None" for k
    using assms(7) hstep_env(1) [OF w(4)] hstep_env(1) [OF t(2)] by (simp add: s1_def)
  have len: "length (drop n' ?ys) \<le> ?M" using assms(6) by simp
  have pb: "dl_pouch_buf (p_downlink s1) = Some a" using assms(3) by (simp add: s1_def)
  let ?q = "if bs = [] then [] else [a]"
  obtain h3 a3 where
    f: "push_block ops a (pouch_bufview_init a) s1 = Some (True, dl_state s1 h3 (Some a3) ?q)"
      "hstep (p_heap s1) [(a, holding ?M (drop n' ?ys))] h3
         ((a3, holding ?M (concat (List.tl bs) @ end_part)) # frame_roles ?M (if bs = [] then [] else [(a, hd bs)]))"
    by (rule push_block_frames [OF o2 refl M len pb zs vf orc])
  have "push_pass ops dec data s = Some (Some [], dl_state s1 h3 (Some a3) ?q)"
    using assms(3,4) w(1-3) n ph Inr st ok t(1) f(1) unfolding s1_def
    by (simp add: push_pass_def push_header_def Let_def is_err_def)
  then have "pouch_downlink_push ops dec data s = Some (dl_state s1 h3 (Some a3) ?q)"
    by (rule push_stop [OF assms(5)])
  moreover have "buf_contents h3 a3 = concat (drop 1 bs) @ end_part" "map (buf_contents h3) ?q = take 1 bs"
    using hstep_own [OF f(2)] by (cases bs; auto simp: own_Cons_iff holding_def buf_contents_def)+
  moreover have "dl_decrypt_queue (p_downlink s1) = dl_decrypt_queue (p_downlink s)"
    "dl_pouch_header (p_downlink s1)" "p_crypto s1 = c" by (simp_all add: s1_def set_downlink_def)
  ultimately show ?thesis
    by (intro exI [of _ "dl_state s1 h3 (Some a3) ?q"] exI [of _ a3] exI [of _ ?q]) simp
qed

text \<open>
  Property C29. The pouch header is cut off exactly. When the bytes collected so far and a
  fragment that fits the buffer decode to a header of \<open>n\<close> bytes that the backend accepts, the
  header is consumed once (the backend has seen it and \<^verbatim>\<open>pouch_header\<close> is set) and the bytes
  behind it are framed as if they had arrived alone: the first complete block is queued and the
  rest stays. When they do not decode, all bytes are kept for the next fragment; when the backend
  rejects the header nothing is queued.
\<close>

theorem downlink_push_header:
  assumes "downlink_inv ops s" and "co_auth_tag_len ops \<le> 16"
    and "dl_pouch_buf (p_downlink s) = Some a" and "\<not> dl_pouch_header (p_downlink s)"
    and "data \<noteq> []" and "length (buf_contents (p_heap s) a @ data) \<le> dl_max ops"
    and "\<And>k. malloc_oracle (p_heap s) k \<noteq> None"
  shows "case dec (buf_contents (p_heap s) a @ data) of
      Inl e \<Rightarrow> (\<exists>s'. pouch_downlink_push ops dec data s = Some s'
        \<and> p_downlink s' = p_downlink s \<and> p_crypto s' = p_crypto s
        \<and> buf_contents (p_heap s') a = buf_contents (p_heap s) a @ data)
    | Inr (header, n) \<Rightarrow>
        (case co_downlink_start ops (ph_encryption_info header) (p_crypto s) of (err, c) \<Rightarrow>
           if is_err err
           then (\<exists>s'. pouch_downlink_push ops dec data s = Some s' \<and> p_downlink s' = p_downlink s
             \<and> p_crypto s' = c)
           else \<forall>bs end_part. drop n (buf_contents (p_heap s) a @ data) = concat bs @ end_part \<longrightarrow>
             list_all (valid_frame (dl_max ops)) bs \<longrightarrow> incomplete (dl_max ops) end_part \<longrightarrow>
             (\<exists>s' a' new. pouch_downlink_push ops dec data s = Some s' \<and> dl_pouch_header (p_downlink s')
               \<and> p_crypto s' = c \<and> dl_pouch_buf (p_downlink s') = Some a'
               \<and> dl_decrypt_queue (p_downlink s') = dl_decrypt_queue (p_downlink s) @ new
               \<and> map (buf_contents (p_heap s')) new = take 1 bs
               \<and> buf_contents (p_heap s') a' = concat (drop 1 bs) @ end_part))"
proof -
  let ?M = "dl_max ops" and ?ys = "buf_contents (p_heap s) a @ data"
  have M: "?M < SIZE_MOD" using assms(2) by (simp add: dl_max_def SIZE_MOD_num)
  obtain h where
    w: "read_buf a buf_size_get (p_heap s) = Some (length (buf_contents (p_heap s) a))"
      "length (buf_contents (p_heap s) a) < ?M" "upd_buf a (\<lambda>b. buf_write b data) (p_heap s) = Some h"
      "hstep (p_heap s) [(a, holding ?M (buf_contents (p_heap s) a))] h [(a, holding ?M ?ys)]"
    by (rule push_write [OF assms(1,3,6)])
  note o1 = hstep_own [OF w(4)]
  note ph = parse_header_eq [OF o1, of ops dec "p_crypto s"]
  have n: "min (length data) (?M - length (buf_contents (p_heap s) a)) = length data" using assms(6) by simp
  have ya: "buf_contents h a = ?ys" using o1 by (auto simp: own_Cons_iff holding_def buf_contents_def)
  show ?thesis
  proof (cases "dec ?ys")
    case (Inl e)
    have "push_pass ops dec data s = Some (None, s\<lparr>p_heap := h\<rparr>)"
      using assms(3,4) w(1-3) n ph Inl by (simp add: push_pass_def push_header_def Let_def)
    then have "pouch_downlink_push ops dec data s = Some (s\<lparr>p_heap := h\<rparr>)"
      using assms(5) by (subst pouch_downlink_push.simps) simp
    then show ?thesis using Inl ya by simp
  next
    case (Inr r)
    obtain header n' where r: "r = (header, n')" by (cases r)
    obtain err c where st: "co_downlink_start ops (ph_encryption_info header) (p_crypto s) = (err, c)" by fastforce
    show ?thesis
    proof (cases "is_err err")
      case True
      have "push_pass ops dec data s = Some (None, s\<lparr>p_heap := h, p_crypto := c\<rparr>)"
        using assms(3,4) w(1-3) n ph Inr r st True by (simp add: push_pass_def push_header_def Let_def)
      then have "pouch_downlink_push ops dec data s = Some (s\<lparr>p_heap := h, p_crypto := c\<rparr>)"
        using assms(5) by (subst pouch_downlink_push.simps) simp
      then show ?thesis using Inr r st True by simp
    next
      case False
      show ?thesis using Inr r st False push_header_accepted [OF assms, of dec header n' err c] by auto
    qed
  qed
qed

lemma downlink_push_header_witness:
  "\<exists>s' a' new. pouch_downlink_push crypto_none
      (\<lambda>_. Inr (\<lparr>ph_version = 1, ph_encryption_info = Plaintext_info []\<rparr>, 2)) [0x82, 1, 0, 2, 0xc0, 5]
      (set_downlink (\<lambda>d. d\<lparr>dl_pouch_header := False\<rparr>) (demo_down [])) = Some s'
    \<and> dl_pouch_header (p_downlink s') \<and> dl_decrypt_queue (p_downlink s') = new
    \<and> map (buf_contents (p_heap s')) new = [[0, 2, 0xc0, 5]]
    \<and> dl_pouch_buf (p_downlink s') = Some a' \<and> buf_contents (p_heap s') a' = []"
proof -
  let ?s = "set_downlink (\<lambda>d. d\<lparr>dl_pouch_header := False\<rparr>) (demo_down [])"
  have inv: "downlink_inv crypto_none ?s"
    using demo_down_ok(1) [of "[]"] by (simp add: downlink_inv_def downlink_roles_def)
  have c: "buf_contents (p_heap ?s) 0 = []" using demo_down_ok(2) [of "[]"] by simp
  have v: "list_all (valid_frame (dl_max crypto_none)) [[0, 2, 0xc0, 5]]" "incomplete (dl_max crypto_none) []"
    by (simp_all add: valid_frame_def frame_len_def get_be16_def incomplete_def)
  have start: "co_downlink_start crypto_none (Plaintext_info []) x = (OK, x)" for x
    by (simp add: crypto_none_def none_crypto_downlink_start_def)
  have q: "dl_decrypt_queue (p_downlink ?s) = []" by simp
  have "case (Inr (\<lparr>ph_version = 1, ph_encryption_info = Plaintext_info []\<rparr>, 2) :: nat + pouch_header \<times> nat) of
      Inl e \<Rightarrow> True
    | Inr (header, n) \<Rightarrow> \<forall>bs end_part. drop n ([] @ [0x82, 1, 0, 2, 0xc0, 5]) = concat bs @ end_part \<longrightarrow>
        list_all (valid_frame (dl_max crypto_none)) bs \<longrightarrow> incomplete (dl_max crypto_none) end_part \<longrightarrow>
        (\<exists>s' a' new. pouch_downlink_push crypto_none
            (\<lambda>_. Inr (\<lparr>ph_version = 1, ph_encryption_info = Plaintext_info []\<rparr>, 2)) [0x82, 1, 0, 2, 0xc0, 5] ?s = Some s'
          \<and> dl_pouch_header (p_downlink s') \<and> dl_pouch_buf (p_downlink s') = Some a'
          \<and> dl_decrypt_queue (p_downlink s') = dl_decrypt_queue (p_downlink ?s) @ new
          \<and> map (buf_contents (p_heap s')) new = take 1 bs
          \<and> buf_contents (p_heap s') a' = concat (drop 1 bs) @ end_part)"
    using downlink_push_header [OF inv, of 0 "[0x82, 1, 0, 2, 0xc0, 5]"
        "\<lambda>_. Inr (\<lparr>ph_version = 1, ph_encryption_info = Plaintext_info []\<rparr>, 2)", unfolded c]
    by (simp add: start) blast
  then have "\<exists>s' a' new. pouch_downlink_push crypto_none
            (\<lambda>_. Inr (\<lparr>ph_version = 1, ph_encryption_info = Plaintext_info []\<rparr>, 2)) [0x82, 1, 0, 2, 0xc0, 5] ?s = Some s'
          \<and> dl_pouch_header (p_downlink s') \<and> dl_pouch_buf (p_downlink s') = Some a'
          \<and> dl_decrypt_queue (p_downlink s') = [] @ new
          \<and> map (buf_contents (p_heap s')) new = take 1 [[0, 2, 0xc0, 5]]
          \<and> buf_contents (p_heap s') a' = concat (drop 1 [[0, 2, 0xc0, 5]]) @ []"
    using v unfolding q sum.case prod.case by (elim allE [of _ "[[0, 2, 0xc0, 5]]"] allE [of _ "[]"]) simp
  then show ?thesis by auto
qed

section \<open>Starting a downlink\<close>

text \<open>
  Every downlink after the first leaks a buffer. \<^verbatim>\<open>pouch_downlink_start()\<close> takes a new
  collecting buffer without releasing the previous one, and \<^verbatim>\<open>pouch_downlink_finish()\<close> does not
  release it either: the previous buffer stays allocated and is held by nobody, and the number of
  active buffers has grown by one.
\<close>

theorem downlink_start_leaks:
  assumes "downlink_inv ops s" and "co_auth_tag_len ops \<le> 16"
    and "dl_pouch_buf (p_downlink s) = Some a" and "\<And>k. malloc_oracle (p_heap s) k \<noteq> None"
  shows "a \<in> foreign (p_heap (pouch_downlink_start ops (pouch_downlink_finish s)))
           (downlink_roles ops (pouch_downlink_start ops (pouch_downlink_finish s)))
    \<and> buf_active_count (p_heap (pouch_downlink_start ops (pouch_downlink_finish s)))
        = buf_active_count (p_heap s) + 1"
proof -
  let ?M = "dl_max ops"
  have M: "?M < SIZE_MOD" using assms(2) by (simp add: dl_max_def SIZE_MOD_num)
  have own: "own (p_heap s) ([(a, collect_role ?M)]
      @ list_role (dl_decrypt_queue (p_downlink s)) (received_role (co_auth_tag_len ops))
      @ list_role (dl_consume_queue (p_downlink s)) any_role)"
    using assms(1,3) by (simp add: downlink_inv_def downlink_roles_def)
  then have a: "a \<notin> set (dl_decrypt_queue (p_downlink s))" "a \<notin> set (dl_consume_queue (p_downlink s))"
      "a \<in> live (p_heap s)"
    by (auto simp: own_Cons_iff in_live_iff image_Un image_image)
  show ?thesis
  proof (cases rule: buf_alloc_cases [OF own_heap_ok [OF own] M])
    case (1 h')
    then show ?thesis using assms(4) by simp
  next
    case (2 a' b h')
    have "a' \<noteq> a" using 2(3) a(3) by (auto simp: in_live_iff)
    then show ?thesis using 2 a
      by (simp add: pouch_downlink_start_def pouch_downlink_finish_def set_downlink_def foreign_def
          downlink_roles_def live_def buf_active_count_def Let_def image_Un image_image)
  qed
qed

lemma downlink_start_leaks_witness:
  "0 \<in> foreign (p_heap (pouch_downlink_start crypto_none (pouch_downlink_finish (demo_down []))))
        (downlink_roles crypto_none (pouch_downlink_start crypto_none (pouch_downlink_finish (demo_down []))))"
proof -
  have "co_auth_tag_len crypto_none \<le> 16" by simp
  moreover have "malloc_oracle (p_heap (demo_down [])) k \<noteq> None" for k by simp
  ultimately show ?thesis
    using downlink_start_leaks [OF demo_down_ok(1) _ demo_down_simps(1)] by simp
qed

end
