(* ===== verification/Cert.thy ===== *)
theory Cert
  imports Block
begin

text \<open>
  The certificate store of \<^verbatim>\<open>src/cert.c\<close>: the device certificate with its SHA-256 reference
  and the public key and serial number of the server certificate. Mbed TLS and the PSA hash are a
  record of functions; the CA certificate that the build includes and the configuration switch
  are part of that record.

  \<open>pc_buffer\<close> is the memory behind the pointer \<^verbatim>\<open>buffer\<close>; reading more of it than there is, is
  undefined behaviour (\<open>None\<close>).
\<close>

section \<open>Data\<close>

record pouch_cert =
  pc_buffer :: "u8 list option"
  pc_size :: nat

record pubkey =
  pk_data :: "u8 list"
  pk_len :: nat

record cert_serial =
  cs_data :: "u8 list"
  cs_len :: nat

text \<open>
  \<open>xe_ecp_write_public_key\<close> yields the status, the value stored in \<^verbatim>\<open>*olen\<close> and the bytes
  written to the output buffer, whose size it is given.
\<close>

record ('x, 'k) x509_env =
  xe_crt_parse :: "u8 list \<Rightarrow> int \<times> 'x"
  xe_crt_verify :: "'x \<Rightarrow> 'x \<Rightarrow> int"
  xe_serial :: "'x \<Rightarrow> u8 list"
  xe_pk_ec :: "'x \<Rightarrow> 'k option"
  xe_ecp_write_public_key :: "'k \<Rightarrow> nat \<Rightarrow> int \<times> nat \<times> u8 list"
  xe_hash_compute :: "u8 list \<Rightarrow> nat \<Rightarrow> int \<times> u8 list"
  xe_raw_ca_cert :: "u8 list"
  xe_validate :: bool

record 'x cert_state =
  device_certificate :: pouch_cert
  device_ref :: "u8 list"
  server_pubkey :: pubkey
  server_serial :: cert_serial
  loaded_ca :: "'x option"

definition CERT_REF_LEN :: nat where "CERT_REF_LEN = 32"
definition CERT_REF_SHORT_LEN :: nat where "CERT_REF_SHORT_LEN = 6"
definition CERT_SERIAL_MAXLEN :: nat where "CERT_SERIAL_MAXLEN = 20"

definition cert_static :: "nat \<Rightarrow> 'x cert_state" where
  "cert_static pubkey_len = \<lparr>device_certificate = \<lparr>pc_buffer = None, pc_size = 0\<rparr>,
     device_ref = replicate CERT_REF_LEN 0,
     server_pubkey = \<lparr>pk_data = replicate pubkey_len 0, pk_len = 0\<rparr>,
     server_serial = \<lparr>cs_data = replicate CERT_SERIAL_MAXLEN 0, cs_len = 0\<rparr>, loaded_ca = None\<rparr>"

section \<open>Operations\<close>

definition cert_is_valid :: "pouch_cert option \<Rightarrow> bool" where
  "cert_is_valid cert = (case cert of None \<Rightarrow> False | Some c \<Rightarrow> pc_buffer c \<noteq> None \<and> 0 < pc_size c)"

definition cert_bytes :: "pouch_cert \<Rightarrow> u8 list option" where
  "cert_bytes c = do { b \<leftarrow> pc_buffer c; mem_read b 0 (pc_size c) }"

definition parse_x509_cert :: "('x, 'k) x509_env \<Rightarrow> pouch_cert option \<Rightarrow> (errno + 'x) option" where
  "parse_x509_cert env cert =
     (if \<not> cert_is_valid cert then Some (Inl EINVAL)
      else do {
        c \<leftarrow> cert;
        bs \<leftarrow> cert_bytes c;
        (case xe_crt_parse env bs of (rc, x) \<Rightarrow> if rc \<noteq> 0 then Some (Inl EIO) else Some (Inr x)) })"

definition load_ca_cert :: "('x, 'k) x509_env \<Rightarrow> 'x cert_state \<Rightarrow> ('x option \<times> 'x cert_state) option" where
  "load_ca_cert env s =
     (case loaded_ca s of
        Some ca \<Rightarrow> Some (Some ca, s)
      | None \<Rightarrow> do {
          r \<leftarrow> parse_x509_cert env
                 (Some \<lparr>pc_buffer = Some (xe_raw_ca_cert env), pc_size = length (xe_raw_ca_cert env)\<rparr>);
          (case r of Inl e \<Rightarrow> Some (None, s) | Inr ca \<Rightarrow> Some (Some ca, s\<lparr>loaded_ca := Some ca\<rparr>)) })"

text \<open>The hash is written to the caller's array of \<^verbatim>\<open>CERT_REF_LEN\<close> bytes, which is returned.\<close>

definition generate_ref :: "('x, 'k) x509_env \<Rightarrow> pouch_cert \<Rightarrow> u8 list \<Rightarrow> (ret \<times> u8 list) option" where
  "generate_ref env cert cert_ref = do {
     bs \<leftarrow> cert_bytes cert;
     (case xe_hash_compute env bs CERT_REF_LEN of (status, hash) \<Rightarrow> do {
        cert_ref' \<leftarrow> mem_write cert_ref 0 hash;
        Some (if status \<noteq> 0 \<or> length hash \<noteq> CERT_REF_LEN then Err EIO else OK, cert_ref') }) }"

definition authenticate_server_cert ::
    "('x, 'k) x509_env \<Rightarrow> 'x \<Rightarrow> 'x cert_state \<Rightarrow> (ret \<times> 'x cert_state) option" where
  "authenticate_server_cert env cert s = do {
     (ca, s) \<leftarrow> load_ca_cert env s;
     (case ca of
        None \<Rightarrow> Some (Err EIO, s)
      | Some ca \<Rightarrow> Some (if xe_crt_verify env ca cert \<noteq> 0 then Err EPERM else OK, s)) }"

definition extract_pubkey :: "('x, 'k) x509_env \<Rightarrow> 'x \<Rightarrow> pubkey \<Rightarrow> (ret \<times> pubkey) option" where
  "extract_pubkey env cert out =
     (case xe_pk_ec env cert of
        None \<Rightarrow> Some (Err EIO, out)
      | Some key \<Rightarrow>
          (case xe_ecp_write_public_key env key (length (pk_data out)) of (err, olen, bs) \<Rightarrow> do {
             d \<leftarrow> mem_write (pk_data out) 0 bs;
             Some (if err \<noteq> 0 then Err EIO else OK, \<lparr>pk_data = d, pk_len = olen\<rparr>) }))"

definition cert_device_set ::
    "('x, 'k) x509_env \<Rightarrow> pouch_cert option \<Rightarrow> 'x cert_state \<Rightarrow> (ret \<times> 'x cert_state) option" where
  "cert_device_set env cert s =
     (if \<not> cert_is_valid cert then Some (Err EINVAL, s)
      else do {
        c \<leftarrow> cert;
        (err, ref) \<leftarrow> generate_ref env c (device_ref s);
        let s = s\<lparr>device_ref := ref\<rparr>;
        if is_err err then Some (err, s) else Some (OK, s\<lparr>device_certificate := c\<rparr>) })"

text \<open>
  The part of \<^verbatim>\<open>cert_server_set()\<close> after the authentication. A serial number that is too long
  leaves the function by \<^verbatim>\<open>goto exit\<close> with \<^verbatim>\<open>err\<close> still 0.
\<close>

definition server_cert_store ::
    "('x, 'k) x509_env \<Rightarrow> 'x \<Rightarrow> 'x cert_state \<Rightarrow> (ret \<times> 'x cert_state) option" where
  "server_cert_store env chain s =
     (if length (cs_data (server_serial s)) < length (xe_serial env chain) then Some (OK, s)
      else do {
        (err, pk) \<leftarrow> extract_pubkey env chain (server_pubkey s);
        let s = s\<lparr>server_pubkey := pk\<rparr>;
        if is_err err then Some (err, s)
        else do {
          d \<leftarrow> mem_write (cs_data (server_serial s)) 0 (xe_serial env chain);
          Some (OK, s\<lparr>server_serial := \<lparr>cs_data = d, cs_len = length (xe_serial env chain)\<rparr>\<rparr>) } })"

definition cert_server_set ::
    "('x, 'k) x509_env \<Rightarrow> pouch_cert option \<Rightarrow> 'x cert_state \<Rightarrow> (ret \<times> 'x cert_state) option" where
  "cert_server_set env certbuf s =
     (if \<not> cert_is_valid certbuf then Some (Err EINVAL, s)
      else do {
        r \<leftarrow> parse_x509_cert env certbuf;
        (case r of
           Inl e \<Rightarrow> Some (Err e, s)
         | Inr chain \<Rightarrow> do {
             (err, s) \<leftarrow> (if xe_validate env then authenticate_server_cert env chain s else Some (OK, s));
             if is_err err then Some (err, s) else server_cert_store env chain s }) })"

definition cert_ref_get :: "'x cert_state \<Rightarrow> u8 list option" where
  "cert_ref_get s = (if cert_is_valid (Some (device_certificate s)) then Some (device_ref s) else None)"

definition cert_server_key_get :: "'x cert_state \<Rightarrow> pubkey" where
  "cert_server_key_get s = server_pubkey s"

definition cert_has_server_info :: "'x cert_state \<Rightarrow> bool" where
  "cert_has_server_info s = (pk_len (server_pubkey s) \<noteq> 0)"

definition pouch_server_certificate_set ::
    "('x, 'k) x509_env \<Rightarrow> pouch_cert option \<Rightarrow> 'x cert_state \<Rightarrow> (ret \<times> 'x cert_state) option" where
  "pouch_server_certificate_set = cert_server_set"

text \<open>The getters return the bytes they copy to the caller; the first one returns their number.\<close>

definition pouch_server_certificate_serial_get :: "nat \<Rightarrow> 'x cert_state \<Rightarrow> (errno + u8 list) option" where
  "pouch_server_certificate_serial_get len s =
     (if len < cs_len (server_serial s) then Some (Inl EINVAL)
      else do { bs \<leftarrow> mem_read (cs_data (server_serial s)) 0 (cs_len (server_serial s)); Some (Inr bs) })"

definition pouch_device_certificate_ref_get :: "nat \<Rightarrow> 'x cert_state \<Rightarrow> (errno + u8 list) option" where
  "pouch_device_certificate_ref_get len s =
     (if \<not> cert_is_valid (Some (device_certificate s)) \<or> length (device_ref s) < len then Some (Inl EINVAL)
      else do { bs \<leftarrow> mem_read (device_ref s) 0 len; Some (Inr bs) })"

definition pouch_device_certificate_get :: "'x cert_state \<Rightarrow> errno + pouch_cert" where
  "pouch_device_certificate_get s =
     (if \<not> cert_is_valid (Some (device_certificate s)) then Inl ENOENT else Inr (device_certificate s))"

section \<open>The invariant\<close>

text \<open>
  What the libraries promise: the hash and the public key fit the room they are given, and a key
  that was written is as long as reported. A caller's certificate is as long as it says.
\<close>

definition x509_env_ok :: "('x, 'k) x509_env \<Rightarrow> bool" where
  "x509_env_ok env \<longleftrightarrow>
     (\<forall>bs n. length (snd (xe_hash_compute env bs n)) \<le> n)
     \<and> (\<forall>k n err olen bs. xe_ecp_write_public_key env k n = (err, olen, bs) \<longrightarrow>
          length bs \<le> n \<and> (err = 0 \<longrightarrow> olen = length bs))"

definition cert_ok :: "pouch_cert option \<Rightarrow> bool" where
  "cert_ok cert = (case cert of None \<Rightarrow> True
     | Some c \<Rightarrow> (case pc_buffer c of None \<Rightarrow> True | Some b \<Rightarrow> pc_size c \<le> length b))"

definition cert_inv :: "('x, 'k) x509_env \<Rightarrow> 'x cert_state \<Rightarrow> bool" where
  "cert_inv env s \<longleftrightarrow> length (device_ref s) = CERT_REF_LEN \<and> cert_ok (Some (device_certificate s))
     \<and> length (cs_data (server_serial s)) = CERT_SERIAL_MAXLEN \<and> cs_len (server_serial s) \<le> CERT_SERIAL_MAXLEN
     \<and> (\<forall>ca. loaded_ca s = Some ca \<longrightarrow> xe_crt_parse env (xe_raw_ca_cert env) = (0, ca))"

lemma cert_inv_static: "cert_inv env (cert_static n)"
  by (simp add: cert_inv_def cert_static_def cert_ok_def)

lemma cert_bytes_ok: "cert_ok (Some c) \<Longrightarrow> cert_is_valid (Some c) \<Longrightarrow>
    \<exists>b. pc_buffer c = Some b \<and> cert_bytes c = Some (take (pc_size c) b)"
  by (auto simp: cert_ok_def cert_is_valid_def cert_bytes_def mem_read_def)

lemma parse_x509_cert_ok:
  assumes "cert_ok (Some c)" and "cert_is_valid (Some c)" and "cert_bytes c = Some bs"
  shows "parse_x509_cert env (Some c)
    = Some (if fst (xe_crt_parse env bs) \<noteq> 0 then Inl EIO else Inr (snd (xe_crt_parse env bs)))"
  using assms by (simp add: parse_x509_cert_def split_beta)

lemma mem_write_prefix: "length bs \<le> length m \<Longrightarrow> mem_write m 0 bs = Some (bs @ drop (length bs) m)"
  by (simp add: mem_write_def)

lemma load_ca_cert_ok:
  assumes "cert_inv env s"
  obtains ca s' where "load_ca_cert env s = Some (ca, s')" "cert_inv env s'"
    "device_certificate s' = device_certificate s" "device_ref s' = device_ref s"
    "server_pubkey s' = server_pubkey s" "server_serial s' = server_serial s"
    "\<And>x. ca = Some x \<Longrightarrow> xe_crt_parse env (xe_raw_ca_cert env) = (0, x)"
proof (cases "loaded_ca s")
  case (Some x)
  with assms show ?thesis by (intro that [of "Some x" s]) (auto simp: load_ca_cert_def cert_inv_def)
next
  case None
  let ?raw = "xe_raw_ca_cert env"
  let ?c = "\<lparr>pc_buffer = Some ?raw, pc_size = length ?raw\<rparr>"
  show ?thesis
  proof (cases "?raw \<noteq> [] \<and> fst (xe_crt_parse env ?raw) = 0")
    case True
    then have "parse_x509_cert env (Some ?c) = Some (Inr (snd (xe_crt_parse env ?raw)))"
      by (simp add: parse_x509_cert_def cert_is_valid_def cert_bytes_def mem_read_def split_beta)
    with None True assms show ?thesis
      by (intro that [of "Some (snd (xe_crt_parse env ?raw))" "s\<lparr>loaded_ca := Some (snd (xe_crt_parse env ?raw))\<rparr>"])
         (auto simp: load_ca_cert_def cert_inv_def prod_eq_iff)
  next
    case False
    then have "\<exists>e. parse_x509_cert env (Some ?c) = Some (Inl e)"
      by (auto simp: parse_x509_cert_def cert_is_valid_def cert_bytes_def mem_read_def split_beta)
    with None assms show ?thesis by (intro that [of None s]) (auto simp: load_ca_cert_def)
  qed
qed

lemma extract_pubkey_ok:
  assumes "x509_env_ok env"
  obtains err pk where "extract_pubkey env chain out = Some (err, pk)"
    "length (pk_data pk) = length (pk_data out)"
    "err = OK \<Longrightarrow> \<exists>key. xe_pk_ec env chain = Some key \<and>
       xe_ecp_write_public_key env key (length (pk_data out)) = (0, pk_len pk, take (pk_len pk) (pk_data pk))"
proof (cases "xe_pk_ec env chain")
  case None
  then show ?thesis by (intro that [of "Err EIO" out]) (auto simp: extract_pubkey_def)
next
  case (Some key)
  obtain err olen bs where k: "xe_ecp_write_public_key env key (length (pk_data out)) = (err, olen, bs)"
    by (cases "xe_ecp_write_public_key env key (length (pk_data out))")
  with assms have l: "length bs \<le> length (pk_data out)" "err = 0 \<Longrightarrow> olen = length bs"
    by (auto simp: x509_env_ok_def)
  show ?thesis
    using Some k l
    by (intro that [of "if err \<noteq> 0 then Err EIO else OK"
          "\<lparr>pk_data = bs @ drop (length bs) (pk_data out), pk_len = olen\<rparr>"])
       (auto simp: extract_pubkey_def mem_write_prefix split: if_splits)
qed

lemma server_cert_store_ok:
  assumes "cert_inv env s" and "x509_env_ok env"
  obtains r s' where "server_cert_store env chain s = Some (r, s')" "cert_inv env s'"
    "device_certificate s' = device_certificate s" "device_ref s' = device_ref s"
    "is_err r \<Longrightarrow> server_serial s' = server_serial s"
    "CERT_SERIAL_MAXLEN < length (xe_serial env chain) \<Longrightarrow> r = OK \<and> s' = s"
    "r = OK \<Longrightarrow> length (xe_serial env chain) \<le> CERT_SERIAL_MAXLEN \<Longrightarrow>
       pouch_server_certificate_serial_get CERT_SERIAL_MAXLEN s' = Some (Inr (xe_serial env chain))
       \<and> (\<exists>key. xe_pk_ec env chain = Some key \<and>
         xe_ecp_write_public_key env key (length (pk_data (server_pubkey s)))
           = (0, pk_len (server_pubkey s'), take (pk_len (server_pubkey s')) (pk_data (server_pubkey s'))))"
proof (cases "CERT_SERIAL_MAXLEN < length (xe_serial env chain)")
  case True
  with assms show ?thesis by (intro that [of OK s]) (auto simp: server_cert_store_def cert_inv_def)
next
  case False
  let ?ser = "xe_serial env chain"
  from extract_pubkey_ok [OF assms(2), of chain "server_pubkey s"] obtain err pk where
    pk: "extract_pubkey env chain (server_pubkey s) = Some (err, pk)"
      "err = OK \<Longrightarrow> \<exists>key. xe_pk_ec env chain = Some key \<and>
       xe_ecp_write_public_key env key (length (pk_data (server_pubkey s)))
         = (0, pk_len pk, take (pk_len pk) (pk_data pk))" by blast
  have len: "length (cs_data (server_serial s)) = CERT_SERIAL_MAXLEN" using assms(1) by (simp add: cert_inv_def)
  let ?s1 = "s\<lparr>server_pubkey := pk\<rparr>"
  let ?s2 = "?s1\<lparr>server_serial := \<lparr>cs_data = ?ser @ drop (length ?ser) (cs_data (server_serial s)),
       cs_len = length ?ser\<rparr>\<rparr>"
  show ?thesis
  proof (cases err)
    case OK
    have "server_cert_store env chain s = Some (OK, ?s2)"
      using False len pk(1) OK by (simp add: server_cert_store_def mem_write_prefix Let_def)
    moreover have "cert_inv env ?s2" using assms(1) False len by (auto simp: cert_inv_def)
    ultimately show ?thesis using False pk(2) [OF OK]
      by (intro that [of OK ?s2]) (auto simp: pouch_server_certificate_serial_get_def mem_read_def)
  next
    case (Err e)
    have "server_cert_store env chain s = Some (Err e, ?s1)"
      using False len pk(1) Err by (simp add: server_cert_store_def Let_def)
    moreover have "cert_inv env ?s1" using assms(1) by (auto simp: cert_inv_def)
    ultimately show ?thesis using False by (intro that [of "Err e" ?s1]) auto
  qed
qed

lemma authenticate_ok:
  assumes "cert_inv env s"
  obtains err s' where "authenticate_server_cert env chain s = Some (err, s')" "cert_inv env s'"
    "device_certificate s' = device_certificate s" "device_ref s' = device_ref s"
    "server_pubkey s' = server_pubkey s" "server_serial s' = server_serial s"
    "err = OK \<Longrightarrow> \<exists>ca. xe_crt_parse env (xe_raw_ca_cert env) = (0, ca) \<and> xe_crt_verify env ca chain = 0"
proof -
  from load_ca_cert_ok [OF assms] obtain ca s' where l: "load_ca_cert env s = Some (ca, s')" "cert_inv env s'"
    "device_certificate s' = device_certificate s" "device_ref s' = device_ref s"
    "server_pubkey s' = server_pubkey s" "server_serial s' = server_serial s"
    "\<And>x. ca = Some x \<Longrightarrow> xe_crt_parse env (xe_raw_ca_cert env) = (0, x)" by metis
  then show ?thesis
    by (intro that [of "case ca of None \<Rightarrow> Err EIO | Some ca \<Rightarrow> if xe_crt_verify env ca chain \<noteq> 0 then Err EPERM else OK" s'])
       (auto simp: authenticate_server_cert_def split: option.splits if_splits)
qed

section \<open>Properties\<close>

text \<open>The gate: what must hold of a certificate before anything of it is stored.\<close>

definition authentic :: "('x, 'k) x509_env \<Rightarrow> 'x \<Rightarrow> bool" where
  "authentic env chain \<longleftrightarrow> (xe_validate env \<longrightarrow>
     (\<exists>ca. xe_crt_parse env (xe_raw_ca_cert env) = (0, ca) \<and> xe_crt_verify env ca chain = 0))"

lemma server_gate_ok:
  assumes "cert_inv env s"
  obtains err s' where
    "(if xe_validate env then authenticate_server_cert env chain s else Some (OK, s)) = Some (err, s')"
    "cert_inv env s'" "device_certificate s' = device_certificate s" "device_ref s' = device_ref s"
    "server_pubkey s' = server_pubkey s" "server_serial s' = server_serial s" "err = OK \<Longrightarrow> authentic env chain"
proof (cases "xe_validate env")
  case True
  from authenticate_ok [OF assms] obtain err s' where "authenticate_server_cert env chain s = Some (err, s')"
    "cert_inv env s'" "device_certificate s' = device_certificate s" "device_ref s' = device_ref s"
    "server_pubkey s' = server_pubkey s" "server_serial s' = server_serial s"
    "err = OK \<Longrightarrow> \<exists>ca. xe_crt_parse env (xe_raw_ca_cert env) = (0, ca) \<and> xe_crt_verify env ca chain = 0"
    by metis
  with True show ?thesis by (intro that [of err s']) (auto simp: authentic_def)
next
  case False
  with assms show ?thesis by (intro that [of OK s]) (auto simp: authentic_def)
qed

text \<open>
  Property C26. Only an authentic server certificate gets into the store. Whatever the
  transport passes in, \<^verbatim>\<open>cert_server_set()\<close> returns and keeps the store well-formed and the
  device certificate as it was. If the server key or the serial number changed at all, the
  certificate parsed and, when validation is configured, was verified against the CA certificate
  of the build. On success with a serial number of at most 20 bytes, the key and the serial number
  are those of the certificate; after an error the serial number is the old one.
\<close>

theorem cert_server_authenticated:
  assumes "cert_inv env s" and "x509_env_ok env" and "cert_ok cert"
  shows "\<exists>r s'. cert_server_set env cert s = Some (r, s') \<and> cert_inv env s'
    \<and> device_certificate s' = device_certificate s \<and> device_ref s' = device_ref s
    \<and> (is_err r \<longrightarrow> server_serial s' = server_serial s)
    \<and> (server_pubkey s' = server_pubkey s \<and> server_serial s' = server_serial s \<and> is_err r
       \<or> (\<exists>c bs chain. cert = Some c \<and> cert_bytes c = Some bs \<and> xe_crt_parse env bs = (0, chain)
           \<and> authentic env chain
           \<and> (r = OK \<and> length (xe_serial env chain) \<le> CERT_SERIAL_MAXLEN \<longrightarrow>
               pouch_server_certificate_serial_get CERT_SERIAL_MAXLEN s' = Some (Inr (xe_serial env chain))
               \<and> (\<exists>key. xe_pk_ec env chain = Some key \<and>
                 xe_ecp_write_public_key env key (length (pk_data (server_pubkey s)))
                   = (0, pk_len (server_pubkey s'), take (pk_len (server_pubkey s')) (pk_data (server_pubkey s')))))))"
proof (cases "cert_is_valid cert")
  case False
  then show ?thesis using assms(1) by (simp add: cert_server_set_def)
next
  case True
  then obtain c where c: "cert = Some c" by (auto simp: cert_is_valid_def split: option.splits)
  obtain b where b: "cert_bytes c = Some (take (pc_size c) b)"
    using cert_bytes_ok [of c] assms(3) True c by auto
  let ?bs = "take (pc_size c) b"
  note parse = parse_x509_cert_ok [OF assms(3) [unfolded c] True [unfolded c] b, of env]
  show ?thesis
  proof (cases "fst (xe_crt_parse env ?bs) = 0")
    case False
    then have "cert_server_set env cert s = Some (Err EIO, s)"
      using True c parse by (simp add: cert_server_set_def)
    then show ?thesis using assms(1) by simp
  next
    case p: True
    let ?x = "snd (xe_crt_parse env ?bs)"
    have px: "xe_crt_parse env ?bs = (0, ?x)" using p by (simp add: prod_eq_iff)
    from server_gate_ok [OF assms(1), of ?x] obtain err s1 where
      g: "(if xe_validate env then authenticate_server_cert env ?x s else Some (OK, s)) = Some (err, s1)"
      and s1: "cert_inv env s1" "device_certificate s1 = device_certificate s" "device_ref s1 = device_ref s"
        "server_pubkey s1 = server_pubkey s" "server_serial s1 = server_serial s" "err = OK \<Longrightarrow> authentic env ?x"
      by metis
    have eq: "cert_server_set env cert s = (if is_err err then Some (err, s1) else server_cert_store env ?x s1)"
      using True c parse p g by (simp add: cert_server_set_def)
    show ?thesis
    proof (cases err)
      case (Err e)
      then show ?thesis using eq s1 by simp
    next
      case OK
      from server_cert_store_ok [OF s1(1) assms(2), of ?x] obtain r s' where
        st: "server_cert_store env ?x s1 = Some (r, s')" "cert_inv env s'"
          "device_certificate s' = device_certificate s1" "device_ref s' = device_ref s1"
          "is_err r \<Longrightarrow> server_serial s' = server_serial s1"
          "r = OK \<Longrightarrow> length (xe_serial env ?x) \<le> CERT_SERIAL_MAXLEN \<Longrightarrow>
            pouch_server_certificate_serial_get CERT_SERIAL_MAXLEN s' = Some (Inr (xe_serial env ?x))
            \<and> (\<exists>key. xe_pk_ec env ?x = Some key \<and>
              xe_ecp_write_public_key env key (length (pk_data (server_pubkey s1)))
              = (0, pk_len (server_pubkey s'), take (pk_len (server_pubkey s')) (pk_data (server_pubkey s'))))"
        by metis
      then show ?thesis using eq s1 OK c b px by (intro exI [of _ r] exI [of _ s']) auto
    qed
  qed
qed

text \<open>A small instance: a certificate is its own bytes, its serial number all but the first.\<close>

definition demo_env :: "bool \<Rightarrow> (u8 list, u8) x509_env" where
  "demo_env validate = \<lparr>xe_crt_parse = (\<lambda>bs. (0, bs)), xe_crt_verify = (\<lambda>ca x. if hd ca = hd x then 0 else 1),
     xe_serial = List.tl, xe_pk_ec = (\<lambda>x. Some (hd x)),
     xe_ecp_write_public_key = (\<lambda>k n. if n = 0 then (1, 0, []) else (0, 1, [k])),
     xe_hash_compute = (\<lambda>bs n. (0, take n (bs @ replicate n 0))), xe_raw_ca_cert = [4], xe_validate = validate\<rparr>"

lemma demo_env_ok: "x509_env_ok (demo_env validate)"
  by (auto simp: x509_env_ok_def demo_env_def split: if_splits)

lemma cert_server_authenticated_witness:
  "\<exists>r s'. cert_server_set (demo_env True) (Some \<lparr>pc_buffer = Some [5, 9], pc_size = 2\<rparr>) (cert_static 65) = Some (r, s')
    \<and> is_err r \<and> server_pubkey s' = server_pubkey (cert_static 65 :: u8 list cert_state)"
proof -
  have "cert_ok (Some \<lparr>pc_buffer = Some [5, 9], pc_size = 2\<rparr>)" by (simp add: cert_ok_def)
  from cert_server_authenticated [OF cert_inv_static demo_env_ok this, of True 65] show ?thesis
    by (auto simp: authentic_def demo_env_def cert_bytes_def mem_read_def)
qed

text \<open>
  A server certificate whose serial number is longer than 20 bytes is reported as
  accepted and is not stored: \<^verbatim>\<open>cert_server_set()\<close> returns 0 with the old key and the old serial
  number still in place.
\<close>

theorem cert_server_long_serial:
  assumes "cert_inv env s" and "cert_ok (Some c)" and "cert_is_valid (Some c)" and "cert_bytes c = Some bs"
    and "xe_crt_parse env bs = (0, chain)" and "\<not> xe_validate env"
    and "CERT_SERIAL_MAXLEN < length (xe_serial env chain)"
  shows "cert_server_set env (Some c) s = Some (OK, s)"
  using assms parse_x509_cert_ok [OF assms(2-4), of env]
  by (simp add: cert_server_set_def server_cert_store_def cert_inv_def)

lemma cert_server_long_serial_witness:
  "cert_server_set (demo_env False) (Some \<lparr>pc_buffer = Some (replicate 22 7), pc_size = 22\<rparr>) (cert_static 65)
    = Some (OK, cert_static 65)"
  by (rule cert_server_long_serial [OF cert_inv_static, where bs = "replicate 22 7" and chain = "replicate 22 7"])
     (simp_all add: cert_ok_def cert_is_valid_def cert_bytes_def mem_read_def demo_env_def CERT_SERIAL_MAXLEN_def)

lemma cert_device_set_step:
  assumes "cert_inv env s" and "cert_ok cert" and "\<And>bs. fst (xe_hash_compute env bs CERT_REF_LEN) = 0
      \<and> length (snd (xe_hash_compute env bs CERT_REF_LEN)) = CERT_REF_LEN"
  shows "\<exists>r s'. cert_device_set env cert s = Some (r, s') \<and> cert_inv env s'
    \<and> server_pubkey s' = server_pubkey s \<and> server_serial s' = server_serial s
    \<and> (if cert_is_valid cert then r = OK \<and> (\<exists>c bs. cert = Some c \<and> cert_bytes c = Some bs
           \<and> pouch_device_certificate_get s' = Inr c
           \<and> (\<forall>n. pouch_device_certificate_ref_get n s' = Some (if CERT_REF_LEN < n then Inl EINVAL
                else Inr (take n (snd (xe_hash_compute env bs CERT_REF_LEN))))))
       else r = Err EINVAL \<and> s' = s)"
proof (cases "cert_is_valid cert")
  case False
  then show ?thesis using assms(1) by (simp add: cert_device_set_def)
next
  case True
  then obtain c where c: "cert = Some c" by (auto simp: cert_is_valid_def split: option.splits)
  obtain bs where b: "cert_bytes c = Some bs"
    using cert_bytes_ok [of c] assms(2) True c by auto
  let ?hash = "snd (xe_hash_compute env bs CERT_REF_LEN)"
  let ?s' = "s\<lparr>device_ref := ?hash, device_certificate := c\<rparr>"
  have l: "length ?hash = CERT_REF_LEN" "fst (xe_hash_compute env bs CERT_REF_LEN) = 0"
    "length (device_ref s) = CERT_REF_LEN"
    using assms(1,3) by (simp_all add: cert_inv_def)
  then have "generate_ref env c (device_ref s) = Some (OK, ?hash)"
    using b by (simp add: generate_ref_def split_beta mem_write_prefix)
  then have e: "cert_device_set env cert s = Some (OK, ?s')"
    using True c by (simp add: cert_device_set_def Let_def)
  have inv: "cert_inv env ?s'" using assms(1,2) l c by (simp add: cert_inv_def)
  have get: "pouch_device_certificate_get ?s' = Inr c"
    using True c by (simp add: pouch_device_certificate_get_def)
  have ref: "pouch_device_certificate_ref_get n ?s'
      = Some (if CERT_REF_LEN < n then Inl EINVAL else Inr (take n ?hash))" for n
    using True c l by (simp add: pouch_device_certificate_ref_get_def mem_read_def)
  show ?thesis using e inv get ref b c True by auto
qed

text \<open>
  The device certificate. Setting a certificate whose hash has 32 bytes succeeds,
  and from then on the certificate is handed out as it was set and its reference, at any length up
  to 32, is that prefix of the hash; an unusable certificate is refused and changes nothing. The
  server's side of the store is not touched.
\<close>

theorem cert_device_set_ref:
  assumes "cert_inv env s" and "cert_ok cert" and "\<And>bs. fst (xe_hash_compute env bs CERT_REF_LEN) = 0
      \<and> length (snd (xe_hash_compute env bs CERT_REF_LEN)) = CERT_REF_LEN"
  shows "\<exists>r s'. cert_device_set env cert s = Some (r, s') \<and> cert_inv env s'
    \<and> server_pubkey s' = server_pubkey s \<and> server_serial s' = server_serial s
    \<and> (if cert_is_valid cert then r = OK \<and> (\<exists>c bs. cert = Some c \<and> cert_bytes c = Some bs
           \<and> pouch_device_certificate_get s' = Inr c
           \<and> (\<forall>n. pouch_device_certificate_ref_get n s' = Some (if CERT_REF_LEN < n then Inl EINVAL
                else Inr (take n (snd (xe_hash_compute env bs CERT_REF_LEN))))))
       else r = Err EINVAL \<and> s' = s)"
  by (rule cert_device_set_step [OF assms])

lemma cert_device_set_ref_witness:
  "\<exists>s'. cert_device_set (demo_env True) (Some \<lparr>pc_buffer = Some [1, 2, 3, 4, 5, 6, 7], pc_size = 7\<rparr>) (cert_static 65)
      = Some (OK, s')
    \<and> pouch_device_certificate_ref_get CERT_REF_SHORT_LEN s' = Some (Inr [1, 2, 3, 4, 5, 6])"
proof -
  let ?c = "\<lparr>pc_buffer = Some [1, 2, 3, 4, 5, 6, 7 :: u8], pc_size = 7\<rparr>"
  have c: "cert_ok (Some ?c)" "cert_is_valid (Some ?c)" "cert_bytes ?c = Some [1, 2, 3, 4, 5, 6, 7]"
    by (simp_all add: cert_ok_def cert_is_valid_def cert_bytes_def mem_read_def)
  have h: "fst (xe_hash_compute (demo_env True) bs CERT_REF_LEN) = 0
      \<and> length (snd (xe_hash_compute (demo_env True) bs CERT_REF_LEN)) = CERT_REF_LEN" for bs
    by (simp add: demo_env_def)
  have v: "take CERT_REF_SHORT_LEN (snd (xe_hash_compute (demo_env True) [1, 2, 3, 4, 5, 6, 7] CERT_REF_LEN))
      = [1, 2, 3, 4, 5, 6]"
    by (simp add: demo_env_def CERT_REF_LEN_def CERT_REF_SHORT_LEN_def)
  have n: "\<not> CERT_REF_LEN < CERT_REF_SHORT_LEN" by (simp add: CERT_REF_LEN_def CERT_REF_SHORT_LEN_def)
  from cert_device_set_ref [OF cert_inv_static [of "demo_env True" 65] c(1) h] c(2,3) v n show ?thesis by auto
qed

end
