(* ===== verification/Gatt.thy ===== *)
theory Gatt
  imports Packetizer Machine Downlink Cert
begin

text \<open>
  The GATT characteristics of \<^verbatim>\<open>src/transport/ble_gatt\<close>: the read and write callbacks that the
  Bluetooth stack calls, on the static context of each characteristic, the pouch and the
  certificate store. The stack gives a read callback a buffer of \<^verbatim>\<open>len\<close> bytes. A callback
  returns an ATT error or the bytes it put in the buffer (a read), or the number of bytes it took
  (a write). \<open>mem\<close> says whether a \<^verbatim>\<open>malloc()\<close> of the call succeeds.
\<close>

section \<open>Data\<close>

datatype att_error = BT_ATT_ERR_UNLIKELY | BT_ATT_ERR_NOT_SUPPORTED | BT_ATT_ERR_INSUFFICIENT_RESOURCES

datatype read_result = Read_err att_error | Read_int int | Read_bytes "u8 list"

datatype write_result = Write_err att_error | Write_len nat

record server_cert_ctx =
  sc_cert :: pouch_cert
  sc_serial :: "u8 list"
  sc_serial_len :: u8
  sc_serial_offset :: u8

section \<open>The uplink characteristic\<close>

definition uplink_fill_cb :: "'c crypto_ops \<Rightarrow> (uplink_ptr, 'c pouch) fill_cb" where
  "uplink_fill_cb ops pouch room s = do {
     ((pouch_ret, n, bs), s) \<leftarrow> pouch_uplink_fill ops pouch room s;
     if pouch_ret = POUCH_ERROR then do {
       s \<leftarrow> pouch_uplink_finish ops pouch s; Some (GOLIOTH_BLE_GATT_PACKETIZER_ERROR, bs, s) }
     else if pouch_ret = POUCH_NO_MORE_DATA then do {
       s \<leftarrow> pouch_uplink_finish ops pouch s; Some (GOLIOTH_BLE_GATT_PACKETIZER_NO_MORE_DATA, bs, s) }
     else Some (GOLIOTH_BLE_GATT_PACKETIZER_MORE_DATA, bs, s) }"

text \<open>The part that the read callbacks share: get a packet and drop the packetizer at the end.\<close>

definition read_packet ::
    "('a, 'w) fill_cb \<Rightarrow> nat \<Rightarrow> 'a packetizer option \<Rightarrow> 'w \<Rightarrow> (read_result \<times> 'a packetizer option \<times> 'w) option" where
  "read_packet func len packetizer w = do {
     (ret, bs, pz, w) \<leftarrow> packetizer_get func packetizer len w;
     Some (if ret = GOLIOTH_BLE_GATT_PACKETIZER_ERROR then (Read_err BT_ATT_ERR_UNLIKELY, None, w)
           else if ret = GOLIOTH_BLE_GATT_PACKETIZER_NO_MORE_DATA then (Read_bytes bs, None, w)
           else (Read_bytes bs, Some pz, w)) }"

definition uplink_read ::
    "'c crypto_ops \<Rightarrow> header_encoder \<Rightarrow> bool \<Rightarrow> nat \<Rightarrow> nat \<Rightarrow> uplink_ptr packetizer option \<Rightarrow> 'c pouch
      \<Rightarrow> (read_result \<times> uplink_ptr packetizer option \<times> 'c pouch) option" where
  "uplink_read ops enc mem len offset packetizer s =
     (if offset \<noteq> 0 then Some (Read_bytes [], packetizer, s)
      else do {
        (packetizer, s) \<leftarrow>
          (case packetizer of
             None \<Rightarrow> do { (pouch, s) \<leftarrow> pouch_uplink_start ops enc s; Some (packetizer_start_callback mem pouch, s) }
           | Some pz \<Rightarrow> Some (packetizer, s));
        read_packet (uplink_fill_cb ops) len packetizer s })"

section \<open>The downlink characteristic\<close>

definition downlink_write ::
    "'c crypto_ops \<Rightarrow> header_decoder \<Rightarrow> u8 list \<Rightarrow> 'c pouch \<Rightarrow> (write_result \<times> 'c pouch) option" where
  "downlink_write ops dec buf s =
     (case packetizer_decode (Some buf) True of
        Inl e \<Rightarrow> Some (Write_err BT_ATT_ERR_UNLIKELY, s)
      | Inr (payload, is_first, is_last) \<Rightarrow> do {
          let s = (if is_first then Downlink.pouch_downlink_start ops s else s);
          s \<leftarrow> pouch_downlink_push ops dec payload s;
          Some (Write_len (length buf), if is_last then pouch_downlink_finish s else s) })"

section \<open>The certificate characteristics\<close>

definition device_cert_fill_cb :: "(unit, pouch_cert) fill_cb" where
  "device_cert_fill_cb user_arg maxlen cert = do {
     let n = min maxlen (pc_size cert);
     buffer \<leftarrow> pc_buffer cert;
     bs \<leftarrow> mem_read buffer 0 n;
     Some (if pc_size cert - n = 0 then GOLIOTH_BLE_GATT_PACKETIZER_NO_MORE_DATA else GOLIOTH_BLE_GATT_PACKETIZER_MORE_DATA,
           bs, \<lparr>pc_buffer = Some (drop n buffer), pc_size = pc_size cert - n\<rparr>) }"

definition device_cert_read ::
    "bool \<Rightarrow> nat \<Rightarrow> nat \<Rightarrow> 'x cert_state \<Rightarrow> unit packetizer option \<Rightarrow> pouch_cert
      \<Rightarrow> (read_result \<times> unit packetizer option \<times> pouch_cert) option" where
  "device_cert_read mem len offset cs packetizer cert =
     (if offset \<noteq> 0 then Some (Read_bytes [], packetizer, cert)
      else case packetizer of
        None \<Rightarrow>
          (case pouch_device_certificate_get cs of
             Inl e \<Rightarrow> Some (Read_err BT_ATT_ERR_NOT_SUPPORTED, None, cert)
           | Inr cert \<Rightarrow> read_packet device_cert_fill_cb len (packetizer_start_callback mem ()) cert)
      | Some pz \<Rightarrow> read_packet device_cert_fill_cb len packetizer cert)"

text \<open>The difference of the two bytes is an \<^verbatim>\<open>int\<close> that \<^verbatim>\<open>MIN\<close> converts to \<^verbatim>\<open>size_t\<close>.\<close>

definition server_cert_serial_fill_cb :: "(unit, server_cert_ctx) fill_cb" where
  "server_cert_serial_fill_cb user_arg maxlen ctx = do {
     let n = min maxlen (szt_sub (unat (sc_serial_len ctx)) (unat (sc_serial_offset ctx)));
     bs \<leftarrow> mem_read (sc_serial ctx) (unat (sc_serial_offset ctx)) n;
     let ctx = ctx\<lparr>sc_serial_offset := sc_serial_offset ctx + of_nat n\<rparr>;
     Some (if sc_serial_len ctx \<le> sc_serial_offset ctx then GOLIOTH_BLE_GATT_PACKETIZER_NO_MORE_DATA
           else GOLIOTH_BLE_GATT_PACKETIZER_MORE_DATA, bs, ctx) }"

definition server_cert_serial_read ::
    "bool \<Rightarrow> nat \<Rightarrow> nat \<Rightarrow> 'x cert_state \<Rightarrow> unit packetizer option \<Rightarrow> server_cert_ctx
      \<Rightarrow> (read_result \<times> unit packetizer option \<times> server_cert_ctx) option" where
  "server_cert_serial_read mem len offset cs packetizer ctx =
     (if offset \<noteq> 0 then Some (Read_bytes [], packetizer, ctx)
      else case packetizer of
        None \<Rightarrow> do {
          r \<leftarrow> pouch_server_certificate_serial_get (length (sc_serial ctx)) cs;
          (case r of
             Inl e \<Rightarrow> Some (Read_err BT_ATT_ERR_NOT_SUPPORTED, None, ctx)
           | Inr serial \<Rightarrow> do {
               m \<leftarrow> mem_write (sc_serial ctx) 0 serial;
               let ctx = ctx\<lparr>sc_serial := m, sc_serial_len := of_nat (length serial), sc_serial_offset := 0\<rparr>;
               read_packet server_cert_serial_fill_cb len (packetizer_start_callback mem ()) ctx }) }
      | Some pz \<Rightarrow> read_packet server_cert_serial_fill_cb len packetizer ctx)"

definition CONFIG_POUCH_SERVER_CERT_MAX_LEN :: nat where
  "CONFIG_POUCH_SERVER_CERT_MAX_LEN = 4096"

text \<open>
  \<open>oracle\<close> is what the allocation of the certificate buffer yields: its contents, or nothing. The
  last result says whether the connection is closed.
\<close>

definition server_cert_write ::
    "('x, 'k) x509_env \<Rightarrow> (nat \<Rightarrow> u8) option \<Rightarrow> u8 list \<Rightarrow> server_cert_ctx \<Rightarrow> 'x cert_state
      \<Rightarrow> (write_result \<times> server_cert_ctx \<times> 'x cert_state \<times> bool) option" where
  "server_cert_write env oracle buf ctx cs =
     (case packetizer_decode (Some buf) True of
        Inl e \<Rightarrow> Some (Write_err BT_ATT_ERR_UNLIKELY, ctx, cs, False)
      | Inr (payload, is_first, is_last) \<Rightarrow>
          if payload = [] then Some (Write_err BT_ATT_ERR_UNLIKELY, ctx, cs, False)
          else
            let cert = (if is_first
                  then \<lparr>pc_buffer = map_option (\<lambda>f. map f [0..<CONFIG_POUCH_SERVER_CERT_MAX_LEN]) oracle, pc_size = 0\<rparr>
                  else sc_cert ctx) in
            case pc_buffer cert of
              None \<Rightarrow> Some (Write_err BT_ATT_ERR_INSUFFICIENT_RESOURCES, ctx\<lparr>sc_cert := cert\<rparr>, cs, False)
            | Some m \<Rightarrow> do {
                m \<leftarrow> mem_write m (pc_size cert) payload;
                let cert = \<lparr>pc_buffer = Some m, pc_size = pc_size cert + length payload\<rparr>;
                if is_last then do {
                  (err, cs) \<leftarrow> pouch_server_certificate_set env (Some cert) cs;
                  Some (Write_len (length buf), ctx\<lparr>sc_cert := cert\<lparr>pc_buffer := None\<rparr>\<rparr>, cs, is_err err) }
                else Some (Write_len (length buf), ctx\<lparr>sc_cert := cert\<rparr>, cs, False) })"

section \<open>The info characteristic\<close>

definition INFO_CHRC_MAX_SIZE :: nat where "INFO_CHRC_MAX_SIZE = 64"

record info_ctx =
  ic_buf :: "u8 list"
  ic_buf_len :: nat

text \<open>
  The encoder is generated from the CDDL: it gets the room, the flags and the serial number and
  returns an error code or the bytes. \<open>saead\<close> is \<^verbatim>\<open>CONFIG_POUCH_ENCRYPTION_SAEAD\<close>. An error number
  of the certificate store is negative, one of the encoder is positive.
\<close>

type_synonym info_encoder = "nat \<Rightarrow> u8 \<Rightarrow> u8 list \<Rightarrow> nat + u8 list"

definition EINVAL_code :: int where "EINVAL_code = 22"

definition build_info_data :: "info_encoder \<Rightarrow> bool \<Rightarrow> 'x cert_state \<Rightarrow> info_ctx \<Rightarrow> (int \<times> info_ctx) option" where
  "build_info_data enc saead cs ctx = do {
     r \<leftarrow> (if saead then pouch_server_certificate_serial_get CERT_SERIAL_MAXLEN cs else Some (Inr []));
     (case r of
        Inl e \<Rightarrow> Some (- EINVAL_code, ctx)
      | Inr snr \<Rightarrow>
          (case enc INFO_CHRC_MAX_SIZE 0 snr of
             Inl e \<Rightarrow> Some (int e, ctx\<lparr>ic_buf_len := INFO_CHRC_MAX_SIZE\<rparr>)
           | Inr bs \<Rightarrow> do { m \<leftarrow> mem_write (ic_buf ctx) 0 bs; Some (0, \<lparr>ic_buf = m, ic_buf_len = length bs\<rparr>) })) }"

definition info_read ::
    "info_encoder \<Rightarrow> bool \<Rightarrow> bool \<Rightarrow> nat \<Rightarrow> nat \<Rightarrow> 'x cert_state \<Rightarrow> unit packetizer option \<Rightarrow> info_ctx
      \<Rightarrow> (read_result \<times> unit packetizer option \<times> info_ctx) option" where
  "info_read enc saead mem len offset cs packetizer ctx =
     (if 0 < offset then Some (Read_bytes [], packetizer, ctx)
      else do {
        (err, packetizer, ctx) \<leftarrow>
          (case packetizer of
             None \<Rightarrow> do {
               (err, ctx) \<leftarrow> build_info_data enc saead cs ctx;
               Some (err, if err = 0 then packetizer_start_buffer mem (ic_buf ctx) (ic_buf_len ctx) else None, ctx) }
           | Some pz \<Rightarrow> Some (0, packetizer, ctx));
        if err \<noteq> 0 then Some (Read_int err, packetizer, ctx)
        else do {
          (res, bs, pz, _) \<leftarrow> packetizer_get (\<lambda>_ _ _. None) packetizer len ();
          Some (if res = GOLIOTH_BLE_GATT_PACKETIZER_ERROR then (Read_int 0, None, ctx)
                else if res = GOLIOTH_BLE_GATT_PACKETIZER_NO_MORE_DATA then (Read_bytes bs, None, ctx)
                else (Read_bytes bs, Some pz, ctx)) } })"

section \<open>Reading a characteristic to its end\<close>

text \<open>
  A client reads again and again until the characteristic has dropped its packetizer; \<open>n\<close> bounds
  the number of reads, an error is no result.
\<close>

fun read_all ::
    "('p option \<Rightarrow> 'w \<Rightarrow> (read_result \<times> 'p option \<times> 'w) option) \<Rightarrow> nat \<Rightarrow> 'p option \<Rightarrow> 'w \<Rightarrow> (u8 list list \<times> 'w) option" where
  "read_all rd 0 pz w = None"
| "read_all rd (Suc n) pz w = do {
     (r, pz, w) \<leftarrow> rd pz w;
     (case r of
        Read_bytes bs \<Rightarrow>
          (case pz of None \<Rightarrow> Some ([bs], w)
           | Some _ \<Rightarrow> do { (pkts, w) \<leftarrow> read_all rd n pz w; Some (bs # pkts, w) })
      | _ \<Rightarrow> None) }"

lemma read_all_drain:
  assumes "\<And>pz w. rd (Some pz) w = read_packet func len (Some pz) w"
  shows "read_all rd n (Some pz) w = drain func n len pz w"
proof (induction n arbitrary: pz w)
  case (Suc n)
  show ?case
  proof (cases "packetizer_get func (Some pz) len w")
    case (Some x)
    obtain r bs pz' w' where x: "x = (r, bs, pz', w')" by (metis prod_cases4)
    show ?thesis using Some x Suc.IH by (cases r) (simp_all add: assms read_packet_def)
  qed (simp add: assms read_packet_def)
qed simp

text \<open>The first read starts the packetizer.\<close>

lemma read_all_first:
  assumes "\<And>pz w. rd (Some pz) w = read_packet func len (Some pz) w"
    and "rd None w0 = read_packet func len (Some pz) w" and "0 < n"
  shows "read_all rd n None w0 = drain func n len pz w"
  using assms(3) read_all_drain [OF assms(1), of n pz w] assms(1,2) by (cases n) simp_all

lemma reads_bound: "2 \<le> (len :: nat) \<Longrightarrow> k \<le> (k div (len - 1) + 1) * (len - 1)"
  using dividend_less_div_times [of "len - 1" k] by simp

definition cert_source_ok :: "pouch_cert \<Rightarrow> bool" where
  "cert_source_ok c \<longleftrightarrow> (\<exists>b. pc_buffer c = Some b \<and> pc_size c \<le> length b)"

definition cert_source :: "pouch_cert \<Rightarrow> u8 list" where
  "cert_source c = (case pc_buffer c of None \<Rightarrow> [] | Some b \<Rightarrow> take (pc_size c) b)"

interpretation dev: fill_source device_cert_fill_cb cert_source_ok cert_source
proof
  fix w room and a :: unit
  assume w: "cert_source_ok w" "0 < room" "length (cert_source w) \<le> room"
  then obtain b where b: "pc_buffer w = Some b" "pc_size w \<le> length b" by (auto simp: cert_source_ok_def)
  with w(3) have "min room (pc_size w) = pc_size w" by (simp add: cert_source_def)
  with b show "\<exists>w'. device_cert_fill_cb a room w = Some (GOLIOTH_BLE_GATT_PACKETIZER_NO_MORE_DATA, cert_source w, w')"
    by (simp add: device_cert_fill_cb_def mem_read_def cert_source_def Let_def)
next
  fix w room and a :: unit
  assume w: "cert_source_ok w" "0 < room" "room < length (cert_source w)"
  then obtain b where b: "pc_buffer w = Some b" "pc_size w \<le> length b" by (auto simp: cert_source_ok_def)
  with w(3) have "min room (pc_size w) = room" "room < pc_size w" by (simp_all add: cert_source_def)
  with b show "\<exists>w'. device_cert_fill_cb a room w = Some (GOLIOTH_BLE_GATT_PACKETIZER_MORE_DATA, take room (cert_source w), w')
      \<and> cert_source_ok w' \<and> cert_source w' = drop room (cert_source w)"
    by (simp add: device_cert_fill_cb_def mem_read_def cert_source_def cert_source_ok_def drop_take min_def Let_def)
qed

text \<open>
  The device certificate reaches the gateway. Reading the characteristic with any
  buffer of at least two bytes until it is done, whatever an earlier transfer left behind, ends
  within one read more than the size divided by the payload size, and the packets carry exactly
  the certificate the device was configured with.
\<close>

theorem device_cert_transfer:
  assumes "pouch_device_certificate_get cs = Inr cert" and "cert_bytes cert = Some bs" and "2 \<le> len"
  shows "\<exists>pkts c'. read_all (device_cert_read True len 0 cs) (length bs div (len - 1) + 1) None c0 = Some (pkts, c')
    \<and> reassemble True pkts = Some bs"
proof -
  let ?pz = "\<lparr>pz_fill = Fill_callback (), pz_is_first = True, pz_error = None\<rparr>"
  obtain b where b: "pc_buffer cert = Some b" "pc_size cert \<le> length b" "bs = take (pc_size cert) b"
    using assms(2) by (auto simp: cert_bytes_def mem_read_def bind_eq_Some_conv split: if_splits)
  then have ok: "cert_source_ok cert" "cert_source cert = bs"
    by (auto simp: cert_source_ok_def cert_source_def)
  have "read_all (device_cert_read True len 0 cs) (length bs div (len - 1) + 1) None c0
      = drain device_cert_fill_cb (length bs div (len - 1) + 1) len ?pz cert"
    by (rule read_all_first) (simp_all add: device_cert_read_def assms(1) packetizer_start_callback_def)
  then show ?thesis
    using dev.drain_source [OF assms(3) ok(1), of "length bs div (len - 1) + 1" "()" True None]
      reads_bound [OF assms(3), of "length bs"] ok(2) by auto
qed

lemma device_cert_transfer_witness:
  "\<exists>pkts c'. read_all (device_cert_read True 4 0 ((cert_static 65 :: unit cert_state)
      \<lparr>device_certificate := \<lparr>pc_buffer = Some [1, 2, 3, 4, 5], pc_size = 5\<rparr>\<rparr>)) 2 None
      \<lparr>pc_buffer = None, pc_size = 0\<rparr> = Some (pkts, c')
    \<and> reassemble True pkts = Some [1, 2, 3, 4, 5]"
proof -
  let ?c = "\<lparr>pc_buffer = Some [1 :: u8, 2, 3, 4, 5], pc_size = 5\<rparr>"
  let ?cs = "(cert_static 65 :: unit cert_state)\<lparr>device_certificate := ?c\<rparr>"
  have "pouch_device_certificate_get ?cs = Inr ?c" "cert_bytes ?c = Some [1, 2, 3, 4, 5]"
    by (simp_all add: pouch_device_certificate_get_def cert_is_valid_def cert_bytes_def mem_read_def)
  then have "\<exists>pkts c'. read_all (device_cert_read True 4 0 ?cs) (length [1 :: u8, 2, 3, 4, 5] div (4 - 1) + 1) None
      \<lparr>pc_buffer = None, pc_size = 0\<rparr> = Some (pkts, c') \<and> reassemble True pkts = Some [1, 2, 3, 4, 5]"
    by (rule device_cert_transfer) simp
  moreover have "length [1 :: u8, 2, 3, 4, 5] div (4 - 1) + 1 = 2" by simp
  ultimately show ?thesis by metis
qed

definition serial_source_ok :: "server_cert_ctx \<Rightarrow> bool" where
  "serial_source_ok ctx \<longleftrightarrow> unat (sc_serial_offset ctx) \<le> unat (sc_serial_len ctx)
     \<and> unat (sc_serial_len ctx) \<le> length (sc_serial ctx)"

definition serial_source :: "server_cert_ctx \<Rightarrow> u8 list" where
  "serial_source ctx = drop (unat (sc_serial_offset ctx)) (take (unat (sc_serial_len ctx)) (sc_serial ctx))"

lemma serial_fill:
  assumes "serial_source_ok ctx" and "0 < room"
  shows "\<exists>ctx'. server_cert_serial_fill_cb a room ctx =
      Some (if length (serial_source ctx) \<le> room then GOLIOTH_BLE_GATT_PACKETIZER_NO_MORE_DATA
            else GOLIOTH_BLE_GATT_PACKETIZER_MORE_DATA, take room (serial_source ctx), ctx')
    \<and> serial_source_ok ctx' \<and> serial_source ctx' = drop room (serial_source ctx)"
proof -
  let ?l = "unat (sc_serial_len ctx)" and ?o = "unat (sc_serial_offset ctx)"
  have ol: "?o \<le> ?l" "?l \<le> length (sc_serial ctx)" using assms(1) by (simp_all add: serial_source_ok_def)
  have "?l < 256" using unsigned_less [of "sc_serial_len ctx", where ?'a = nat] by simp
  then have "?l < SIZE_MOD" unfolding SIZE_MOD_num by linarith
  then have sub: "szt_sub ?l ?o = ?l - ?o" using ol(1) by (intro szt_sub_exact)
  let ?n = "min room (?l - ?o)"
  have off: "unat (sc_serial_offset ctx + of_nat ?n) = ?o + ?n"
  proof -
    have lt: "?o + ?n < 256" using ol(1) \<open>?l < 256\<close> by linarith
    have "unat (sc_serial_offset ctx + of_nat ?n) = (?o + ?n) mod 256"
      by (simp add: unat_word_ariths unat_of_nat mod_simps)
    then show ?thesis using lt by (simp only: mod_less)
  qed
  have src: "serial_source ctx = take (?l - ?o) (drop ?o (sc_serial ctx))"
    by (simp add: serial_source_def drop_take)
  have rd: "mem_read (sc_serial ctx) ?o ?n = Some (take room (serial_source ctx))"
    using ol by (simp add: mem_read_def src)
  let ?c = "ctx\<lparr>sc_serial_offset := sc_serial_offset ctx + of_nat ?n\<rparr>"
  have len: "length (serial_source ctx) = ?l - ?o" using ol by (simp add: src)
  have cmp: "sc_serial_len ?c \<le> sc_serial_offset ?c \<longleftrightarrow> length (serial_source ctx) \<le> room"
    using off ol(1) len by (auto simp: word_le_nat_alt)
  have "server_cert_serial_fill_cb a room ctx = Some (if sc_serial_len ?c \<le> sc_serial_offset ?c
      then GOLIOTH_BLE_GATT_PACKETIZER_NO_MORE_DATA else GOLIOTH_BLE_GATT_PACKETIZER_MORE_DATA, take room (serial_source ctx), ?c)"
    unfolding server_cert_serial_fill_cb_def sub Let_def by (simp add: rd)
  moreover have "serial_source_ok ?c" using off ol by (simp add: serial_source_ok_def)
  moreover have "serial_source ?c = drop room (serial_source ctx)"
    using off by (simp add: serial_source_def add.commute min_def drop_take)
  ultimately show ?thesis unfolding cmp by blast
qed

interpretation srv: fill_source server_cert_serial_fill_cb serial_source_ok serial_source
proof
  fix w room and a :: unit
  assume "serial_source_ok w" "0 < room" "length (serial_source w) \<le> room"
  with serial_fill [of w room a] show
    "\<exists>w'. server_cert_serial_fill_cb a room w = Some (GOLIOTH_BLE_GATT_PACKETIZER_NO_MORE_DATA, serial_source w, w')" by auto
next
  fix w room and a :: unit
  assume "serial_source_ok w" "0 < room" "room < length (serial_source w)"
  with serial_fill [of w room a] show
    "\<exists>w'. server_cert_serial_fill_cb a room w = Some (GOLIOTH_BLE_GATT_PACKETIZER_MORE_DATA, take room (serial_source w), w')
      \<and> serial_source_ok w' \<and> serial_source w' = drop room (serial_source w)" by auto
qed

text \<open>
  The gateway can tell which server certificate the device has. Reading the server
  certificate characteristic until it is done yields packets that carry exactly the serial number
  of the stored certificate, and one packet without payload when there is none.
\<close>

theorem server_serial_transfer:
  assumes "cert_inv env cs" and "length (sc_serial ctx) = CERT_SERIAL_MAXLEN" and "2 \<le> len"
  shows "\<exists>pkts ctx'. read_all (server_cert_serial_read True len 0 cs)
      (cs_len (server_serial cs) div (len - 1) + 1) None ctx = Some (pkts, ctx')
    \<and> reassemble True pkts = Some (take (cs_len (server_serial cs)) (cs_data (server_serial cs)))"
proof -
  let ?n = "cs_len (server_serial cs)" and ?d = "cs_data (server_serial cs)"
  let ?pz = "\<lparr>pz_fill = Fill_callback (), pz_is_first = True, pz_error = None\<rparr>"
  have n: "?n \<le> 20" "length ?d = 20" using assms(1) by (simp_all add: cert_inv_def CERT_SERIAL_MAXLEN_def)
  let ?c = "ctx\<lparr>sc_serial := take ?n ?d @ drop ?n (sc_serial ctx), sc_serial_len := of_nat ?n, sc_serial_offset := 0\<rparr>"
  have get: "pouch_server_certificate_serial_get (length (sc_serial ctx)) cs = Some (Inr (take ?n ?d))"
    using n assms(2) by (simp add: pouch_server_certificate_serial_get_def mem_read_def CERT_SERIAL_MAXLEN_def)
  have wr: "mem_write (sc_serial ctx) 0 (take ?n ?d) = Some (take ?n ?d @ drop ?n (sc_serial ctx))"
    using n assms(2) by (simp add: mem_write_def CERT_SERIAL_MAXLEN_def min_def)
  have un: "unat (of_nat ?n :: u8) = ?n" using n(1) by (simp add: unat_of_nat)
  have ok: "serial_source_ok ?c" "serial_source ?c = take ?n ?d"
    using un n assms(2) by (simp_all add: serial_source_ok_def serial_source_def CERT_SERIAL_MAXLEN_def)
  have l: "length (take ?n ?d) = ?n" "min (length ?d) ?n = ?n" using n by simp_all
  have "read_all (server_cert_serial_read True len 0 cs) (?n div (len - 1) + 1) None ctx
      = drain server_cert_serial_fill_cb (?n div (len - 1) + 1) len ?pz ?c"
    by (rule read_all_first) (simp_all add: server_cert_serial_read_def get wr l packetizer_start_callback_def Let_def)
  then show ?thesis
    using srv.drain_source [OF assms(3) ok(1), of "?n div (len - 1) + 1" "()" True None]
      reads_bound [OF assms(3), of ?n] ok(2) l by auto
qed

lemma server_serial_transfer_witness:
  "\<exists>pkts ctx'. read_all (server_cert_serial_read True 3 0 (cert_static 65 :: u8 list cert_state)) 1 None
      \<lparr>sc_cert = \<lparr>pc_buffer = None, pc_size = 0\<rparr>, sc_serial = replicate 20 0, sc_serial_len = 0, sc_serial_offset = 0\<rparr>
      = Some (pkts, ctx') \<and> reassemble True pkts = Some []"
proof -
  let ?ctx = "\<lparr>sc_cert = \<lparr>pc_buffer = None, pc_size = 0\<rparr>, sc_serial = replicate 20 0, sc_serial_len = 0, sc_serial_offset = 0\<rparr>"
  have z: "cs_len (server_serial (cert_static 65 :: u8 list cert_state)) = 0" by (simp add: cert_static_def)
  have "\<exists>pkts ctx'. read_all (server_cert_serial_read True 3 0 (cert_static 65 :: u8 list cert_state))
      (cs_len (server_serial (cert_static 65 :: u8 list cert_state)) div (3 - 1) + 1) None ?ctx = Some (pkts, ctx')
    \<and> reassemble True pkts = Some (take (cs_len (server_serial (cert_static 65 :: u8 list cert_state)))
        (cs_data (server_serial (cert_static 65 :: u8 list cert_state))))"
    by (rule server_serial_transfer [OF cert_inv_static [of "demo_env True" 65]])
       (simp_all add: CERT_SERIAL_MAXLEN_def)
  then show ?thesis unfolding z by simp
qed

section \<open>Uploading the server certificate\<close>

fun server_cert_writes ::
    "('x, 'k) x509_env \<Rightarrow> (nat \<Rightarrow> u8) option \<Rightarrow> u8 list list \<Rightarrow> server_cert_ctx \<Rightarrow> 'x cert_state
      \<Rightarrow> (bool \<times> server_cert_ctx \<times> 'x cert_state) option" where
  "server_cert_writes env oracle [] ctx cs = Some (False, ctx, cs)"
| "server_cert_writes env oracle (p # ps) ctx cs = do {
     (r, ctx, cs, closed) \<leftarrow> server_cert_write env oracle p ctx cs;
     (closed', ctx, cs) \<leftarrow> server_cert_writes env oracle ps ctx cs;
     Some (closed \<or> closed', ctx, cs) }"

definition upload_result ::
    "('x, 'k) x509_env \<Rightarrow> u8 list \<Rightarrow> nat \<Rightarrow> server_cert_ctx \<Rightarrow> 'x cert_state \<Rightarrow> (bool \<times> server_cert_ctx \<times> 'x cert_state) option" where
  "upload_result env m n ctx cs = do {
     (err, cs) \<leftarrow> cert_server_set env (Some \<lparr>pc_buffer = Some m, pc_size = n\<rparr>) cs;
     Some (is_err err, ctx\<lparr>sc_cert := \<lparr>pc_buffer = None, pc_size = n\<rparr>\<rparr>, cs) }"

text \<open>One packet, once the buffer is there (given, or just allocated).\<close>

lemma cert_write_packet:
  assumes "packetizer_decode (Some p) True = Inr (payload, first, lst)" and "payload \<noteq> []"
    and "(if first then oracle = Some f \<and> m = map f [0..<4096] \<and> n = 0 else sc_cert ctx = \<lparr>pc_buffer = Some m, pc_size = n\<rparr>)"
    and "length m = 4096" and "n + length payload \<le> 4096"
  shows "\<exists>m'. mem_write m n payload = Some m' \<and> length m' = 4096 \<and> take (n + length payload) m' = take n m @ payload
    \<and> server_cert_write env oracle p ctx cs =
      (if lst then do { (err, cs') \<leftarrow> cert_server_set env (Some \<lparr>pc_buffer = Some m', pc_size = n + length payload\<rparr>) cs;
            Some (Write_len (length p), ctx\<lparr>sc_cert := \<lparr>pc_buffer = None, pc_size = n + length payload\<rparr>\<rparr>, cs', is_err err) }
       else Some (Write_len (length p), ctx\<lparr>sc_cert := \<lparr>pc_buffer = Some m', pc_size = n + length payload\<rparr>\<rparr>, cs, False))"
proof -
  let ?m = "take n m @ payload @ drop (n + length payload) m"
  have w: "mem_write m n payload = Some ?m" using assms(4,5) by (simp add: mem_write_def)
  moreover have "length ?m = 4096" using mem_write_length [OF w] assms(4) by simp
  moreover have "take (n + length payload) ?m = take n m @ payload" using assms(4,5) by simp
  ultimately show ?thesis using assms(1-3)
    by (intro exI [of _ ?m])
       (auto simp: server_cert_write_def CONFIG_POUCH_SERVER_CERT_MAX_LEN_def pouch_server_certificate_set_def Let_def)
qed

lemma reassemble_Cons:
  assumes "reassemble f (p # ps) = Some bs"
  obtains payload lst where "packetizer_decode (Some p) True = Inr (payload, f, lst)"
    and "if lst then ps = [] \<and> bs = payload else \<exists>rest. reassemble False ps = Some rest \<and> bs = payload @ rest"
  using assms by (auto split: sum.splits if_splits)

lemma decode_payload: "packetizer_decode (Some p) True = Inr (payload, f, lst) \<Longrightarrow> length p = Suc (length payload)"
  by (auto simp: packetizer_decode_def split: list.splits)

lemma server_cert_writes_ok:
  assumes "reassemble first pkts = Some bs" and "\<forall>p\<in>set pkts. 2 \<le> length p" and "n + length bs \<le> 4096" and "length m = 4096"
    and "if first then oracle = Some f \<and> m = map f [0..<4096] \<and> n = 0 else sc_cert ctx = \<lparr>pc_buffer = Some m, pc_size = n\<rparr>"
  shows "\<exists>m'. length m' = 4096 \<and> take (n + length bs) m' = take n m @ bs
    \<and> server_cert_writes env oracle pkts ctx cs = upload_result env m' (n + length bs) ctx cs"
  using assms
proof (induction pkts arbitrary: first bs n m ctx)
  case Nil
  then show ?case by simp
next
  case (Cons p ps)
  obtain payload lst where d: "packetizer_decode (Some p) True = Inr (payload, first, lst)"
    and r: "if lst then ps = [] \<and> bs = payload else \<exists>rest. reassemble False ps = Some rest \<and> bs = payload @ rest"
    by (rule reassemble_Cons [OF Cons.prems(1)])
  have ne: "payload \<noteq> []" using decode_payload [OF d] Cons.prems(2) by auto
  have le: "n + length payload \<le> 4096" using r Cons.prems(3) by (auto split: if_splits)
  from cert_write_packet [OF d ne Cons.prems(5,4) le, of env cs] obtain m' where
    m': "length m' = 4096" "take (n + length payload) m' = take n m @ payload"
    and w: "server_cert_write env oracle p ctx cs =
      (if lst then do { (err, cs') \<leftarrow> cert_server_set env (Some \<lparr>pc_buffer = Some m', pc_size = n + length payload\<rparr>) cs;
            Some (Write_len (length p), ctx\<lparr>sc_cert := \<lparr>pc_buffer = None, pc_size = n + length payload\<rparr>\<rparr>, cs', is_err err) }
       else Some (Write_len (length p), ctx\<lparr>sc_cert := \<lparr>pc_buffer = Some m', pc_size = n + length payload\<rparr>\<rparr>, cs, False))"
    by blast
  show ?case
  proof (cases lst)
    case True
    then have "ps = []" "bs = payload" using r by simp_all
    then show ?thesis using w True m'
      by (intro exI [of _ m']) (auto simp: upload_result_def split: bind_splits)
  next
    case False
    then obtain rest where rest: "reassemble False ps = Some rest" "bs = payload @ rest" using r by auto
    let ?ctx = "ctx\<lparr>sc_cert := \<lparr>pc_buffer = Some m', pc_size = n + length payload\<rparr>\<rparr>"
    have "n + length payload + length rest \<le> 4096" using rest(2) Cons.prems(3) by simp
    from Cons.IH [OF rest(1) _ this m'(1), of ?ctx] obtain m'' where
      ih: "length m'' = 4096" "take (n + length payload + length rest) m'' = take (n + length payload) m' @ rest"
        "server_cert_writes env oracle ps ?ctx cs = upload_result env m'' (n + length payload + length rest) ?ctx cs"
      using Cons.prems(2) by auto
    have "server_cert_writes env oracle (p # ps) ctx cs = upload_result env m'' (n + length bs) ctx cs"
      using w False ih(3) rest(2) by (auto simp: upload_result_def add.assoc split: bind_splits)
    then show ?thesis using ih(1,2) m'(2) rest(2)
      by (intro exI [of _ m'']) (simp add: add.assoc)
  qed
qed

text \<open>
  Property C31. The server certificate reaches the store. Writing the packets of a certificate of
  at most 4096 bytes to the characteristic, none of them without payload, has the effect of one
  call of \<^verbatim>\<open>cert_server_set()\<close> with exactly these bytes, whatever an earlier upload left behind;
  the connection is closed exactly when that call fails, and the buffer is released.
\<close>

theorem server_cert_upload:
  assumes "reassemble True pkts = Some bs" and "\<forall>p\<in>set pkts. 2 \<le> length p" and "length bs \<le> 4096"
  shows "\<exists>cert. cert_bytes cert = Some bs \<and> cert_ok (Some cert)
    \<and> server_cert_writes env (Some f) pkts ctx cs =
      (do { (err, cs') \<leftarrow> cert_server_set env (Some cert) cs;
            Some (is_err err, ctx\<lparr>sc_cert := \<lparr>pc_buffer = None, pc_size = length bs\<rparr>\<rparr>, cs') })"
proof -
  from server_cert_writes_ok [OF assms(1,2), of 0 "map f [0..<4096]" "Some f" f ctx env cs] assms(3)
  obtain m where m: "length m = 4096" "take (length bs) m = bs"
    "server_cert_writes env (Some f) pkts ctx cs = upload_result env m (length bs) ctx cs" by auto
  let ?c = "\<lparr>pc_buffer = Some m, pc_size = length bs\<rparr>"
  have "cert_bytes ?c = Some bs" using m assms(3) by (simp add: cert_bytes_def mem_read_def)
  moreover have "cert_ok (Some ?c)" using m assms(3) by (simp add: cert_ok_def)
  ultimately show ?thesis using m(3) by (intro exI [of _ ?c]) (simp add: upload_result_def)
qed

definition demo_ctx :: "u8 list option \<Rightarrow> nat \<Rightarrow> server_cert_ctx" where
  "demo_ctx b n = \<lparr>sc_cert = \<lparr>pc_buffer = b, pc_size = n\<rparr>, sc_serial = [], sc_serial_len = 0, sc_serial_offset = 0\<rparr>"

lemma server_cert_upload_witness:
  "\<exists>cert. cert_bytes cert = Some [4, 5, 6] \<and> cert_ok (Some cert)
    \<and> server_cert_writes (demo_env True) (Some (\<lambda>_. 0)) [[1, 4, 5], [2, 6]] (demo_ctx None 0) (cert_static 65)
      = (do { (err, cs') \<leftarrow> cert_server_set (demo_env True) (Some cert) (cert_static 65);
          Some (is_err err, (demo_ctx None 0)\<lparr>sc_cert := \<lparr>pc_buffer = None, pc_size = length [4 :: u8, 5, 6]\<rparr>\<rparr>, cs') })"
proof -
  have "reassemble True [[1, 4, 5], [2, 6]] = Some [4, 5, 6]"
    by (simp add: packetizer_decode_def GOLIOTH_BLE_GATT_PACKET_FIRST_def GOLIOTH_BLE_GATT_PACKET_LAST_def)
  then show ?thesis by (rule server_cert_upload) simp_all
qed

text \<open>
  The upload has no bound: a packet that follows the first and does not fit behind
  what was already received is written past the end of the 4096-byte buffer.
\<close>

theorem server_cert_overflow:
  assumes "sc_cert ctx = \<lparr>pc_buffer = Some m, pc_size = n\<rparr>" and "length m = CONFIG_POUCH_SERVER_CERT_MAX_LEN"
    and "payload \<noteq> []" and "CONFIG_POUCH_SERVER_CERT_MAX_LEN < n + length payload"
  shows "server_cert_write env oracle (packet False lst payload) ctx cs = None"
  using assms by (simp add: server_cert_write_def mem_write_def)

lemma server_cert_overflow_witness:
  "server_cert_write (demo_env True) None (packet False False [1]) (demo_ctx (Some (replicate 4096 0)) 4096) (cert_static 65) = None"
  by (rule server_cert_overflow [where m = "replicate 4096 0" and n = 4096])
     (simp_all add: CONFIG_POUCH_SERVER_CERT_MAX_LEN_def demo_ctx_def)

section \<open>Reading the uplink\<close>

definition uplink_pz :: "bool \<Rightarrow> uplink_ptr packetizer" where
  "uplink_pz first = \<lparr>pz_fill = Fill_callback (Some ()), pz_is_first = first, pz_error = None\<rparr>"

lemma uplink_read_step:
  assumes "uplink_inv s" and "session_is_active (p_uplink s)" and "2 \<le> len"
  shows "\<exists>lst s'. uplink_read ops enc mem len 0 (Some (uplink_pz f)) s =
      Some (Read_bytes (packet f lst (take (len - 1) (pending (p_uplink s) (p_heap s)))),
        if lst then None else Some (uplink_pz False), s')
    \<and> uplink_safe s s'
    \<and> (if lst then drop (len - 1) (pending (p_uplink s) (p_heap s)) = [] \<and> up_flags (p_uplink s') = 0
         \<and> transport_roles (p_uplink s') = []
       else pending (p_uplink s') (p_heap s') = drop (len - 1) (pending (p_uplink s) (p_heap s))
         \<and> session_is_active (p_uplink s'))"
proof -
  let ?p = "pending (p_uplink s) (p_heap s)"
  from uplink_fill_step [OF assms(1,2), of ops "len - 1"] obtain res bs s1 where
    f: "pouch_uplink_fill ops (Some ()) (len - 1) s = Some ((res, length bs, bs), s1)" "uplink_safe s s1"
      "bs = take (len - 1) ?p" "pending (p_uplink s1) (p_heap s1) = drop (len - 1) ?p"
    and r: "if res = POUCH_NO_MORE_DATA
       then \<not> pouch_is_open (p_uplink s) \<and> pending (p_uplink s1) (p_heap s1) = []
         \<and> \<not> session_is_active (p_uplink s1)
       else res = POUCH_MORE_DATA \<and> up_flags (p_uplink s1) = up_flags (p_uplink s)" by blast
  show ?thesis
  proof (cases "res = POUCH_NO_MORE_DATA")
    case True
    from uplink_finish_step [OF uplink_safe_inv [OF f(2)], of ops] obtain s2 where
      s2: "pouch_uplink_finish ops (Some ()) s1 = Some s2" "uplink_safe s1 s2"
        "transport_roles (p_uplink s2) = []" "up_flags (p_uplink s2) = 0" by blast
    have "uplink_read ops enc mem len 0 (Some (uplink_pz f)) s = Some (Read_bytes (packet f True bs), None, s2)"
      using assms(3) f(1) True s2(1)
      by (simp add: uplink_read_def read_packet_def packetizer_get_def fill_payload_def uplink_pz_def uplink_fill_cb_def packet_def)
    then show ?thesis using True f r s2 uplink_safe_trans [OF f(2) s2(2)]
      by (intro exI [of _ True] exI [of _ s2]) simp
  next
    case False
    then have more: "res = POUCH_MORE_DATA" "session_is_active (p_uplink s1)"
      using r assms(2) by (simp_all add: session_is_active_def)
    have "uplink_read ops enc mem len 0 (Some (uplink_pz f)) s = Some (Read_bytes (packet f False bs), Some (uplink_pz False), s1)"
      using assms(3) f(1) more(1)
      by (simp add: uplink_read_def read_packet_def packetizer_get_def fill_payload_def uplink_pz_def uplink_fill_cb_def packet_def)
    then show ?thesis using f more by (intro exI [of _ False] exI [of _ s1]) simp
  qed
qed

text \<open>The gateway reads with buffers of the sizes \<open>lens\<close>, until the characteristic is done.\<close>

fun uplink_reads ::
    "'c crypto_ops \<Rightarrow> header_encoder \<Rightarrow> nat list \<Rightarrow> uplink_ptr packetizer option \<Rightarrow> 'c pouch
      \<Rightarrow> (u8 list list \<times> uplink_ptr packetizer option \<times> 'c pouch) option" where
  "uplink_reads ops enc [] pz s = Some ([], pz, s)"
| "uplink_reads ops enc (len # lens) pz s = do {
     (r, pz, s) \<leftarrow> uplink_read ops enc True len 0 pz s;
     (case (r, pz) of
        (Read_bytes bs, Some _) \<Rightarrow> do { (pkts, pz, s) \<leftarrow> uplink_reads ops enc lens pz s; Some (bs # pkts, pz, s) }
      | (Read_bytes bs, None) \<Rightarrow> Some ([bs], None, s)
      | _ \<Rightarrow> Some ([], pz, s)) }"

text \<open>What the gateway puts together while more packets may follow.\<close>

fun payloads :: "bool \<Rightarrow> u8 list list \<Rightarrow> (u8 list \<times> bool) option" where
  "payloads first [] = Some ([], False)"
| "payloads first (pkt # pkts) =
     (case packetizer_decode (Some pkt) True of
        Inl e \<Rightarrow> None
      | Inr (payload, is_first, is_last) \<Rightarrow>
          if is_first \<noteq> first then None
          else if is_last then (if pkts = [] then Some (payload, True) else None)
          else map_option (\<lambda>(bs, d). (payload @ bs, d)) (payloads False pkts))"

lemma uplink_reads_ok:
  assumes "uplink_inv s" and "session_is_active (p_uplink s)" and "\<forall>len\<in>set lens. 2 \<le> len"
  shows "\<exists>pkts done s'. uplink_reads ops enc lens (Some (uplink_pz f)) s
      = Some (pkts, if done then None else Some (uplink_pz (f \<and> lens = [])), s')
    \<and> uplink_safe s s'
    \<and> payloads f pkts = Some (take (sum_list (map (\<lambda>l. l - 1) lens)) (pending (p_uplink s) (p_heap s)), done)
    \<and> (if done then drop (sum_list (map (\<lambda>l. l - 1) lens)) (pending (p_uplink s) (p_heap s)) = []
         \<and> up_flags (p_uplink s') = 0 \<and> transport_roles (p_uplink s') = []
       else pending (p_uplink s') (p_heap s') = drop (sum_list (map (\<lambda>l. l - 1) lens)) (pending (p_uplink s) (p_heap s)))"
  using assms
proof (induction lens arbitrary: s f)
  case Nil
  then show ?case using uplink_safe_refl by (auto intro!: exI [of _ False])
next
  case (Cons len lens)
  let ?p = "pending (p_uplink s) (p_heap s)" and ?n = "len - 1" and ?k = "sum_list (map (\<lambda>l. l - 1) lens)"
  have len: "2 \<le> len" using Cons.prems(3) by simp
  from uplink_read_step [OF Cons.prems(1,2) len, of ops enc True f] obtain lst s1 where
    r: "uplink_read ops enc True len 0 (Some (uplink_pz f)) s =
      Some (Read_bytes (packet f lst (take ?n ?p)), if lst then None else Some (uplink_pz False), s1)" "uplink_safe s s1"
    and q: "if lst then drop ?n ?p = [] \<and> up_flags (p_uplink s1) = 0 \<and> transport_roles (p_uplink s1) = []
       else pending (p_uplink s1) (p_heap s1) = drop ?n ?p \<and> session_is_active (p_uplink s1)" by blast
  show ?case
  proof (cases lst)
    case True
    then have all: "length ?p \<le> ?n" "length ?p \<le> ?n + ?k" using q by simp_all
    then show ?thesis using r q True by (intro exI [of _ "[packet f True ?p]"] exI [of _ True] exI [of _ s1]) simp
  next
    case False
    then have n: "pending (p_uplink s1) (p_heap s1) = drop ?n ?p" "session_is_active (p_uplink s1)" using q by simp_all
    from Cons.IH [OF uplink_safe_inv [OF r(2)] n(2), of False] Cons.prems(3) obtain pkts don s2 where
      ih: "uplink_reads ops enc lens (Some (uplink_pz False)) s1 = Some (pkts, if don then None else Some (uplink_pz False), s2)"
        "uplink_safe s1 s2" "payloads False pkts = Some (take ?k (drop ?n ?p), don)"
        "if don then drop ?k (drop ?n ?p) = [] \<and> up_flags (p_uplink s2) = 0 \<and> transport_roles (p_uplink s2) = []
         else pending (p_uplink s2) (p_heap s2) = drop ?k (drop ?n ?p)"
      unfolding n(1) by auto
    have "take ?n ?p @ take ?k (drop ?n ?p) = take (?n + ?k) ?p" by (simp add: take_add)
    then show ?thesis using r(1) False ih uplink_safe_trans [OF r(2) ih(2)]
      by (intro exI [of _ "packet f False (take ?n ?p) # pkts"] exI [of _ don] exI [of _ s2])
         (cases don; simp add: add.commute)
  qed
qed

text \<open>
  Property C16. The uplink characteristic carries the pouch. After the transfer was started, the
  gateway reads with buffers of any sizes from two bytes on and gets packets whose first flag is
  set on the first only and whose payloads are, in order, the pending bytes of the pouch (header,
  then blocks) as far as the buffers reach. The last flag appears only on the packet that
  delivers the final byte of a closed pouch; then the session is over, all transport buffers are
  released and the packetizer is gone. The ownership invariant holds throughout.
\<close>

theorem uplink_characteristic:
  assumes "uplink_inv s" and "session_is_active (p_uplink s)" and "\<forall>len\<in>set lens. 2 \<le> len"
    and "packetizer_start_callback True (Some ()) = Some pz"
  shows "\<exists>pkts done s'. uplink_reads ops enc lens (Some pz) s
      = Some (pkts, if done then None else Some (pz\<lparr>pz_is_first := (lens = [])\<rparr>), s')
    \<and> uplink_safe s s'
    \<and> payloads True pkts = Some (take (sum_list (map (\<lambda>l. l - 1) lens)) (pending (p_uplink s) (p_heap s)), done)
    \<and> (if done then drop (sum_list (map (\<lambda>l. l - 1) lens)) (pending (p_uplink s) (p_heap s)) = []
         \<and> up_flags (p_uplink s') = 0 \<and> transport_roles (p_uplink s') = []
       else pending (p_uplink s') (p_heap s') = drop (sum_list (map (\<lambda>l. l - 1) lens)) (pending (p_uplink s) (p_heap s)))"
proof -
  have pz: "pz = uplink_pz True" using assms(4) by (simp add: packetizer_start_callback_def uplink_pz_def)
  have u: "(uplink_pz True)\<lparr>pz_is_first := (lens = [])\<rparr> = uplink_pz (True \<and> lens = [])" by (simp add: uplink_pz_def)
  show ?thesis unfolding pz u by (rule uplink_reads_ok [OF assms(1-3)])
qed

lemma uplink_characteristic_witness:
  "\<exists>pkts done s'. uplink_reads crypto_none (\<lambda>_ _. Inl 0) [3, 20]
      (Some (uplink_pz True)) (set_flag SESSION_ACTIVE (pouch_static (\<lambda>_. None) \<lparr>device_id = None\<rparr>))
      = Some (pkts, if done then None else Some (uplink_pz False), s') \<and> payloads True pkts = Some ([], done)"
proof -
  let ?s = "set_flag SESSION_ACTIVE (pouch_static (\<lambda>_. None) \<lparr>device_id = None\<rparr>)"
  have "uplink_safe (pouch_static (\<lambda>_. None) \<lparr>device_id = None\<rparr>) ?s"
    by (rule uplink_safe_same) (simp_all add: set_flag_def)
  then have inv: "uplink_inv ?s" by (rule uplink_safe_inv)
  have act: "session_is_active (p_uplink ?s)" and p: "pending (p_uplink ?s) (p_heap ?s) = []"
    by (simp_all add: set_flag_def session_is_active_def flag_defs uplink_static_def pending_def reader_rest_def)
  have pz: "packetizer_start_callback True (Some ()) = Some (uplink_pz True)"
    by (simp add: packetizer_start_callback_def uplink_pz_def)
  have l: "\<forall>len\<in>set [3, 20 :: nat]. 2 \<le> len" by simp
  have u: "(uplink_pz True)\<lparr>pz_is_first := ([3, 20 :: nat] = [])\<rparr> = uplink_pz False" by (simp add: uplink_pz_def)
  show ?thesis
    using uplink_characteristic [OF inv act l pz, of crypto_none "\<lambda>_ _. Inl 0", unfolded u p] by (simp only: take_Nil) blast
qed

text \<open>
  A read that cannot start a session crashes. When \<^verbatim>\<open>pouch_uplink_start()\<close> returns
  NULL (the backend refuses, no memory for the header, or a session is already active) the
  callback follows the null pointer, either filling a packet or finishing the pouch; when the
  packetizer cannot be allocated it is followed as well.
\<close>

theorem uplink_read_null:
  assumes "pouch_uplink_start ops enc s = Some (p, s')" and "p = None \<or> \<not> mem" and "2 \<le> len"
  shows "uplink_read ops enc mem len 0 None s = None"
  using assms
  by (auto simp: uplink_read_def packetizer_start_callback_def read_packet_def packetizer_get_def fill_payload_def
      uplink_fill_cb_def pouch_uplink_fill_def pouch_uplink_finish_def)

lemma uplink_read_null_witness:
  "uplink_read crypto_none (\<lambda>_ _. Inl 0) True 20 0 None
     (set_flag SESSION_ACTIVE (pouch_static (\<lambda>_. None) \<lparr>device_id = None\<rparr>)) = None"
proof -
  let ?s = "set_flag SESSION_ACTIVE (pouch_static (\<lambda>_. None) \<lparr>device_id = None\<rparr>)"
  have "pouch_uplink_start crypto_none (\<lambda>_ _. Inl 0) ?s = Some (None, ?s)"
    by (simp add: pouch_uplink_start_def set_flag_def flag_defs)
  then show ?thesis by (rule uplink_read_null) simp_all
qed

end
