(* ===== verification/Dispatch.thy ===== *)
theory Dispatch
  imports Uplink "HOL-Library.Sublist"
begin

text \<open>
  The dispatcher of the Golioth SDK, \<^verbatim>\<open>golioth_sdk/dispatch.c\<close>: it is registered as a downlink
  handler of the pouch library, selects a service by the path of a received entry or stream, and
  passes the data on to the service that has the stream. The services act on a state of type
  \<open>'w\<close>; a callback that runs into undefined behaviour gives \<open>None\<close>.

  The services are the list that the linker section holds. \<^verbatim>\<open>service->data->downlink_id\<close> of the
  service with number \<open>i\<close> is entry \<open>i\<close> of \<open>downlink_ids\<close>, and \<^verbatim>\<open>last_seen\<close> is the number of the
  service it points to. The comparison of a signed id with an unsigned one converts the signed
  one, so both are 32-bit words.
\<close>

section \<open>State and operations\<close>

definition DOWNLINK_ID_INVALID :: u32 where
  "DOWNLINK_ID_INVALID = -1"

record 'w golioth_downlink_service =
  gs_path :: "u8 list"
  gs_start_cb :: "(u32 \<Rightarrow> u8 list option \<Rightarrow> 'w \<Rightarrow> 'w option) option"
  gs_data_cb :: "u32 \<Rightarrow> u8 list option \<Rightarrow> nat \<Rightarrow> bool \<Rightarrow> 'w \<Rightarrow> 'w option"

record dispatch_state =
  last_seen :: "nat option"
  downlink_ids :: "u32 list"

definition dispatch_static :: "'w golioth_downlink_service list \<Rightarrow> dispatch_state" where
  "dispatch_static svcs = \<lparr>last_seen = None, downlink_ids = map (\<lambda>_. DOWNLINK_ID_INVALID) svcs\<rparr>"

text \<open>\<^verbatim>\<open>strncmp(a, b, n) == 0\<close> on two C strings, given by their bytes before the NUL.\<close>

definition strncmp_eq :: "u8 list \<Rightarrow> u8 list \<Rightarrow> nat \<Rightarrow> bool" where
  "strncmp_eq a b n = (take n a = take n b)"

text \<open>
  The comparison of one service with the path: whether it matches, whether its path ends in a
  star (byte \<open>0x2a\<close>), and the number of bytes compared. An empty service path is read one byte
  before its start.
\<close>

definition service_matches :: "'w golioth_downlink_service \<Rightarrow> u8 list \<Rightarrow> (bool \<times> bool \<times> nat) option" where
  "service_matches service path =
     (if gs_path service = [] then None
      else let path_len = length (gs_path service);
               partial = (gs_path service ! (path_len - 1) = 0x2a);
               path_len = (if partial then path_len - 1 else path_len) in
           Some (strncmp_eq (gs_path service) path path_len, partial, path_len))"

fun service_search ::
    "'w golioth_downlink_service list \<Rightarrow> nat \<Rightarrow> u8 list \<Rightarrow> (nat \<times> 'w golioth_downlink_service \<times> bool \<times> nat) option option"
where
  "service_search [] i path = Some None"
| "service_search (service # services) i path =
     do { (m, partial, path_len) \<leftarrow> service_matches service path;
          if m then Some (Some (i, service, partial, path_len))
          else service_search services (i + 1) path }"

definition dispatch_downlink_start ::
    "'w golioth_downlink_service list \<Rightarrow> u32 \<Rightarrow> u8 list \<Rightarrow> dispatch_state \<times> 'w \<Rightarrow> (dispatch_state \<times> 'w) option"
where
  "dispatch_downlink_start svcs stream_id path = (\<lambda>(d, w).
     do { found \<leftarrow> service_search svcs 0 path;
          case found of
            None \<Rightarrow> Some (d, w)
          | Some (i, service, partial, path_len) \<Rightarrow> do {
              let d = d\<lparr>last_seen := Some i, downlink_ids := (downlink_ids d)[i := stream_id]\<rparr>;
              case gs_start_cb service of
                None \<Rightarrow> Some (d, w)
              | Some cb \<Rightarrow> do {
                  let path_remainder = (if partial \<and> 0 < length (drop path_len path)
                                        then Some (drop path_len path) else None);
                  w \<leftarrow> cb stream_id path_remainder w;
                  Some (d, w) } } })"

text \<open>The first service, counted from \<open>i\<close>, whose id is \<open>stream_id\<close>.\<close>

fun id_search :: "u32 list \<Rightarrow> nat \<Rightarrow> u32 \<Rightarrow> nat option" where
  "id_search [] i stream_id = None"
| "id_search (downlink_id # ids) i stream_id =
     (if downlink_id = stream_id then Some i else id_search ids (i + 1) stream_id)"

definition active_service :: "u32 \<Rightarrow> dispatch_state \<Rightarrow> nat option" where
  "active_service stream_id d =
     (case last_seen d of
        Some i \<Rightarrow> if downlink_ids d ! i = stream_id then Some i else id_search (downlink_ids d) 0 stream_id
      | None \<Rightarrow> id_search (downlink_ids d) 0 stream_id)"

definition dispatch_downlink_data ::
    "'w golioth_downlink_service list \<Rightarrow> u32 \<Rightarrow> u8 list option \<Rightarrow> nat \<Rightarrow> bool \<Rightarrow> dispatch_state \<times> 'w \<Rightarrow>
      (dispatch_state \<times> 'w) option"
where
  "dispatch_downlink_data svcs stream_id data len is_last = (\<lambda>(d, w).
     case active_service stream_id d of
       None \<Rightarrow> Some (d, w)
     | Some i \<Rightarrow> do {
         w \<leftarrow> gs_data_cb (svcs ! i) stream_id data len is_last w;
         Some (if is_last then d\<lparr>downlink_ids := (downlink_ids d)[i := DOWNLINK_ID_INVALID], last_seen := None\<rparr>
               else d, w) })"

text \<open>
  The handler that \<^verbatim>\<open>POUCH_DOWNLINK_HANDLER\<close> registers. Its state is \<open>None\<close> once a callback ran
  into undefined behaviour.
\<close>

definition dispatch_handler ::
    "'w golioth_downlink_service list \<Rightarrow> (dispatch_state \<times> 'w) option pouch_downlink_handler" where
  "dispatch_handler svcs =
     \<lparr>start_cb = (\<lambda>stream_id path content_type w.
        Option.bind w (dispatch_downlink_start svcs (of_nat stream_id) path)),
      data_cb = (\<lambda>stream_id data len is_last w.
        Option.bind w (dispatch_downlink_data svcs (of_nat stream_id) data len is_last))\<rparr>"

text \<open>
  Uplink services write their entries through the pouch library and may change their own state.
  The result of \<^verbatim>\<open>pouch_uplink_close()\<close> is dropped.
\<close>

type_synonym ('w, 'c) golioth_uplink_service = "('w \<Rightarrow> 'c pouch \<Rightarrow> ('w \<times> 'c pouch) option) option"

fun run_uplink_services ::
    "('w, 'c) golioth_uplink_service list \<Rightarrow> 'w \<Rightarrow> 'c pouch \<Rightarrow> ('w \<times> 'c pouch) option" where
  "run_uplink_services [] w s = Some (w, s)"
| "run_uplink_services (service # services) w s =
     do { (w, s) \<leftarrow> (case service of None \<Rightarrow> Some (w, s) | Some uplink_cb \<Rightarrow> uplink_cb w s);
          run_uplink_services services w s }"

definition golioth_sync_to_cloud ::
    "('w, 'c) golioth_uplink_service list \<Rightarrow> ret \<Rightarrow> 'w \<Rightarrow> 'c pouch \<Rightarrow> (ret \<times> 'w \<times> 'c pouch) option" where
  "golioth_sync_to_cloud services lock w s =
     do { (w, s) \<leftarrow> run_uplink_services services w s;
          (_, s) \<leftarrow> pouch_uplink_close lock s;
          Some (OK, w, s) }"

section \<open>Services that write to the uplink\<close>

text \<open>A writer leaves the flags and the way to the transport alone.\<close>

definition writer_frame :: "'c pouch \<Rightarrow> 'c pouch \<Rightarrow> bool" where
  "writer_frame s s' \<longleftrightarrow> transport_frame s s' \<and> up_flags (p_uplink s') = up_flags (p_uplink s)"

lemma writer_frame_refl: "writer_frame s s"
  by (simp add: writer_frame_def transport_frame_refl)

lemma writer_frame_trans: "writer_frame s s' \<Longrightarrow> writer_frame s' s'' \<Longrightarrow> writer_frame s s''"
  by (auto simp: writer_frame_def intro: transport_frame_trans)

text \<open>
  What the dispatcher expects of the uplink services of the SDK and of applications: called in a
  state \<open>ok\<close> of their own, they return, keep the ownership invariant, touch neither flags nor transport,
  and only add whole entries to the log. A synchronisation over such services then closes the pouch
  with all their entries.
\<close>

locale uplink_services =
  fixes services :: "('w, 'c) golioth_uplink_service list" and ok :: "'w \<Rightarrow> bool"
  assumes service: "Some cb \<in> set services \<Longrightarrow> ok w \<Longrightarrow> uplink_inv s \<Longrightarrow> open_entries s es \<Longrightarrow>
    \<exists>w' s' es' new. cb w s = Some (w', s') \<and> ok w' \<and> uplink_safe s s' \<and> open_entries s' es' \<and> writer_frame s s'
      \<and> entry_log s' = entry_log s @ new"
begin

lemma run_services:
  assumes "set l \<subseteq> set services" and "ok w" and "uplink_inv s" and "open_entries s es"
  shows "\<exists>w' s' es' new. run_uplink_services l w s = Some (w', s') \<and> ok w' \<and> uplink_safe s s' \<and> open_entries s' es'
    \<and> writer_frame s s' \<and> entry_log s' = entry_log s @ new"
  using assms
proof (induction l arbitrary: w s es)
  case Nil
  then show ?case using uplink_safe_refl writer_frame_refl by auto
next
  case (Cons sv l)
  show ?case
  proof (cases sv)
    case None
    with Cons show ?thesis by simp
  next
    case (Some cb)
    then have "Some cb \<in> set services" using Cons.prems(1) by auto
    from service [OF this Cons.prems(2-4)] obtain w1 s1 es1 new1 where
      s1: "cb w s = Some (w1, s1)" "ok w1" "uplink_safe s s1" "open_entries s1 es1" "writer_frame s s1"
        "entry_log s1 = entry_log s @ new1" by blast
    from Cons.IH [OF _ s1(2) uplink_safe_inv [OF s1(3)] s1(4)] Cons.prems(1) obtain w2 s2 es2 new2 where
      s2: "run_uplink_services l w1 s1 = Some (w2, s2)" "ok w2" "uplink_safe s1 s2" "open_entries s2 es2" "writer_frame s1 s2"
        "entry_log s2 = entry_log s1 @ new2" by auto
    show ?thesis
      using s1(1,6) s2(1,2,4,6) Some uplink_safe_trans [OF s1(3) s2(3)] writer_frame_trans [OF s1(5) s2(5)] by auto
  qed
qed

lemma sync_returns:
  assumes "ok w" and "uplink_inv s" and "open_entries s es"
  shows "\<exists>w' s' es' new. golioth_sync_to_cloud services OK w s = Some (OK, w', s') \<and> ok w' \<and> uplink_safe s s'
    \<and> open_entries s' es' \<and> transport_frame s s' \<and> entry_log s' = entry_log s @ new"
proof -
  from run_services [OF subset_refl assms] obtain w1 s1 es1 new where
    s1: "run_uplink_services services w s = Some (w1, s1)" "ok w1" "uplink_safe s s1" "open_entries s1 es1"
      "writer_frame s s1" "entry_log s1 = entry_log s @ new" by blast
  from uplink_close_step [OF uplink_safe_inv [OF s1(3)] s1(4), of OK] obtain r s' where
    s': "pouch_uplink_close OK s1 = Some (r, s')" "uplink_safe s1 s'" "entry_log s' = entry_log s1" "s' = s1 \<or> p_block s' = None"
    by (auto split: if_splits)
  have "\<exists>es'. open_entries s' es'"
    using s'(4) s1(4) by (auto simp: open_entries_def block_holds_def intro: exI [of _ "[]"])
  moreover have "transport_frame s s'"
    using s1(5) uplink_close_frame(1) [OF uplink_safe_inv [OF s1(3)] s1(4) s'(1)]
    by (auto simp: writer_frame_def intro: transport_frame_trans)
  ultimately show ?thesis
    using s1(1,2,6) s'(1,3) uplink_safe_trans [OF s1(3) s'(2)] by (simp add: golioth_sync_to_cloud_def)
qed

lemma sync_closes:
  assumes "ok w" and "uplink_inv s" and "open_entries s es" and "\<not> pouch_is_closing (p_uplink s)"
  shows "\<exists>w' s' new. golioth_sync_to_cloud services OK w s = Some (OK, w', s') \<and> ok w' \<and> uplink_safe s s'
    \<and> transport_frame s s' \<and> up_flags (p_uplink s') = set_bit POUCH_CLOSING (up_flags (p_uplink s))
    \<and> entry_log s' = entry_log s @ new \<and> p_block s' = None \<and> up_processing_work (p_uplink s')"
proof -
  from run_services [OF subset_refl assms(1-3)] obtain w1 s1 es1 new where
    s1: "run_uplink_services services w s = Some (w1, s1)" "ok w1" "uplink_safe s s1" "open_entries s1 es1"
      "writer_frame s s1" "entry_log s1 = entry_log s @ new" by blast
  have open': "\<not> pouch_is_closing (p_uplink s1)"
    using s1(5) assms(4) by (simp add: writer_frame_def pouch_is_closing_def)
  from uplink_close_step [OF uplink_safe_inv [OF s1(3)] s1(4), of OK] open' obtain s' where
    s': "pouch_uplink_close OK s1 = Some (OK, s')" "uplink_safe s1 s'" "entry_log s' = entry_log s1"
      "p_block s' = None" "up_processing_work (p_uplink s')" by auto
  note close = uplink_close_frame [OF uplink_safe_inv [OF s1(3)] s1(4) s'(1)]
  have "transport_frame s s'" "up_flags (p_uplink s') = set_bit POUCH_CLOSING (up_flags (p_uplink s))"
    using s1(5) close(1) close(2) [OF open'] by (auto simp: writer_frame_def intro: transport_frame_trans)
  then show ?thesis
    using s1(1,2,6) s'(1,3-5) uplink_safe_trans [OF s1(3) s'(2)] by (simp add: golioth_sync_to_cloud_def)
qed

end

section \<open>Routing\<close>

text \<open>
  What the dispatcher is meant to do, without its variables: a map from the open streams to the
  services. A stream goes to the first service whose path (without a final star) is a prefix of
  the stream's path.
\<close>

definition service_prefix :: "'w golioth_downlink_service \<Rightarrow> u8 list" where
  "service_prefix service =
     (if last (gs_path service) = 0x2a then butlast (gs_path service) else gs_path service)"

definition route :: "'w golioth_downlink_service list \<Rightarrow> u8 list \<Rightarrow> nat option" where
  "route svcs path = List.find (\<lambda>i. prefix (service_prefix (svcs ! i)) path) [0..<length svcs]"

definition path_rest :: "'w golioth_downlink_service \<Rightarrow> u8 list \<Rightarrow> u8 list option" where
  "path_rest service path =
     (let rest = drop (length (service_prefix service)) path in
      if last (gs_path service) = 0x2a \<and> rest \<noteq> [] then Some rest else None)"

datatype downlink_msg = Stream_start u32 "u8 list" | Stream_data u32 "u8 list option" nat bool

definition dispatch_msg ::
    "'w golioth_downlink_service list \<Rightarrow> downlink_msg \<Rightarrow> dispatch_state \<times> 'w \<Rightarrow> (dispatch_state \<times> 'w) option" where
  "dispatch_msg svcs m = (case m of
       Stream_start sid path \<Rightarrow> dispatch_downlink_start svcs sid path
     | Stream_data sid data len l \<Rightarrow> dispatch_downlink_data svcs sid data len l)"

definition route_msg ::
    "'w golioth_downlink_service list \<Rightarrow> downlink_msg \<Rightarrow> (u32 \<rightharpoonup> nat) \<times> 'w \<Rightarrow> ((u32 \<rightharpoonup> nat) \<times> 'w) option" where
  "route_msg svcs m = (\<lambda>(r, w). case m of
       Stream_start sid path \<Rightarrow>
         (case route svcs path of
            None \<Rightarrow> Some (r, w)
          | Some i \<Rightarrow> do {
              w \<leftarrow> (case gs_start_cb (svcs ! i) of
                      None \<Rightarrow> Some w | Some cb \<Rightarrow> cb sid (path_rest (svcs ! i) path) w);
              Some (r(sid \<mapsto> i), w) })
     | Stream_data sid data len l \<Rightarrow>
         (case r sid of
            None \<Rightarrow> Some (r, w)
          | Some i \<Rightarrow> do {
              w \<leftarrow> gs_data_cb (svcs ! i) sid data len l w;
              Some (if l then r(sid := None) else r, w) }))"

fun dispatch_msgs where
  "dispatch_msgs svcs [] x = Some x"
| "dispatch_msgs svcs (m # ms) x = do { x \<leftarrow> dispatch_msg svcs m x; dispatch_msgs svcs ms x }"

fun route_msgs where
  "route_msgs svcs [] x = Some x"
| "route_msgs svcs (m # ms) x = do { x \<leftarrow> route_msg svcs m x; route_msgs svcs ms x }"

text \<open>
  The traffic the dispatcher can tell apart: an id is not the invalid one, a stream starts with an
  id that is not open, and on a service that has no open stream.
\<close>

fun orderly :: "'w golioth_downlink_service list \<Rightarrow> (u32 \<rightharpoonup> nat) \<Rightarrow> downlink_msg list \<Rightarrow> bool" where
  "orderly svcs r [] = True"
| "orderly svcs r (Stream_start sid path # ms) =
     (sid \<noteq> DOWNLINK_ID_INVALID \<and> r sid = None \<and>
      (case route svcs path of None \<Rightarrow> orderly svcs r ms
       | Some i \<Rightarrow> i \<notin> ran r \<and> orderly svcs (r(sid \<mapsto> i)) ms))"
| "orderly svcs r (Stream_data sid data len l # ms) =
     (sid \<noteq> DOWNLINK_ID_INVALID \<and> orderly svcs (if l then r(sid := None) else r) ms)"

text \<open>The variables of the dispatcher represent the map.\<close>

definition routes :: "'w golioth_downlink_service list \<Rightarrow> dispatch_state \<Rightarrow> (u32 \<rightharpoonup> nat) \<Rightarrow> bool" where
  "routes svcs d r \<longleftrightarrow> length (downlink_ids d) = length svcs
     \<and> (\<forall>i. last_seen d = Some i \<longrightarrow> i < length svcs) \<and> r DOWNLINK_ID_INVALID = None
     \<and> (\<forall>sid i. sid \<noteq> DOWNLINK_ID_INVALID \<longrightarrow> (r sid = Some i \<longleftrightarrow> i < length svcs \<and> downlink_ids d ! i = sid))"

lemma service_matches_prefix:
  assumes "gs_path service \<noteq> []"
  shows "service_matches service path = Some (prefix (service_prefix service) path,
    last (gs_path service) = 0x2a, length (service_prefix service))"
proof -
  have take_prefix: "take n a = take n b \<longleftrightarrow> prefix (take n a) b" if "n \<le> length a" for a b :: "u8 list" and n
    using that by (auto simp: prefix_def take_is_prefix intro: exI [of _ "drop n b"])
  have "gs_path service ! (length (gs_path service) - 1) = last (gs_path service)"
    using assms by (simp add: last_conv_nth)
  moreover have "take (length (gs_path service) - 1) (gs_path service) = butlast (gs_path service)"
    by (simp add: butlast_conv_take)
  ultimately show ?thesis using assms
    by (auto simp: service_matches_def service_prefix_def strncmp_eq_def take_prefix Let_def)
qed

lemma service_search_route:
  assumes "\<forall>service\<in>set svcs. gs_path service \<noteq> []"
  shows "service_search svcs k path =
    Some (map_option (\<lambda>i. (k + i, svcs ! i, last (gs_path (svcs ! i)) = 0x2a, length (service_prefix (svcs ! i))))
      (route svcs path))"
  using assms
proof (induction svcs arbitrary: k)
  case (Cons service svcs)
  have find_map: "List.find P (map Suc xs) = map_option Suc (List.find (P \<circ> Suc) xs)" for P xs
    by (induction xs) auto
  have "route (service # svcs) path = (if prefix (service_prefix service) path then Some 0
      else map_option Suc (route svcs path))"
    by (simp add: route_def upt_conv_Cons find_map comp_def del: upt_Suc flip: map_Suc_upt)
  then show ?case using Cons
    by (auto simp: service_matches_prefix option.map_comp comp_def)
qed (simp add: route_def)

lemma route_bound: "route svcs path = Some i \<Longrightarrow> i < length svcs"
  by (auto simp: route_def find_Some_iff)

lemma id_search_Some:
  "id_search ids k sid = Some j \<longleftrightarrow> k \<le> j \<and> j - k < length ids \<and> ids ! (j - k) = sid \<and> (\<forall>i < j - k. ids ! i \<noteq> sid)"
proof (induction ids arbitrary: k)
  case (Cons x ids)
  show ?case
  proof (cases "x = sid")
    case True
    then show ?thesis by (auto simp: nth_Cons split: nat.splits)
  next
    case False
    then show ?thesis
      by (cases "j - k") (auto simp: Cons nth_Cons Suc_diff_Suc less_Suc_eq_0_disj diff_Suc split: nat.splits)
  qed
qed simp

lemma id_search_None: "id_search ids k sid = None \<longleftrightarrow> sid \<notin> set ids"
  by (induction ids arbitrary: k) auto

lemma routes_iff:
  "routes svcs d r \<Longrightarrow> sid \<noteq> DOWNLINK_ID_INVALID \<Longrightarrow>
    r sid = Some i \<longleftrightarrow> i < length svcs \<and> downlink_ids d ! i = sid"
  by (simp add: routes_def)

lemma active_service_route:
  assumes "routes svcs d r" and "sid \<noteq> DOWNLINK_ID_INVALID"
  shows "active_service sid d = r sid"
proof -
  have iff: "r sid = Some i \<longleftrightarrow> i < length svcs \<and> downlink_ids d ! i = sid" for i
    using assms by (simp add: routes_def)
  have len: "length (downlink_ids d) = length svcs" using assms(1) by (simp add: routes_def)
  have "id_search (downlink_ids d) 0 sid = r sid"
  proof (cases "id_search (downlink_ids d) 0 sid")
    case None
    then have "sid \<notin> set (downlink_ids d)" by (simp add: id_search_None)
    then have "r sid \<noteq> Some i" for i using iff [of i] len by (auto simp: in_set_conv_nth)
    with None show ?thesis by (cases "r sid") auto
  next
    case (Some j)
    then have "j < length svcs" "downlink_ids d ! j = sid"
      using id_search_Some [of "downlink_ids d" 0 sid j] len by auto
    then show ?thesis using iff [of j] Some by simp
  qed
  moreover have "last_seen d = Some i \<Longrightarrow> downlink_ids d ! i = sid \<Longrightarrow> r sid = Some i" for i
    using iff [of i] assms(1) by (simp add: routes_def)
  ultimately show ?thesis by (auto simp: active_service_def split: option.splits)
qed

lemma routes_start:
  assumes "routes svcs d r" and "sid \<noteq> DOWNLINK_ID_INVALID" and "r sid = None" and "i < length svcs" and "i \<notin> ran r"
  shows "routes svcs (d\<lparr>last_seen := Some i, downlink_ids := (downlink_ids d)[i := sid]\<rparr>) (r(sid \<mapsto> i))"
proof -
  have "downlink_ids d ! i = DOWNLINK_ID_INVALID"
    using assms by (auto simp: routes_def ran_def)
  moreover have "i' < length svcs \<Longrightarrow> downlink_ids d ! i' \<noteq> sid" for i'
    using routes_iff [OF assms(1,2), of i'] assms(3) by auto
  ultimately show ?thesis using assms by (auto simp: routes_def nth_list_update)
qed

lemma routes_last:
  assumes "routes svcs d r" and "sid \<noteq> DOWNLINK_ID_INVALID" and "r sid = Some i"
  shows "routes svcs (d\<lparr>downlink_ids := (downlink_ids d)[i := DOWNLINK_ID_INVALID], last_seen := None\<rparr>) (r(sid := None))"
proof -
  have "i' < length svcs \<Longrightarrow> downlink_ids d ! i' = sid \<longleftrightarrow> i' = i" for i'
    using routes_iff [OF assms(1,2), of i'] routes_iff [OF assms(1,2), of i] assms(3) by auto
  with assms show ?thesis by (auto simp: routes_def nth_list_update)
qed

lemma dispatch_start_route:
  assumes "\<forall>service\<in>set svcs. gs_path service \<noteq> []"
  shows "dispatch_downlink_start svcs sid path (d, w) =
    (case route svcs path of
       None \<Rightarrow> Some (d, w)
     | Some i \<Rightarrow> map_option (\<lambda>w. (d\<lparr>last_seen := Some i, downlink_ids := (downlink_ids d)[i := sid]\<rparr>, w))
         (case gs_start_cb (svcs ! i) of
            None \<Rightarrow> Some w | Some cb \<Rightarrow> cb sid (path_rest (svcs ! i) path) w))"
  by (auto simp: dispatch_downlink_start_def service_search_route [OF assms] path_rest_def map_option_case
      Let_def split: option.splits bind_splits)

definition same_outcome where
  "same_outcome svcs x y \<longleftrightarrow>
     rel_option (\<lambda>(d, w) (r, w'). w = w' \<and> routes svcs d r) x y"

lemma same_outcome_bind:
  assumes "same_outcome svcs x y"
    and "\<And>d w r. x = Some (d, w) \<Longrightarrow> y = Some (r, w) \<Longrightarrow> routes svcs d r \<Longrightarrow> same_outcome svcs (f (d, w)) (g (r, w))"
  shows "same_outcome svcs (Option.bind x f) (Option.bind y g)"
  using assms by (cases x; cases y) (auto simp: same_outcome_def)

lemma dispatch_msg_step:
  assumes "routes svcs d r" and "orderly svcs r (m # ms)" and "\<forall>service\<in>set svcs. gs_path service \<noteq> []"
  shows "same_outcome svcs (dispatch_msg svcs m (d, w)) (route_msg svcs m (r, w))
    \<and> (\<forall>r' w'. route_msg svcs m (r, w) = Some (r', w') \<longrightarrow> orderly svcs r' ms)"
proof (cases m)
  case (Stream_start sid path)
  show ?thesis
  proof (cases "route svcs path")
    case None
    then show ?thesis using assms
      by (simp add: Stream_start dispatch_msg_def route_msg_def dispatch_start_route same_outcome_def)
  next
    case (Some i)
    have "routes svcs (d\<lparr>last_seen := Some i, downlink_ids := (downlink_ids d)[i := sid]\<rparr>) (r(sid \<mapsto> i))"
      using assms Some route_bound [OF Some] by (intro routes_start) (auto simp: Stream_start)
    then show ?thesis using Some assms(2,3)
      by (auto simp: Stream_start dispatch_msg_def route_msg_def dispatch_start_route same_outcome_def
          split: option.splits bind_splits)
  qed
next
  case (Stream_data sid data len l)
  have act: "active_service sid d = r sid"
    using assms by (intro active_service_route) (simp_all add: Stream_data)
  show ?thesis
  proof (cases "r sid")
    case None
    then have "r(sid := None) = r" by auto
    with None assms act show ?thesis
      by (auto simp: Stream_data dispatch_msg_def route_msg_def dispatch_downlink_data_def same_outcome_def
          split: if_splits)
  next
    case (Some i)
    with routes_last [OF assms(1) _ Some] assms act show ?thesis
      by (auto simp: Stream_data dispatch_msg_def route_msg_def dispatch_downlink_data_def same_outcome_def
          split: bind_splits)
  qed
qed

lemma dispatch_msgs_step:
  assumes "routes svcs d r" and "orderly svcs r ms" and "\<forall>service\<in>set svcs. gs_path service \<noteq> []"
  shows "same_outcome svcs (dispatch_msgs svcs ms (d, w)) (route_msgs svcs ms (r, w))"
  using assms(1,2)
proof (induction ms arbitrary: d r w)
  case (Cons m ms)
  from dispatch_msg_step [OF Cons.prems assms(3), of w] Cons.IH show ?case
    by (auto intro!: same_outcome_bind)
qed (simp add: same_outcome_def)

lemma routes_static: "routes svcs (dispatch_static svcs) Map.empty"
  by (auto simp: routes_def dispatch_static_def)

section \<open>Properties\<close>

text \<open>
  Property C6. The dispatcher implements routing. As long as no id is opened twice and no stream
  starts on a service that has one open, the variables of the dispatcher represent the map from
  open streams to services: every stream, interleaved with others in any way, goes to the first
  service whose path pattern fits its path, the start callback gets the part of the path behind a
  star, all data go to that service until its last piece, and data of a stream that no service took
  are dropped without any effect. A callback that fails makes both sides fail.
\<close>

theorem dispatch_refines_routing:
  assumes "routes svcs d r" and "orderly svcs r ms" and "\<forall>service\<in>set svcs. gs_path service \<noteq> []"
  shows "rel_option (\<lambda>(d', w') (r', w''). w' = w'' \<and> routes svcs d' r')
    (dispatch_msgs svcs ms (d, w)) (route_msgs svcs ms (r, w))"
  using dispatch_msgs_step [OF assms] by (simp add: same_outcome_def)

definition log_service :: "u8 list \<Rightarrow> nat \<Rightarrow> (nat \<times> u8 list option) list golioth_downlink_service" where
  "log_service path n = \<lparr>gs_path = path, gs_start_cb = Some (\<lambda>sid rest w. Some (w @ [(n, rest)])),
     gs_data_cb = (\<lambda>sid data len l w. Some (w @ [(n, data)]))\<rparr>"

lemma log_service_simps [simp]:
  "gs_path (log_service path n) = path"
  "gs_start_cb (log_service path n) = Some (\<lambda>sid rest w. Some (w @ [(n, rest)]))"
  "gs_data_cb (log_service path n) sid data len l w = Some (w @ [(n, data)])"
  by (simp_all add: log_service_def)

lemma dispatch_refines_routing_witness:
  "let svcs = [log_service [0x61] 7, log_service [0x62, 0x2a] 8];
       ms = [Stream_start 3 [0x62, 0x63], Stream_start 4 [0x61], Stream_data 3 (Some [1, 0]) 2 False,
         Stream_data 4 (Some [2, 0]) 2 True, Stream_data 9 (Some [7, 0]) 2 True, Stream_data 3 (Some [3, 0]) 2 True]
   in map_option snd (dispatch_msgs svcs ms (dispatch_static svcs, []))
     = Some [(8, Some [0x63]), (7, None), (8, Some [1, 0]), (7, Some [2, 0]), (8, Some [3, 0])]"
proof -
  let ?svcs = "[log_service [0x61] 7, log_service [0x62, 0x2a] 8]"
  let ?ms = "[Stream_start 3 [0x62, 0x63], Stream_start 4 [0x61], Stream_data 3 (Some [1, 0]) 2 False,
         Stream_data 4 (Some [2, 0]) 2 True, Stream_data 9 (Some [7, 0]) 2 True, Stream_data 3 (Some [3, 0]) 2 True]"
  have r: "route ?svcs [0x62, 0x63] = Some 1" "route ?svcs [0x61] = Some 0"
    by (simp_all add: route_def service_prefix_def upt_rec)
  have "orderly ?svcs Map.empty ?ms" by (simp add: r DOWNLINK_ID_INVALID_def)
  moreover have "\<forall>service\<in>set ?svcs. gs_path service \<noteq> []" by simp
  ultimately have "rel_option (\<lambda>(d', w') (r', w''). w' = w'' \<and> routes ?svcs d' r')
      (dispatch_msgs ?svcs ?ms (dispatch_static ?svcs, [])) (route_msgs ?svcs ?ms (Map.empty, []))"
    by (rule dispatch_refines_routing [OF routes_static])
  moreover have "map_option snd (route_msgs ?svcs ?ms (Map.empty, []))
      = Some [(8, Some [0x63]), (7, None), (8, Some [1, 0]), (7, Some [2, 0]), (8, Some [3, 0])]"
    by (simp add: route_msg_def r path_rest_def service_prefix_def)
  ultimately show ?thesis by (auto simp: rel_option_iff Let_def split: option.splits)
qed

text \<open>
  Entries as the entry layer delivers them: every entry is a stream with id 0 that starts and ends
  at once, so the traffic is always orderly and each entry goes to the service its path selects.
\<close>

definition serve_entry :: "'w golioth_downlink_service list \<Rightarrow> entry \<Rightarrow> 'w \<Rightarrow> 'w option" where
  "serve_entry svcs e w = (case e of (path, ct, data) \<Rightarrow>
     (case route svcs (c_str path) of
        None \<Rightarrow> Some w
      | Some i \<Rightarrow> do {
          w \<leftarrow> (case gs_start_cb (svcs ! i) of
                  None \<Rightarrow> Some w | Some cb \<Rightarrow> cb 0 (path_rest (svcs ! i) (c_str path)) w);
          gs_data_cb (svcs ! i) 0 (Some data) (length data) True w }))"

fun serve_entries :: "'w golioth_downlink_service list \<Rightarrow> entry list \<Rightarrow> 'w \<Rightarrow> 'w option" where
  "serve_entries svcs [] w = Some w"
| "serve_entries svcs (e # es) w = do { w \<leftarrow> serve_entry svcs e w; serve_entries svcs es w }"

lemma dispatch_entry:
  assumes "routes svcs d r" and "r 0 = None" and "ran r \<inter> {i. route svcs (c_str path) = Some i} = {}"
    and "\<forall>service\<in>set svcs. gs_path service \<noteq> []"
  shows "\<exists>d'. downlink_data [dispatch_handler svcs] 0 (Some data) (length data) True
      (downlink_start [dispatch_handler svcs] 0 (c_str path) ct (Some (d, w)))
    = map_option (Pair d') (serve_entry svcs (path, ct, data) w) \<and> routes svcs d' r"
proof (cases "route svcs (c_str path)")
  case None
  have "active_service 0 d = None"
    using active_service_route [OF assms(1), of 0] assms(2) by (simp add: DOWNLINK_ID_INVALID_def)
  with None assms(1,4) show ?thesis
    by (intro exI [of _ d]) (simp add: downlink_data_def downlink_start_def dispatch_handler_def
        serve_entry_def dispatch_start_route dispatch_downlink_data_def)
next
  case (Some i)
  let ?d = "d\<lparr>last_seen := Some i, downlink_ids := (downlink_ids d)[i := 0]\<rparr>"
  let ?d' = "?d\<lparr>downlink_ids := (downlink_ids ?d)[i := DOWNLINK_ID_INVALID], last_seen := None\<rparr>"
  have inv: "(0 :: u32) \<noteq> DOWNLINK_ID_INVALID" by (simp add: DOWNLINK_ID_INVALID_def)
  have r': "routes svcs ?d (r(0 \<mapsto> i))"
    using assms(1-3) Some route_bound [OF Some] by (intro routes_start [OF _ inv]) auto
  have "active_service 0 ?d = Some i" using active_service_route [OF r' inv] by simp
  moreover have "routes svcs ?d' ((r(0 \<mapsto> i))(0 := None))" by (rule routes_last [OF r' inv]) simp
  moreover have "(r(0 \<mapsto> i))(0 := None) = r" using assms(2) by auto
  ultimately show ?thesis using Some assms(4)
    by (intro exI [of _ ?d']) (auto simp: downlink_data_def downlink_start_def dispatch_handler_def
        serve_entry_def dispatch_start_route dispatch_downlink_data_def split: option.splits bind_splits)
qed

lemma deliver_dead: "deliver_entries [dispatch_handler svcs] es None = None"
  by (induction es) (auto simp: deliver_entries_def downlink_data_def downlink_start_def dispatch_handler_def)

lemma dispatch_entries_step:
  assumes "routes svcs d r" and "r 0 = None" and "\<forall>service\<in>set svcs. gs_path service \<noteq> []"
    and "\<forall>(path, ct, data)\<in>set es. \<forall>i. route svcs (c_str path) = Some i \<longrightarrow> i \<notin> ran r"
  shows "\<exists>d'. deliver_entries [dispatch_handler svcs] es (Some (d, w)) = map_option (Pair d') (serve_entries svcs es w)
    \<and> routes svcs d' r"
  using assms(1,4)
proof (induction es arbitrary: d w)
  case Nil
  then show ?case by (intro exI [of _ d]) simp
next
  case (Cons e es)
  obtain path ct data where e: "e = (path, ct, data)" by (cases e)
  have "ran r \<inter> {i. route svcs (c_str path) = Some i} = {}" using Cons.prems(2) by (auto simp: e)
  from dispatch_entry [OF Cons.prems(1) assms(2) this assms(3), of data ct w] obtain d' where
    d': "downlink_data [dispatch_handler svcs] 0 (Some data) (length data) True
          (downlink_start [dispatch_handler svcs] 0 (c_str path) ct (Some (d, w)))
        = map_option (Pair d') (serve_entry svcs (path, ct, data) w)" "routes svcs d' r" by blast
  show ?case
  proof (cases "serve_entry svcs (path, ct, data) w")
    case None
    with d' show ?thesis by (intro exI [of _ d']) (simp add: e deliver_dead)
  next
    case (Some w')
    with Cons.IH [OF d'(2), of w'] Cons.prems(2) d'(1) show ?thesis by (simp add: e)
  qed
qed

text \<open>
  A path without a star is not compared to its end: a service takes every path that
  begins with its own, so the settings service, registered for \<^verbatim>\<open>/.c\<close>, takes an entry for
  \<^verbatim>\<open>/.config\<close>, unless a service before it does.
\<close>

theorem dispatch_exact_path_is_prefix:
  assumes "gs_path service \<noteq> []" and "last (gs_path service) \<noteq> 0x2a"
    and "gs_start_cb service = None" and "length (downlink_ids d) = Suc (length svcs)"
  shows "dispatch_downlink_start (service # svcs) sid (gs_path service @ rest) (d, w)
    = Some (d\<lparr>last_seen := Some 0, downlink_ids := (downlink_ids d)[0 := sid]\<rparr>, w)"
  using assms by (simp add: dispatch_downlink_start_def service_matches_prefix service_prefix_def Let_def)

lemma dispatch_exact_path_is_prefix_witness:
  "dispatch_downlink_start [\<lparr>gs_path = [0x2f, 0x2e, 0x63], gs_start_cb = None, gs_data_cb = (\<lambda>_ _ _ _. Some)\<rparr>] 5
     [0x2f, 0x2e, 0x63, 0x6f, 0x6e, 0x66, 0x69, 0x67] (\<lparr>last_seen = None, downlink_ids = [DOWNLINK_ID_INVALID]\<rparr>, ())
   = Some (\<lparr>last_seen = Some 0, downlink_ids = [5]\<rparr>, ())"
  using dispatch_exact_path_is_prefix [of "\<lparr>gs_path = [0x2f, 0x2e, 0x63], gs_start_cb = None, gs_data_cb = (\<lambda>_ _ _ _. Some)\<rparr>"
      "\<lparr>last_seen = None, downlink_ids = [DOWNLINK_ID_INVALID]\<rparr>" "[]" 5 "[0x6f, 0x6e, 0x66, 0x69, 0x67]" "()"]
  by simp

end
