(* ===== verification/Zcbor_utils.thy ===== *)
theory Zcbor_utils
  imports Prelude
begin

text \<open>
  The map decoder of \<^verbatim>\<open>lib/zcbor_utils\<close>, which the settings and OTA services use. The CBOR
  library zcbor itself is not part of the repository: its decoder is the record \<open>'z zcbor\<close> of the
  functions the code calls, on a decoder state of type \<open>'z\<close>. A function that writes through a
  pointer takes the old value and returns the new one, whether it succeeds or not.

  \<open>zd_new\<close> is \<^verbatim>\<open>ZCBOR_STATE_D\<close>, with the number of levels that can be opened and the message.
  \<open>zd_payload\<close> is the byte at \<^verbatim>\<open>state->payload\<close>, \<open>None\<close> when the pointer is at the end of the
  message, where the code must not read.
\<close>

section \<open>The decoder library\<close>

text \<open>\<^verbatim>\<open>struct zcbor_string\<close>: a pointer and the bytes behind it.\<close>

record zcbor_string =
  zs_value :: u32
  zs_bytes :: "u8 list"

record 'z zcbor =
  zd_new :: "nat \<Rightarrow> u8 list \<Rightarrow> 'z"
  zd_payload :: "'z \<Rightarrow> u8 option"
  zd_indefinite :: "'z \<Rightarrow> bool"
  zd_elem_count :: "'z \<Rightarrow> nat"
  zd_map_start :: "'z \<Rightarrow> bool \<times> 'z"
  zd_map_end :: "'z \<Rightarrow> bool \<times> 'z"
  zd_list_start :: "'z \<Rightarrow> bool \<times> 'z"
  zd_force_end :: "'z \<Rightarrow> bool \<times> 'z"
  zd_any_skip :: "'z \<Rightarrow> bool \<times> 'z"
  zd_nil_expect :: "'z \<Rightarrow> bool \<times> 'z"
  zd_uint32 :: "'z \<Rightarrow> u32 \<Rightarrow> bool \<times> u32 \<times> 'z"
  zd_int32 :: "'z \<Rightarrow> u32 \<Rightarrow> bool \<times> u32 \<times> 'z"
  zd_int64 :: "'z \<Rightarrow> u64 \<Rightarrow> bool \<times> u64 \<times> 'z"
  zd_float :: "'z \<Rightarrow> u64 \<Rightarrow> bool \<times> u64 \<times> 'z"
  zd_bool :: "'z \<Rightarrow> bool \<Rightarrow> bool \<times> bool \<times> 'z"
  zd_tstr :: "'z \<Rightarrow> zcbor_string \<Rightarrow> bool \<times> zcbor_string \<times> 'z"

text \<open>The major types of CBOR that the code distinguishes: the upper three bits of a byte.\<close>

definition ZCBOR_MAJOR_TYPE :: "u8 \<Rightarrow> nat" where
  "ZCBOR_MAJOR_TYPE b = unat (drop_bit 5 b)"

definition ZCBOR_MAJOR_TYPE_PINT :: nat where "ZCBOR_MAJOR_TYPE_PINT = 0"
definition ZCBOR_MAJOR_TYPE_NINT :: nat where "ZCBOR_MAJOR_TYPE_NINT = 1"
definition ZCBOR_MAJOR_TYPE_TSTR :: nat where "ZCBOR_MAJOR_TYPE_TSTR = 3"
definition ZCBOR_MAJOR_TYPE_SIMPLE :: nat where "ZCBOR_MAJOR_TYPE_SIMPLE = 7"

lemmas major_types = ZCBOR_MAJOR_TYPE_PINT_def ZCBOR_MAJOR_TYPE_NINT_def ZCBOR_MAJOR_TYPE_TSTR_def
  ZCBOR_MAJOR_TYPE_SIMPLE_def

text \<open>
  The encoder, on a state of type \<open>'e\<close>: \<open>ze_new\<close> takes the number of levels and the size of the
  buffer, and \<open>ze_written\<close> are the bytes between the start of the buffer and the payload pointer.
\<close>

record 'e zcbor_encoder =
  ze_new :: "nat \<Rightarrow> nat \<Rightarrow> 'e"
  ze_written :: "'e \<Rightarrow> u8 list"
  ze_map_start :: "nat \<Rightarrow> 'e \<Rightarrow> bool \<times> 'e"
  ze_map_end :: "nat \<Rightarrow> 'e \<Rightarrow> bool \<times> 'e"
  ze_tstr :: "u8 list \<Rightarrow> 'e \<Rightarrow> bool \<times> 'e"
  ze_uint32 :: "u32 \<Rightarrow> 'e \<Rightarrow> bool \<times> 'e"
  ze_int64 :: "u64 \<Rightarrow> 'e \<Rightarrow> bool \<times> 'e"
  ze_nil :: "'e \<Rightarrow> bool \<times> 'e"

section \<open>Keys and entries\<close>

text \<open>
  \<^verbatim>\<open>struct zcbor_map_key\<close>. The key of a table entry is one of the two kinds. The key that is
  decoded is the object in memory: its type, the first word of its union (an integer, or the
  pointer of a string), the second word of the union (the length of a string), and the bytes behind
  the first word when it is a pointer.
\<close>

datatype zcbor_map_key = Key_u32 u32 | Key_tstr "u8 list"

record zcbor_key_object =
  mk_word :: u32
  mk_len :: nat
  mk_mem :: "u8 list option"

record ('z, 'w) zcbor_map_entry =
  me_key :: zcbor_map_key
  me_decode :: "'z \<Rightarrow> 'w \<Rightarrow> (ret \<times> 'z \<times> 'w) option"

definition zcbor_list_or_map_end :: "'z zcbor \<Rightarrow> 'z \<Rightarrow> bool option" where
  "zcbor_list_or_map_end zc z =
     (if zd_indefinite zc z then map_option (\<lambda>b. b = 0xff) (zd_payload zc z)
      else Some (zd_elem_count zc z = 0))"

text \<open>
  The type of the decoded key is not looked at. The comparison of strings follows the pointer when
  the lengths agree.
\<close>

fun map_entry_get ::
    "('z, 'w) zcbor_map_entry list \<Rightarrow> zcbor_key_object \<Rightarrow> ('z, 'w) zcbor_map_entry option option" where
  "map_entry_get [] key = Some None"
| "map_entry_get (entry # entries) key =
     (case me_key entry of
        Key_u32 u \<Rightarrow> if u = mk_word key then Some (Some entry) else map_entry_get entries key
      | Key_tstr s \<Rightarrow>
          if mk_len key = length s
          then do { mem \<leftarrow> mk_mem key;
                    bs \<leftarrow> mem_read mem 0 (length s);
                    if bs = s then Some (Some entry) else map_entry_get entries key }
          else map_entry_get entries key)"

definition zcbor_map_int64_decode :: "'z zcbor \<Rightarrow> 'z \<Rightarrow> u64 \<Rightarrow> ret \<times> 'z \<times> u64" where
  "zcbor_map_int64_decode zc z v =
     (let (ok, v, z) = zd_int64 zc z v in (if ok then OK else Err EBADMSG, z, v))"

definition zcbor_map_int32_decode :: "'z zcbor \<Rightarrow> 'z \<Rightarrow> u32 \<Rightarrow> ret \<times> 'z \<times> u32" where
  "zcbor_map_int32_decode zc z v =
     (let (ok, v, z) = zd_int32 zc z v in (if ok then OK else Err EBADMSG, z, v))"

definition zcbor_map_tstr_decode :: "'z zcbor \<Rightarrow> 'z \<Rightarrow> zcbor_string \<Rightarrow> ret \<times> 'z \<times> zcbor_string" where
  "zcbor_map_tstr_decode zc z v =
     (let (ok, v, z) = zd_tstr zc z v in (if ok then OK else Err EBADMSG, z, v))"

text \<open>The string of the key object, for the decoder that overwrites it.\<close>

definition key_string :: "zcbor_key_object \<Rightarrow> zcbor_string" where
  "key_string key = \<lparr>zs_value = mk_word key, zs_bytes = (case mk_mem key of None \<Rightarrow> [] | Some m \<Rightarrow> m)\<rparr>"

definition zcbor_map_key_decode ::
    "'z zcbor \<Rightarrow> 'z \<Rightarrow> zcbor_key_object \<Rightarrow> (ret \<times> 'z \<times> zcbor_key_object) option" where
  "zcbor_map_key_decode zc z key =
     do { b \<leftarrow> zd_payload zc z;
          let major_type = ZCBOR_MAJOR_TYPE b;
          if major_type = ZCBOR_MAJOR_TYPE_TSTR then
            (let (ok, s, z) = zd_tstr zc z (key_string key) in
             Some (if ok then (OK, z, \<lparr>mk_word = zs_value s, mk_len = length (zs_bytes s), mk_mem = Some (zs_bytes s)\<rparr>)
                   else (Err EBADMSG, z, key)))
          else if major_type = ZCBOR_MAJOR_TYPE_PINT then
            (let (ok, u, z) = zd_uint32 zc z (mk_word key) in
             Some (if ok then (OK, z, key\<lparr>mk_word := u, mk_mem := None\<rparr>) else (Err EBADMSG, z, key)))
          else Some (Err EBADMSG, z, key) }"

text \<open>
  The loop of \<^verbatim>\<open>zcbor_map_decode()\<close>: \<open>Inl\<close> when the function returns from inside it, otherwise the
  number of entries decoded. It ends as far as the decoder makes progress.
\<close>

partial_function (option) map_decode_loop ::
    "'z zcbor \<Rightarrow> ('z, 'w) zcbor_map_entry list \<Rightarrow> nat \<Rightarrow> zcbor_key_object \<Rightarrow> 'z \<Rightarrow> 'w \<Rightarrow> ((errno + nat) \<times> 'z \<times> 'w) option"
where
  "map_decode_loop zc entries num_decoded key z w =
     (if \<not> num_decoded < length entries then Some (Inr num_decoded, z, w)
      else do {
        e \<leftarrow> zcbor_list_or_map_end zc z;
        if e then Some (Inr num_decoded, z, w)
        else do {
          (err, z, key) \<leftarrow> zcbor_map_key_decode zc z key;
          case err of
            Err er \<Rightarrow> Some (Inl er, z, w)
          | OK \<Rightarrow> do {
              found \<leftarrow> map_entry_get entries key;
              case found of
                Some entry \<Rightarrow> do {
                  (err, z, w) \<leftarrow> me_decode entry z w;
                  case err of
                    Err er \<Rightarrow> Some (Inl er, z, w)
                  | OK \<Rightarrow> map_decode_loop zc entries (num_decoded + 1) key z w }
              | None \<Rightarrow>
                  (let (ok, z) = zd_any_skip zc z in
                   if \<not> ok then Some (Inl EBADMSG, z, w)
                   else map_decode_loop zc entries num_decoded key z w) } } })"

text \<open>The argument \<open>key\<close> is the object as it lies uninitialised on the stack.\<close>

definition zcbor_map_decode ::
    "'z zcbor \<Rightarrow> ('z, 'w) zcbor_map_entry list \<Rightarrow> zcbor_key_object \<Rightarrow> 'z \<Rightarrow> 'w \<Rightarrow> (ret \<times> 'z \<times> 'w) option" where
  "zcbor_map_decode zc entries key z w =
     (let (ok, z) = zd_map_start zc z in
      if \<not> ok then Some (Err EBADMSG, z, w)
      else do {
        (r, z, w) \<leftarrow> map_decode_loop zc entries 0 key z w;
        case r of
          Inl er \<Rightarrow> Some (Err er, z, w)
        | Inr num_decoded \<Rightarrow>
            if num_decoded \<noteq> 0 \<and> num_decoded < length entries then Some (Err EBADMSG, z, w)
            else (let err = (if num_decoded = 0 then Err ENOENT else OK);
                      (ok, z) = zd_force_end zc z in
                  if \<not> ok then Some (Err EBADMSG, z, w) else Some (err, z, w)) })"

section \<open>What the decoder library does\<close>

text \<open>
  CBOR data items, and the documented behaviour of the library on them. A decoder state stands at
  a position that \<open>R\<close> describes by the items that are left in the map or list being read and in
  those around it (a map counts as its keys and values in turn). Decoding an item of the right kind
  consumes it; the wrong kind leaves the position as it was. Up to \<open>n\<close> levels can be opened.
\<close>

datatype cbor = C_int int | C_bytes "u8 list" | C_tstr "u8 list" | C_list "cbor list"
  | C_map "(cbor \<times> cbor) list" | C_nil | C_bool bool | C_float u64

fun major :: "cbor \<Rightarrow> nat" where
  "major (C_int i) = (if 0 \<le> i then 0 else 1)"
| "major (C_bytes bs) = 2"
| "major (C_tstr bs) = 3"
| "major (C_list xs) = 4"
| "major (C_map ps) = 5"
| "major C_nil = 7"
| "major (C_bool b) = 7"
| "major (C_float v) = 7"

fun flat :: "(cbor \<times> cbor) list \<Rightarrow> cbor list" where
  "flat [] = []"
| "flat ((k, v) # ps) = k # v # flat ps"

type_synonym position = "cbor list list"

definition takes :: "('z \<Rightarrow> position \<Rightarrow> bool) \<Rightarrow> bool \<Rightarrow> cbor \<Rightarrow> cbor list \<Rightarrow> position \<Rightarrow> bool \<times> 'z \<Rightarrow> bool" where
  "takes R yes x f fs = (\<lambda>(ok, z). ok = yes \<and> R z (if yes then f # fs else (x # f) # fs))"

definition int_in :: "int \<Rightarrow> int \<Rightarrow> cbor \<Rightarrow> bool" where
  "int_in lo hi x = (case x of C_int i \<Rightarrow> lo \<le> i \<and> i < hi | _ \<Rightarrow> False)"

definition reads_int :: "('z \<Rightarrow> position \<Rightarrow> bool) \<Rightarrow> int \<Rightarrow> int \<Rightarrow> ('z \<Rightarrow> 'a::len word \<Rightarrow> bool \<times> 'a word \<times> 'z) \<Rightarrow> bool" where
  "reads_int R lo hi dec \<longleftrightarrow> (\<forall>z x f fs old. R z ((x # f) # fs) \<longrightarrow>
     (case dec z old of (ok, v, z') \<Rightarrow> takes R (int_in lo hi x) x f fs (ok, z')
        \<and> (\<forall>i. ok \<and> x = C_int i \<longrightarrow> v = of_int i)))"

definition end_ok :: "'z zcbor \<Rightarrow> ('z \<Rightarrow> position \<Rightarrow> bool) \<Rightarrow> bool" where
  "end_ok zc R \<longleftrightarrow> (\<forall>z f fs. R z (f # fs) \<longrightarrow>
     (if zd_indefinite zc z then \<exists>b. zd_payload zc z = Some b \<and> (b = 0xff \<longleftrightarrow> f = [])
      else zd_elem_count zc z = 0 \<longleftrightarrow> f = []))"

definition nesting_ok :: "'z zcbor \<Rightarrow> nat \<Rightarrow> ('z \<Rightarrow> position \<Rightarrow> bool) \<Rightarrow> bool" where
  "nesting_ok zc n R \<longleftrightarrow>
     (\<forall>z x f fs. R z ((x # f) # fs) \<and> length fs < n \<longrightarrow>
        (case zd_map_start zc z of (ok, z') \<Rightarrow>
           (case x of C_map ps \<Rightarrow> ok \<and> R z' (flat ps # f # fs) | _ \<Rightarrow> \<not> ok \<and> R z' ((x # f) # fs)))
      \<and> (case zd_list_start zc z of (ok, z') \<Rightarrow>
           (case x of C_list xs \<Rightarrow> ok \<and> R z' (xs # f # fs) | _ \<Rightarrow> \<not> ok \<and> R z' ((x # f) # fs))))
   \<and> (\<forall>z f fs. R z ([] # f # fs) \<longrightarrow> (case zd_map_end zc z of (ok, z') \<Rightarrow> ok \<and> R z' (f # fs)))
   \<and> (\<forall>z g f fs. R z (g # f # fs) \<longrightarrow>
        (case zd_force_end zc z of (ok, z') \<Rightarrow> ok \<and> (g = [] \<and> \<not> zd_indefinite zc z \<longrightarrow> R z' (f # fs))))"

definition items_ok :: "'z zcbor \<Rightarrow> ('z \<Rightarrow> position \<Rightarrow> bool) \<Rightarrow> bool" where
  "items_ok zc R \<longleftrightarrow> (\<forall>z x f fs. R z ((x # f) # fs) \<longrightarrow>
     (\<exists>b. zd_payload zc z = Some b \<and> ZCBOR_MAJOR_TYPE b = major x)
   \<and> takes R True x f fs (zd_any_skip zc z)
   \<and> takes R (x = C_nil) x f fs (zd_nil_expect zc z)
   \<and> (\<forall>old. case zd_float zc z old of (ok, v, z') \<Rightarrow>
        takes R (\<exists>u. x = C_float u) x f fs (ok, z') \<and> (\<forall>u. x = C_float u \<longrightarrow> v = u))
   \<and> (\<forall>old. case zd_bool zc z old of (ok, v, z') \<Rightarrow>
        takes R (\<exists>u. x = C_bool u) x f fs (ok, z') \<and> (\<forall>u. x = C_bool u \<longrightarrow> v = u))
   \<and> (\<forall>old. case zd_tstr zc z old of (ok, s, z') \<Rightarrow>
        takes R (\<exists>bs. x = C_tstr bs) x f fs (ok, z') \<and> (\<forall>bs. x = C_tstr bs \<longrightarrow> zs_bytes s = bs)))"

definition decoder_ok :: "'z zcbor \<Rightarrow> nat \<Rightarrow> ('z \<Rightarrow> position \<Rightarrow> bool) \<Rightarrow> bool" where
  "decoder_ok zc n R \<longleftrightarrow> end_ok zc R \<and> nesting_ok zc n R \<and> items_ok zc R
     \<and> reads_int R 0 (2 ^ 32) (zd_uint32 zc) \<and> reads_int R (- (2 ^ 31)) (2 ^ 31) (zd_int32 zc)
     \<and> reads_int R (- (2 ^ 63)) (2 ^ 63) (zd_int64 zc)"

text \<open>A decoder on positions that behaves like this, for any reading of messages as data items.\<close>

definition pos_take :: "(cbor \<Rightarrow> 'a option) \<Rightarrow> position \<Rightarrow> 'a \<Rightarrow> bool \<times> 'a \<times> position" where
  "pos_take sel z old =
     (case z of (x # f) # fs \<Rightarrow> (case sel x of None \<Rightarrow> (False, old, z) | Some v \<Rightarrow> (True, v, f # fs))
      | _ \<Rightarrow> (False, old, z))"

definition pos_open :: "(cbor \<Rightarrow> cbor list option) \<Rightarrow> position \<Rightarrow> bool \<times> position" where
  "pos_open sel z =
     (case z of (x # f) # fs \<Rightarrow> (case sel x of None \<Rightarrow> (False, z) | Some g \<Rightarrow> (True, g # f # fs))
      | _ \<Rightarrow> (False, z))"

definition pos_close :: "position \<Rightarrow> bool \<times> position" where
  "pos_close z = (case z of g # f # fs \<Rightarrow> (True, f # fs) | _ \<Rightarrow> (False, z))"

definition int_sel :: "int \<Rightarrow> int \<Rightarrow> cbor \<Rightarrow> 'a::len word option" where
  "int_sel lo hi x = (case x of C_int i \<Rightarrow> if lo \<le> i \<and> i < hi then Some (of_int i) else None | _ \<Rightarrow> None)"

definition zcbor_pos :: "(u8 list \<Rightarrow> cbor) \<Rightarrow> position zcbor" where
  "zcbor_pos parse = \<lparr>
     zd_new = (\<lambda>n bs. [[parse bs]]),
     zd_payload = (\<lambda>z. case z of (x # f) # fs \<Rightarrow> Some (push_bit 5 (of_nat (major x))) | _ \<Rightarrow> None),
     zd_indefinite = (\<lambda>z. False),
     zd_elem_count = (\<lambda>z. length (hd z)),
     zd_map_start = pos_open (\<lambda>x. case x of C_map ps \<Rightarrow> Some (flat ps) | _ \<Rightarrow> None),
     zd_map_end = pos_close,
     zd_list_start = pos_open (\<lambda>x. case x of C_list xs \<Rightarrow> Some xs | _ \<Rightarrow> None),
     zd_force_end = pos_close,
     zd_any_skip = (\<lambda>z. let (ok, _, z) = pos_take (\<lambda>x. Some ()) z () in (ok, z)),
     zd_nil_expect = (\<lambda>z. let (ok, _, z) = pos_take (\<lambda>x. if x = C_nil then Some () else None) z () in (ok, z)),
     zd_uint32 = pos_take (int_sel 0 (2 ^ 32)),
     zd_int32 = pos_take (int_sel (- (2 ^ 31)) (2 ^ 31)),
     zd_int64 = pos_take (int_sel (- (2 ^ 63)) (2 ^ 63)),
     zd_float = pos_take (\<lambda>x. case x of C_float v \<Rightarrow> Some v | _ \<Rightarrow> None),
     zd_bool = pos_take (\<lambda>x. case x of C_bool v \<Rightarrow> Some v | _ \<Rightarrow> None),
     zd_tstr = pos_take (\<lambda>x. case x of C_tstr bs \<Rightarrow> Some \<lparr>zs_value = 0x20000000, zs_bytes = bs\<rparr> | _ \<Rightarrow> None)\<rparr>"

lemma major_byte: "ZCBOR_MAJOR_TYPE (push_bit 5 (of_nat (major x))) = major x"
  by (cases x) (simp_all add: ZCBOR_MAJOR_TYPE_def)

lemma reads_int_pos: "reads_int (=) lo hi (pos_take (int_sel lo hi))"
  by (auto simp: reads_int_def pos_take_def int_sel_def takes_def int_in_def split: cbor.splits)

lemma decoder_ok_pos: "decoder_ok (zcbor_pos parse) n (=)"
proof -
  have "end_ok (zcbor_pos parse) (=)" by (auto simp: end_ok_def zcbor_pos_def)
  moreover have "nesting_ok (zcbor_pos parse) n (=)"
    by (auto simp: nesting_ok_def zcbor_pos_def pos_open_def pos_close_def split: cbor.splits)
  moreover have "items_ok (zcbor_pos parse) (=)"
    by (auto simp: items_ok_def zcbor_pos_def pos_take_def takes_def major_byte Let_def split: cbor.splits)
  moreover have "zd_uint32 (zcbor_pos parse) = pos_take (int_sel 0 (2 ^ 32))"
    "zd_int32 (zcbor_pos parse) = pos_take (int_sel (- (2 ^ 31)) (2 ^ 31))"
    "zd_int64 (zcbor_pos parse) = pos_take (int_sel (- (2 ^ 63)) (2 ^ 63))" by (simp_all add: zcbor_pos_def)
  ultimately show ?thesis by (simp only: decoder_ok_def reads_int_pos simp_thms)
qed

text \<open>
  The documented behaviour of the encoder: \<open>E\<close> relates its state to the items written so far at each
  open level (the innermost first) and to the size of the buffer. A call that succeeds adds one
  item; it fails when the buffer is too small or for a level too many. What was written for one
  complete item is its encoding \<open>bytes\<close>, which is not empty, and it fits the buffer.
\<close>

definition adds :: "('e \<Rightarrow> position \<Rightarrow> nat \<Rightarrow> bool) \<Rightarrow> ('e \<Rightarrow> bool \<times> 'e) \<Rightarrow> cbor \<Rightarrow> bool" where
  "adds E put x \<longleftrightarrow> (\<forall>e f fs sz e'. E e (f # fs) sz \<and> put e = (True, e') \<longrightarrow> E e' ((f @ [x]) # fs) sz)"

definition encoder_lib_ok :: "'e zcbor_encoder \<Rightarrow> (cbor \<Rightarrow> u8 list) \<Rightarrow> ('e \<Rightarrow> position \<Rightarrow> nat \<Rightarrow> bool) \<Rightarrow> bool" where
  "encoder_lib_ok enc bytes E \<longleftrightarrow> (\<forall>n sz. E (ze_new enc n sz) [[]] sz)
     \<and> (\<forall>n e st sz e'. E e st sz \<and> ze_map_start enc n e = (True, e') \<longrightarrow> E e' ([] # st) sz)
     \<and> (\<forall>n e ps f fs sz e'. E e (flat ps # f # fs) sz \<and> ze_map_end enc n e = (True, e') \<longrightarrow> E e' ((f @ [C_map ps]) # fs) sz)
     \<and> (\<forall>bs. adds E (ze_tstr enc bs) (C_tstr bs)) \<and> (\<forall>u. adds E (ze_uint32 enc u) (C_int (uint u)))
     \<and> (\<forall>v. adds E (ze_int64 enc v) (C_int (sint v))) \<and> adds E (ze_nil enc) C_nil
     \<and> (\<forall>e x sz. E e [[x]] sz \<longrightarrow> ze_written enc e = bytes x \<and> bytes x \<noteq> [] \<and> length (bytes x) \<le> sz)"

text \<open>An encoder that records the items and, when one is complete, writes its \<open>bytes\<close>.\<close>

definition enc_put :: "cbor \<Rightarrow> position \<times> nat \<Rightarrow> bool \<times> position \<times> nat" where
  "enc_put x = (\<lambda>(st, sz). (st \<noteq> [[]], (case st of [] \<Rightarrow> [] | f # fs \<Rightarrow> (f @ [x]) # fs), sz))"

fun unflat :: "cbor list \<Rightarrow> (cbor \<times> cbor) list option" where
  "unflat [] = Some []"
| "unflat (k # v # xs) = map_option ((#) (k, v)) (unflat xs)"
| "unflat [x] = None"

lemma unflat_flat [simp]: "unflat (flat ps) = Some ps"
  by (induction ps rule: flat.induct) simp_all

definition enc_end :: "(cbor \<Rightarrow> u8 list) \<Rightarrow> position \<times> nat \<Rightarrow> bool \<times> position \<times> nat" where
  "enc_end bytes = (\<lambda>(st, sz). case st of
       g # f # fs \<Rightarrow> (case unflat g of
         Some ps \<Rightarrow> (bytes (C_map ps) \<noteq> [] \<and> length (bytes (C_map ps)) \<le> sz, (f @ [C_map ps]) # fs, sz)
       | None \<Rightarrow> (False, st, sz))
     | _ \<Rightarrow> (False, st, sz))"

definition zcbor_rec :: "(cbor \<Rightarrow> u8 list) \<Rightarrow> (position \<times> nat) zcbor_encoder" where
  "zcbor_rec bytes = \<lparr>ze_new = (\<lambda>n sz. ([[]], sz)),
     ze_written = (\<lambda>(st, sz). case st of [[x]] \<Rightarrow> bytes x | _ \<Rightarrow> []),
     ze_map_start = (\<lambda>n (st, sz). (True, [] # st, sz)), ze_map_end = (\<lambda>n. enc_end bytes),
     ze_tstr = (\<lambda>bs. enc_put (C_tstr bs)), ze_uint32 = (\<lambda>u. enc_put (C_int (uint u))),
     ze_int64 = (\<lambda>v. enc_put (C_int (sint v))), ze_nil = enc_put C_nil\<rparr>"

definition rec_rel :: "(cbor \<Rightarrow> u8 list) \<Rightarrow> position \<times> nat \<Rightarrow> position \<Rightarrow> nat \<Rightarrow> bool" where
  "rec_rel bytes e st sz \<longleftrightarrow> e = (st, sz) \<and> (\<forall>x. st = [[x]] \<longrightarrow> bytes x \<noteq> [] \<and> length (bytes x) \<le> sz)"

lemma encoder_lib_ok_rec: "encoder_lib_ok (zcbor_rec bytes) bytes (rec_rel bytes)"
proof -
  have "adds (rec_rel bytes) (enc_put x) x" for x
    by (auto simp: adds_def rec_rel_def enc_put_def)
  then show ?thesis
    by (auto simp: encoder_lib_ok_def zcbor_rec_def rec_rel_def enc_end_def split: list.splits prod.splits)
qed

lemma decoder_okD:
  assumes "decoder_ok zc n R"
  shows "end_ok zc R" and "nesting_ok zc n R" and "items_ok zc R"
    and "reads_int R 0 (2 ^ 32) (zd_uint32 zc)" and "reads_int R (- (2 ^ 31)) (2 ^ 31) (zd_int32 zc)"
    and "reads_int R (- (2 ^ 63)) (2 ^ 63) (zd_int64 zc)"
  using assms by (simp_all only: decoder_ok_def)

lemma end_step:
  assumes "decoder_ok zc n R" and "R z (f # fs)"
  shows "zcbor_list_or_map_end zc z = Some (f = [])"
  using decoder_okD(1) [OF assms(1), unfolded end_ok_def, rule_format, OF assms(2)]
  by (auto simp: zcbor_list_or_map_end_def split: if_splits)

lemma item_step:
  assumes "decoder_ok zc n R" and "R z ((x # f) # fs)"
  shows "\<exists>b. zd_payload zc z = Some b \<and> ZCBOR_MAJOR_TYPE b = major x"
    and "takes R True x f fs (zd_any_skip zc z)" and "takes R (x = C_nil) x f fs (zd_nil_expect zc z)"
    and "case zd_float zc z old_f of (ok, v, z') \<Rightarrow>
        takes R (\<exists>u. x = C_float u) x f fs (ok, z') \<and> (\<forall>u. x = C_float u \<longrightarrow> v = u)"
    and "case zd_bool zc z old_b of (ok, v, z') \<Rightarrow>
        takes R (\<exists>u. x = C_bool u) x f fs (ok, z') \<and> (\<forall>u. x = C_bool u \<longrightarrow> v = u)"
    and "case zd_tstr zc z old_s of (ok, s, z') \<Rightarrow>
        takes R (\<exists>bs. x = C_tstr bs) x f fs (ok, z') \<and> (\<forall>bs. x = C_tstr bs \<longrightarrow> zs_bytes s = bs)"
proof -
  note i = decoder_okD(3) [OF assms(1), unfolded items_ok_def, THEN spec, THEN spec, THEN spec, THEN spec, THEN mp, OF assms(2)]
  note i2 = i [THEN conjunct2, THEN conjunct2, THEN conjunct2]
  from i show "\<exists>b. zd_payload zc z = Some b \<and> ZCBOR_MAJOR_TYPE b = major x" by (rule conjunct1)
  from i show "takes R True x f fs (zd_any_skip zc z)" by blast
  from i show "takes R (x = C_nil) x f fs (zd_nil_expect zc z)" by blast
  from i2 [THEN conjunct1] show "case zd_float zc z old_f of (ok, v, z') \<Rightarrow>
      takes R (\<exists>u. x = C_float u) x f fs (ok, z') \<and> (\<forall>u. x = C_float u \<longrightarrow> v = u)" by (rule spec)
  from i2 [THEN conjunct2, THEN conjunct1] show "case zd_bool zc z old_b of (ok, v, z') \<Rightarrow>
      takes R (\<exists>u. x = C_bool u) x f fs (ok, z') \<and> (\<forall>u. x = C_bool u \<longrightarrow> v = u)" by (rule spec)
  from i2 [THEN conjunct2, THEN conjunct2] show "case zd_tstr zc z old_s of (ok, s, z') \<Rightarrow>
      takes R (\<exists>bs. x = C_tstr bs) x f fs (ok, z') \<and> (\<forall>bs. x = C_tstr bs \<longrightarrow> zs_bytes s = bs)" by (rule spec)
qed

lemma skip_step:
  assumes "decoder_ok zc n R" and "R z ((x # f) # fs)"
  obtains z' where "zd_any_skip zc z = (True, z')" and "R z' (f # fs)"
  using item_step(2) [OF assms] that by (auto simp: takes_def)

lemma tstr_step:
  assumes "decoder_ok zc n R" and "R z ((C_tstr bs # f) # fs)"
  obtains p z' where "zd_tstr zc z old = (True, \<lparr>zs_value = p, zs_bytes = bs\<rparr>, z')" and "R z' (f # fs)"
proof -
  obtain s z' where s: "zd_tstr zc z old = (True, s, z')" "R z' (f # fs)" "zs_bytes s = bs"
    using item_step(6) [OF assms, of old] by (auto simp: takes_def)
  have "s = \<lparr>zs_value = zs_value s, zs_bytes = bs\<rparr>" using s(3) by (cases s) simp
  with s that show ?thesis by metis
qed

lemma tstr_fail:
  assumes "decoder_ok zc n R" and "R z ((x # f) # fs)" and "\<And>bs. x \<noteq> C_tstr bs"
  obtains s z' where "zd_tstr zc z old = (False, s, z')" and "R z' ((x # f) # fs)"
  using item_step(6) [OF assms(1,2), of old] assms(3) that by (auto simp: takes_def)

lemma reads_int_step:
  assumes "reads_int R lo hi dec" and "R z ((x # f) # fs)"
  obtains (ok) i z' where "x = C_int i" "lo \<le> i" "i < hi" and "dec z old = (True, of_int i, z')" and "R z' (f # fs)"
  | (bad) v z' where "\<not> int_in lo hi x" and "dec z old = (False, v, z')" and "R z' ((x # f) # fs)"
proof -
  obtain b v z' where d: "dec z old = (b, v, z')" by (cases "dec z old") auto
  have t: "takes R (int_in lo hi x) x f fs (b, z')" "\<forall>i. b \<and> x = C_int i \<longrightarrow> v = of_int i"
    using assms(1) [unfolded reads_int_def, rule_format, OF assms(2), of old] by (simp_all add: d)
  show ?thesis
  proof (cases "int_in lo hi x")
    case True
    then obtain i where "x = C_int i" "lo \<le> i" "i < hi" by (auto simp: int_in_def split: cbor.splits)
    with t True d show ?thesis by (intro ok [of i z']) (simp_all add: takes_def)
  next
    case False
    with t d show ?thesis by (intro bad [of v z']) (simp_all add: takes_def)
  qed
qed

section \<open>Decoding a map\<close>

text \<open>
  What \<^verbatim>\<open>zcbor_map_decode()\<close> computes: the pairs are taken in order, the value of a pair whose key
  is in the table is handed to the first entry for it, other pairs are skipped, and the reading
  stops as soon as as many pairs were decoded as the table has entries.
\<close>

definition key_of :: "cbor \<Rightarrow> zcbor_map_key option" where
  "key_of x = (case x of C_tstr bs \<Rightarrow> Some (Key_tstr bs)
     | C_int i \<Rightarrow> if 0 \<le> i \<and> i < 2 ^ 32 then Some (Key_u32 (of_int i)) else None | _ \<Rightarrow> None)"

fun map_run ::
    "(zcbor_map_key \<times> (cbor \<Rightarrow> 'w \<Rightarrow> ret \<times> 'w)) list \<Rightarrow> nat \<Rightarrow> (cbor \<times> cbor) list \<Rightarrow> 'w \<Rightarrow>
      (errno + nat) \<times> 'w \<times> (cbor \<times> cbor) list" where
  "map_run tbl k [] w = (Inr k, w, [])"
| "map_run tbl k ((key, v) # ps) w =
     (if \<not> k < length tbl then (Inr k, w, (key, v) # ps)
      else case key_of key of
        None \<Rightarrow> (Inl EBADMSG, w, ps)
      | Some kk \<Rightarrow>
         (case map_of tbl kk of
            None \<Rightarrow> map_run tbl k ps w
          | Some d \<Rightarrow> (case d v w of (OK, w) \<Rightarrow> map_run tbl (k + 1) ps w | (Err e, w) \<Rightarrow> (Inl e, w, ps))))"

definition map_result :: "nat \<Rightarrow> (errno + nat) \<Rightarrow> ret" where
  "map_result n r = (case r of Inl e \<Rightarrow> Err e
     | Inr m \<Rightarrow> if m = 0 then Err ENOENT else if m < n then Err EBADMSG else OK)"

text \<open>
  A callback does what \<open>d\<close> says with the item it stands at, above the levels \<open>B\<close>, if it is one of
  those that \<open>P\<close> describes, and keeps the invariant \<open>I\<close> of the objects it writes. \<open>P\<close> is given for
  each key, and \<open>values_ok\<close> says that the map keeps to it.
\<close>

definition callback_ok ::
    "('z \<Rightarrow> position \<Rightarrow> bool) \<Rightarrow> position \<Rightarrow> ('w \<Rightarrow> bool) \<Rightarrow> (cbor \<Rightarrow> bool) \<Rightarrow> ('z \<Rightarrow> 'w \<Rightarrow> (ret \<times> 'z \<times> 'w) option) \<Rightarrow>
      (cbor \<Rightarrow> 'w \<Rightarrow> ret \<times> 'w) \<Rightarrow> bool"
where
  "callback_ok R B I P dec d \<longleftrightarrow> (\<forall>z x g w. P x \<and> I w \<and> R z ((x # g) # B) \<longrightarrow>
     (\<exists>z'. dec z w = Some (fst (d x w), z', snd (d x w)) \<and> I (snd (d x w)) \<and> (fst (d x w) = OK \<longrightarrow> R z' (g # B))))"

definition table_ok ::
    "('z \<Rightarrow> position \<Rightarrow> bool) \<Rightarrow> position \<Rightarrow> ('w \<Rightarrow> bool) \<Rightarrow> (zcbor_map_key \<Rightarrow> cbor \<Rightarrow> bool) \<Rightarrow> ('z, 'w) zcbor_map_entry list \<Rightarrow>
      (zcbor_map_key \<times> (cbor \<Rightarrow> 'w \<Rightarrow> ret \<times> 'w)) list \<Rightarrow> bool"
where
  "table_ok R B I P entries tbl \<longleftrightarrow>
     list_all2 (\<lambda>e (k, d). me_key e = k \<and> callback_ok R B I (P k) (me_decode e) d) entries tbl"

definition values_ok :: "(zcbor_map_key \<Rightarrow> cbor \<Rightarrow> bool) \<Rightarrow> (cbor \<times> cbor) list \<Rightarrow> bool" where
  "values_ok P ps \<longleftrightarrow> (\<forall>(x, v)\<in>set ps. \<forall>k. key_of x = Some k \<longrightarrow> P k v)"

fun is_u32 :: "zcbor_map_key \<Rightarrow> bool" where
  "is_u32 (Key_u32 u) = True"
| "is_u32 (Key_tstr s) = False"

text \<open>The table and the keys of the map are of the same kind.\<close>

definition same_kind :: "(zcbor_map_key \<times> 'd) list \<Rightarrow> (cbor \<times> cbor) list \<Rightarrow> bool" where
  "same_kind tbl ps \<longleftrightarrow> (\<exists>u. (\<forall>k\<in>fst ` set tbl. is_u32 k = u) \<and> (\<forall>x\<in>fst ` set ps. \<forall>k. key_of x = Some k \<longrightarrow> is_u32 k = u))"

definition object_of :: "zcbor_key_object \<Rightarrow> zcbor_map_key \<Rightarrow> bool" where
  "object_of key k = (case k of Key_u32 u \<Rightarrow> mk_word key = u
     | Key_tstr s \<Rightarrow> mk_len key = length s \<and> mk_mem key = Some s)"

lemma map_entry_get_map_of:
  assumes "table_ok R B I P entries tbl" and "object_of key k" and "\<forall>k'\<in>fst ` set tbl. is_u32 k' = is_u32 k"
  shows "case map_of tbl k of
      None \<Rightarrow> map_entry_get entries key = Some None
    | Some d \<Rightarrow> \<exists>e. map_entry_get entries key = Some (Some e) \<and> callback_ok R B I (P k) (me_decode e) d"
  using assms(1,3) unfolding table_ok_def
proof (induction entries tbl rule: list_all2_induct)
  case (Cons e entries p tbl)
  obtain k' d where p: "p = (k', d)" by (cases p)
  from Cons(1) have e: "me_key e = k'" "callback_ok R B I (P k') (me_decode e) d" by (simp_all add: p)
  have kind: "is_u32 k' = is_u32 k" using Cons.prems by (simp add: p)
  have "map_entry_get (e # entries) key = (if k' = k then Some (Some e) else map_entry_get entries key)"
    using kind assms(2) e(1) by (cases k; cases k') (auto simp: object_of_def mem_read_def)
  moreover have "\<forall>k'\<in>fst ` set tbl. is_u32 k' = is_u32 k" using Cons.prems by simp
  ultimately show ?case using Cons.IH e(2) by (cases "k' = k") (simp_all add: p del: map_entry_get.simps split: option.splits)
qed simp

lemma key_decode_step:
  assumes "decoder_ok zc n R" and "R z ((x # f) # fs)"
  shows "case key_of x of
      None \<Rightarrow> \<exists>z' key'. zcbor_map_key_decode zc z key = Some (Err EBADMSG, z', key')
    | Some k \<Rightarrow> \<exists>z' key'. zcbor_map_key_decode zc z key = Some (OK, z', key') \<and> object_of key' k \<and> R z' (f # fs)"
proof -
  obtain b where b: "zd_payload zc z = Some b" "ZCBOR_MAJOR_TYPE b = major x" using item_step(1) [OF assms] by blast
  show ?thesis
  proof (cases x)
    case (C_tstr bs)
    obtain p z' where "zd_tstr zc z (key_string key) = (True, \<lparr>zs_value = p, zs_bytes = bs\<rparr>, z')" "R z' (f # fs)"
      by (rule tstr_step [OF assms(1)]) (use assms(2) C_tstr in auto)
    then show ?thesis using b
      by (simp add: C_tstr key_of_def zcbor_map_key_decode_def major_types object_of_def Let_def)
  next
    case (C_int i)
    show ?thesis
    proof (cases "0 \<le> i")
      case True
      show ?thesis
      proof (cases rule: reads_int_step [OF decoder_okD(4) [OF assms(1)] assms(2), of "mk_word key"])
        case (1 j z')
        then show ?thesis using b True
          by (simp add: C_int key_of_def zcbor_map_key_decode_def major_types object_of_def Let_def)
      next
        case (2 v z')
        then show ?thesis using b True
          by (simp add: C_int key_of_def zcbor_map_key_decode_def major_types int_in_def Let_def)
      qed
    next
      case False
      then show ?thesis using b by (simp add: C_int key_of_def zcbor_map_key_decode_def major_types Let_def)
    qed
  qed (use b in \<open>simp_all add: key_of_def zcbor_map_key_decode_def major_types Let_def\<close>)
qed

lemma map_decode_loop_step:
  assumes "decoder_ok zc n R" and "table_ok R B I P entries tbl" and "same_kind tbl ps" and "R z (flat ps # B)" and "values_ok P ps" and "I w"
  shows "case map_run tbl k ps w of (r, w', ps') \<Rightarrow>
    \<exists>z'. map_decode_loop zc entries k key z w = Some (r, z', w') \<and> (\<forall>m. r = Inr m \<longrightarrow> R z' (flat ps' # B))"
  using assms(3-6)
proof (induction ps arbitrary: k key z w)
  case Nil
  then show ?case using end_step [OF assms(1), of z "[]" B]
    by (subst map_decode_loop.simps) simp
next
  case (Cons p ps)
  obtain x v where p: "p = (x, v)" by (cases p)
  have len: "length entries = length tbl" using assms(2) by (auto simp: table_ok_def dest: list_all2_lengthD)
  have kind: "same_kind tbl ps" using Cons.prems(1) by (auto simp: same_kind_def)
  have vals: "values_ok P ps" using Cons.prems(3) by (simp add: values_ok_def)
  have R: "R z ((x # v # flat ps) # B)" using Cons.prems(2) by (simp add: p)
  have e: "zcbor_list_or_map_end zc z = Some False" using end_step [OF assms(1) R] by simp
  note unf = map_decode_loop.simps [of zc entries k key z w]
  show ?case
  proof (cases "k < length tbl")
    case False
    then show ?thesis using Cons.prems(2) unf by (simp add: p len)
  next
    case True
    note kd = key_decode_step [OF assms(1) R, of key]
    show ?thesis
    proof (cases "key_of x")
      case None
      then show ?thesis using kd unf True e by (auto simp: p len)
    next
      case (Some kk)
      then obtain z1 key' where k1: "zcbor_map_key_decode zc z key = Some (OK, z1, key')" "object_of key' kk"
          "R z1 ((v # flat ps) # B)" using kd by auto
      have "\<forall>k'\<in>fst ` set tbl. is_u32 k' = is_u32 kk"
        using Cons.prems(1) Some by (auto simp: same_kind_def p)
      note look = map_entry_get_map_of [OF assms(2) k1(2) this]
      show ?thesis
      proof (cases "map_of tbl kk")
        case None
        obtain z2 where "zd_any_skip zc z1 = (True, z2)" "R z2 (flat ps # B)"
          by (rule skip_step [OF assms(1) k1(3)])
        with Cons.IH [OF kind _ vals Cons.prems(4), where z = z2 and k = k and key = key'] None look Some k1 True e unf show ?thesis
          by (simp add: p len)
      next
        case (Some d)
        then obtain entry where en: "map_entry_get entries key' = Some (Some entry)" "callback_ok R B I (P kk) (me_decode entry) d"
          using look by auto
        have Pv: "P kk v" using Cons.prems(3) \<open>key_of x = Some kk\<close> by (auto simp: values_ok_def p)
        obtain r w1 where d: "d v w = (r, w1)" by (cases "d v w")
        obtain z2 where z2: "me_decode entry z1 w = Some (r, z2, w1)" "I w1" "r = OK \<longrightarrow> R z2 (flat ps # B)"
          using en(2) [unfolded callback_ok_def, rule_format, OF conjI [OF Pv conjI [OF Cons.prems(4) k1(3)]]] by (auto simp: d)
        show ?thesis
        proof (cases r)
          case OK
          with Cons.IH [OF kind _ vals, where z = z2 and k = "Suc k" and w = w1 and key = key'] z2 en d k1 \<open>key_of x = Some kk\<close> Some True e unf show ?thesis
            by (simp add: p len)
        next
          case (Err er)
          with z2 en d k1 \<open>key_of x = Some kk\<close> Some True e unf show ?thesis by (simp add: p len)
        qed
      qed
    qed
  qed
qed

lemma map_start_step:
  assumes "decoder_ok zc n R" and "R z ((x # f) # fs)" and "length fs < n"
  obtains (ok) ps z' where "x = C_map ps" and "zd_map_start zc z = (True, z')" and "R z' (flat ps # f # fs)"
  | (bad) z' where "\<And>ps. x \<noteq> C_map ps" and "zd_map_start zc z = (False, z')" and "R z' ((x # f) # fs)"
proof -
  have "case zd_map_start zc z of (ok, z') \<Rightarrow>
      (case x of C_map ps \<Rightarrow> ok \<and> R z' (flat ps # f # fs) | _ \<Rightarrow> \<not> ok \<and> R z' ((x # f) # fs))"
    using decoder_okD(2) [OF assms(1), unfolded nesting_ok_def, THEN conjunct1, THEN spec, THEN spec,
        THEN spec, THEN spec, THEN mp, OF conjI [OF assms(2,3)]] by (rule conjunct1)
  then show ?thesis using that by (cases "zd_map_start zc z") (auto split: cbor.splits)
qed

lemma list_start_step:
  assumes "decoder_ok zc n R" and "R z ((x # f) # fs)" and "length fs < n"
  obtains (ok) xs z' where "x = C_list xs" and "zd_list_start zc z = (True, z')" and "R z' (xs # f # fs)"
  | (bad) z' where "\<And>xs. x \<noteq> C_list xs" and "zd_list_start zc z = (False, z')" and "R z' ((x # f) # fs)"
proof -
  have "case zd_list_start zc z of (ok, z') \<Rightarrow>
      (case x of C_list xs \<Rightarrow> ok \<and> R z' (xs # f # fs) | _ \<Rightarrow> \<not> ok \<and> R z' ((x # f) # fs))"
    using decoder_okD(2) [OF assms(1), unfolded nesting_ok_def, THEN conjunct1, THEN spec, THEN spec,
        THEN spec, THEN spec, THEN mp, OF conjI [OF assms(2,3)]] by (rule conjunct2)
  then show ?thesis using that by (cases "zd_list_start zc z") (auto split: cbor.splits)
qed

lemma map_end_step:
  assumes "decoder_ok zc n R" and "R z ([] # f # fs)"
  obtains z' where "zd_map_end zc z = (True, z')" and "R z' (f # fs)"
proof -
  have "case zd_map_end zc z of (ok, z') \<Rightarrow> ok \<and> R z' (f # fs)"
    using decoder_okD(2) [OF assms(1), unfolded nesting_ok_def, THEN conjunct2, THEN conjunct1, THEN spec, THEN spec,
        THEN spec, THEN mp, OF assms(2)] .
  then show ?thesis using that by auto
qed

text \<open>Messages without items of indefinite length, which the library marks in its state.\<close>

definition definite :: "'z zcbor \<Rightarrow> ('z \<Rightarrow> position \<Rightarrow> bool) \<Rightarrow> bool" where
  "definite zc R \<longleftrightarrow> (\<forall>z st. R z st \<longrightarrow> \<not> zd_indefinite zc z)"

lemma definite_pos: "definite (zcbor_pos parse) (=)"
  by (simp add: definite_def zcbor_pos_def)

lemma force_end_step:
  assumes "decoder_ok zc n R" and "R z (g # f # fs)"
  obtains z' where "zd_force_end zc z = (True, z')" and "g = [] \<and> definite zc R \<longrightarrow> R z' (f # fs)"
proof -
  have "case zd_force_end zc z of (ok, z') \<Rightarrow> ok \<and> (g = [] \<and> \<not> zd_indefinite zc z \<longrightarrow> R z' (f # fs))"
    using decoder_okD(2) [OF assms(1), unfolded nesting_ok_def, THEN conjunct2, THEN conjunct2, THEN spec, THEN spec,
        THEN spec, THEN spec, THEN mp, OF assms(2)] .
  moreover have "definite zc R \<longrightarrow> \<not> zd_indefinite zc z" using assms(2) by (auto simp: definite_def)
  ultimately show ?thesis using that by (cases "zd_force_end zc z") simp
qed

lemma map_decode_step:
  assumes "decoder_ok zc n R" and "R z ((C_map ps # f) # fs)" and "length fs < n"
    and "table_ok R (f # fs) I P entries tbl" and "same_kind tbl ps" and "values_ok P ps" and "I w"
  shows "case map_run tbl 0 ps w of (r, w', ps') \<Rightarrow>
    \<exists>z'. zcbor_map_decode zc entries key z w = Some (map_result (length tbl) r, z', w')
      \<and> (map_result (length tbl) r = OK \<and> ps' = [] \<and> definite zc R \<longrightarrow> R z' (f # fs))"
proof -
  have len: "length entries = length tbl" using assms(4) by (auto simp: table_ok_def dest: list_all2_lengthD)
  obtain z1 where z1: "zd_map_start zc z = (True, z1)" "R z1 (flat ps # f # fs)"
    by (rule map_start_step [OF assms(1-3)]) auto
  obtain r w' ps' where run: "map_run tbl 0 ps w = (r, w', ps')" by (cases "map_run tbl 0 ps w")
  from map_decode_loop_step [OF assms(1,4,5) z1(2) assms(6,7), where k = 0 and key = key] obtain z2 where
    z2: "map_decode_loop zc entries 0 key z1 w = Some (r, z2, w')" "\<And>m. r = Inr m \<Longrightarrow> R z2 (flat ps' # f # fs)"
    by (auto simp: run)
  show ?thesis
  proof (cases r)
    case (Inl e)
    then show ?thesis using z1 z2 by (simp add: run zcbor_map_decode_def map_result_def)
  next
    case (Inr m)
    obtain z3 where "zd_force_end zc z2 = (True, z3)" "flat ps' = [] \<and> definite zc R \<longrightarrow> R z3 (f # fs)"
      by (rule force_end_step [OF assms(1) z2(2) [OF Inr]])
    then show ?thesis using z1 z2(1) Inr
      by (auto simp: run zcbor_map_decode_def map_result_def len Let_def)
  qed
qed

section \<open>Properties\<close>

text \<open>
  Property C18. Decoding a map. On a decoder that behaves as documented, and for a map whose keys
  are of the kind of the table and whose values the callbacks are described for, \<^verbatim>\<open>zcbor_map_decode()\<close> returns, never reads behind the message and
  hands the values to the entries as \<open>map_run\<close> describes: first entry with the key, in the order
  of the map, unknown keys skipped, the rest ignored once as many pairs as entries were decoded. The
  result is 0 when that many were decoded, -ENOENT when none was, -EBADMSG when some are missing or
  a key is neither a string nor a 32-bit number, and otherwise the error of the callback. After a
  map that was read to its end the decoder stands behind it.
\<close>

theorem zcbor_map_decode_run:
  assumes "decoder_ok zc n R" and "R z ((C_map ps # f) # fs)" and "length fs < n"
    and "table_ok R (f # fs) I P entries tbl" and "same_kind tbl ps" and "values_ok P ps" and "I w"
    and "map_run tbl 0 ps w = (r, w', ps')"
  shows "\<exists>z'. zcbor_map_decode zc entries key z w = Some (map_result (length tbl) r, z', w')
      \<and> (map_result (length tbl) r = OK \<and> ps' = [] \<and> definite zc R \<longrightarrow> R z' (f # fs))"
  using map_decode_step [OF assms(1-7), where key = key] assms(8) by simp

text \<open>A table of two numbers, decoded into a list.\<close>

definition demo_entry :: "'z zcbor \<Rightarrow> zcbor_map_key \<Rightarrow> ('z, u32 list) zcbor_map_entry" where
  "demo_entry zc k = \<lparr>me_key = k, me_decode = (\<lambda>z w. let (r, z, v) = zcbor_map_int32_decode zc z 0 in
     Some (r, z, if r = OK then w @ [v] else w))\<rparr>"

definition demo_sem :: "cbor \<Rightarrow> u32 list \<Rightarrow> ret \<times> u32 list" where
  "demo_sem x w = (case x of C_int i \<Rightarrow> if - (2 ^ 31) \<le> i \<and> i < 2 ^ 31 then (OK, w @ [of_int i]) else (Err EBADMSG, w)
     | _ \<Rightarrow> (Err EBADMSG, w))"

lemma demo_entry_ok:
  assumes "decoder_ok zc n R"
  shows "callback_ok R B (\<lambda>_. True) P (me_decode (demo_entry zc k)) demo_sem"
  unfolding callback_ok_def
proof (intro allI impI)
  fix z x g w
  assume "P x \<and> True \<and> R z ((x # g) # B)"
  then have R: "R z ((x # g) # B)" by simp
  show "\<exists>z'. me_decode (demo_entry zc k) z w = Some (fst (demo_sem x w), z', snd (demo_sem x w)) \<and> True
      \<and> (fst (demo_sem x w) = OK \<longrightarrow> R z' (g # B))"
    by (cases rule: reads_int_step [OF decoder_okD(5) [OF assms] R, of 0])
       (auto simp: demo_entry_def demo_sem_def zcbor_map_int32_decode_def int_in_def Let_def split: cbor.splits)
qed

lemma demo_table_ok:
  "table_ok (=) B (\<lambda>_. True) (\<lambda>_ _. True) [demo_entry (zcbor_pos parse) k1, demo_entry (zcbor_pos parse) k2] [(k1, demo_sem), (k2, demo_sem)]"
  using demo_entry_ok [OF decoder_ok_pos, of B] by (simp add: table_ok_def) (simp add: demo_entry_def)

definition demo_key :: zcbor_key_object where
  "demo_key = \<lparr>mk_word = 0, mk_len = 0, mk_mem = None\<rparr>"

lemma zcbor_map_decode_run_witness:
  "\<exists>z'. zcbor_map_decode (zcbor_pos (\<lambda>_. C_nil)) [demo_entry (zcbor_pos (\<lambda>_. C_nil)) (Key_u32 1), demo_entry (zcbor_pos (\<lambda>_. C_nil)) (Key_u32 2)] demo_key
      [[C_map [(C_int 2, C_int 20), (C_int 9, C_nil), (C_int 1, C_int 10)]]] [] = Some (OK, z', [20, 10]) \<and> z' = [[]]"
  using zcbor_map_decode_run [OF decoder_ok_pos [where n = 1] _ _ demo_table_ok [of "[[]]" _ "Key_u32 1" "Key_u32 2"],
      where z = "[[C_map [(C_int 2, C_int 20), (C_int 9, C_nil), (C_int 1, C_int 10)]]]"
        and ps = "[(C_int 2, C_int 20), (C_int 9, C_nil), (C_int 1, C_int 10)]" and w = "[]"
        and r = "Inr 2" and w' = "[20, 10]" and ps' = "[]" and key = demo_key]
  by (auto simp: same_kind_def values_ok_def key_of_def demo_sem_def map_result_def definite_pos)

text \<open>
  A repeated key counts as often as it occurs: a map with the first key of a table of
  two twice is accepted with result 0, although the second entry was never decoded, so "all
  specified entries need to exist in the processed map", as the header of the function says, is
  not ensured.
\<close>

theorem zcbor_map_decode_repeated:
  assumes "decoder_ok zc n R" and "R z ((C_map [(x, v), (x, v')] # f) # fs)" and "length fs < n"
    and "table_ok R (f # fs) I P entries [(k1, d1), (k2, d2)]" and "is_u32 k1 = is_u32 k2"
    and "key_of x = Some k1" and "d1 v w = (OK, w1)" and "d1 v' w1 = (OK, w2)" and "P k1 v" and "P k1 v'" and "I w"
  shows "\<exists>z'. zcbor_map_decode zc entries key z w = Some (OK, z', w2)"
proof -
  have "same_kind [(k1, d1), (k2, d2)] [(x, v), (x, v')]"
    using assms(5,6) by (auto simp: same_kind_def)
  moreover have "values_ok P [(x, v), (x, v')]" using assms(6,9,10) by (simp add: values_ok_def)
  ultimately show ?thesis
    using map_decode_step [OF assms(1-4) _ _ assms(11), where key = key] assms(6-8)
    by (auto simp: map_result_def)
qed

lemma zcbor_map_decode_repeated_witness:
  "\<exists>z'. zcbor_map_decode (zcbor_pos (\<lambda>_. C_nil)) [demo_entry (zcbor_pos (\<lambda>_. C_nil)) (Key_u32 1), demo_entry (zcbor_pos (\<lambda>_. C_nil)) (Key_u32 2)] demo_key
      [[C_map [(C_int 1, C_int 10), (C_int 1, C_int 11)]]] [] = Some (OK, z', [10, 11])"
  by (rule zcbor_map_decode_repeated [OF decoder_ok_pos [where n = 1] refl _ demo_table_ok])
     (auto simp: key_of_def demo_sem_def)

text \<open>
  A number as a key of a map that should have strings is compared as a string. When
  a string key of the length of the table's key was decoded before (or the uninitialised object
  happens to have that length), the integer is followed as a pointer: undefined behaviour that the
  sender of a message controls.
\<close>

theorem zcbor_map_key_confusion:
  assumes "decoder_ok zc n R" and "R z ((C_int i # f) # fs)" and "0 \<le> i" and "i < 2 ^ 32"
    and "me_key entry = Key_tstr s" and "mk_len key = length s"
  shows "\<exists>z' key'. zcbor_map_key_decode zc z key = Some (OK, z', key') \<and> map_entry_get (entry # entries) key' = None"
proof (cases rule: reads_int_step [OF decoder_okD(4) [OF assms(1)] assms(2), of "mk_word key"])
  case (1 j z')
  obtain b where "zd_payload zc z = Some b" "ZCBOR_MAJOR_TYPE b = major (C_int i)"
    using item_step(1) [OF assms(1,2)] by blast
  with 1 assms show ?thesis by (simp add: zcbor_map_key_decode_def major_types Let_def)
qed (use assms in \<open>simp add: int_in_def\<close>)

lemma zcbor_map_key_confusion_witness:
  "\<exists>z' key'. zcbor_map_key_decode (zcbor_pos (\<lambda>_. C_nil)) [[C_int 7]] \<lparr>mk_word = 0, mk_len = 1, mk_mem = None\<rparr> = Some (OK, z', key')
     \<and> map_entry_get [demo_entry (zcbor_pos (\<lambda>_. C_nil)) (Key_tstr [0x61])] key' = None"
  by (rule zcbor_map_key_confusion [OF decoder_ok_pos [where n = 1], where i = 7 and f = "[]" and fs = "[]" and s = "[0x61]"])
     (simp_all add: demo_entry_def)

end
