(* ===== verification/Settings.thy ===== *)
theory Settings
  imports Dispatch Zcbor_utils
begin

text \<open>
  The settings service of the Golioth SDK, \<^verbatim>\<open>golioth_sdk/settings.c\<close> with the callback frontend
  \<^verbatim>\<open>golioth_sdk/settings_callbacks.c\<close>: a received CBOR map of settings is handed, setting by setting,
  to the handlers the application registered, the version of the settings is kept, and reported
  to the cloud.

  The static variables of the SDK are gathered in the record \<open>'a golioth\<close> (those of the OTA service
  are used in their own theory); \<open>g_app\<close> is the state of the application, on which its callbacks act.
\<close>

section \<open>The static variables of the SDK\<close>

definition lit :: "string \<Rightarrow> u8 list" where
  "lit s = map of_char s"

datatype golioth_ota_state =
    GOLIOTH_OTA_STATE_IDLE | GOLIOTH_OTA_STATE_DOWNLOADING | GOLIOTH_OTA_STATE_DOWNLOADED
  | GOLIOTH_OTA_STATE_UPDATING

record ota_component_data =
  od_target :: "u8 list"
  od_target_hash :: "u8 list"
  od_size :: u32
  od_state :: golioth_ota_state

record ota_download =
  cd_downlink_id :: u32
  cd_offset :: nat
  cd_name :: "u8 list"
  cd_version :: "u8 list"

record 'a golioth =
  settings_version :: u64
  component_download :: ota_download
  ota_data :: "ota_component_data list"
  g_app :: 'a

section \<open>Handlers\<close>

text \<open>
  A handler's callback fixes its type, as the \<^verbatim>\<open>_Generic\<close> of the registering macro does. A \<open>double\<close>
  is its 64 bits.
\<close>

datatype 'a setting_cb =
    Int_cb "u32 \<Rightarrow> 'a \<Rightarrow> ret \<times> 'a" | Bool_cb "bool \<Rightarrow> 'a \<Rightarrow> ret \<times> 'a"
  | Float_cb "u64 \<Rightarrow> 'a \<Rightarrow> ret \<times> 'a" | String_cb "u8 list \<Rightarrow> 'a \<Rightarrow> ret \<times> 'a"

record 'a golioth_settings_handler =
  sh_key :: "u8 list"
  sh_cb :: "'a setting_cb"

datatype golioth_setting_value_type =
    GOLIOTH_SETTING_VALUE_TYPE_UNKNOWN
  | GOLIOTH_SETTING_VALUE_TYPE_INT | GOLIOTH_SETTING_VALUE_TYPE_BOOL
  | GOLIOTH_SETTING_VALUE_TYPE_FLOAT | GOLIOTH_SETTING_VALUE_TYPE_STRING

datatype setting_union = Int_val u32 | Bool_val bool | Float_val u64 | Str_val "u8 list"

record setting_value =
  sv_key :: "u8 list"
  sv_val :: setting_union

fun cb_type :: "'a setting_cb \<Rightarrow> golioth_setting_value_type" where
  "cb_type (Int_cb f) = GOLIOTH_SETTING_VALUE_TYPE_INT"
| "cb_type (Bool_cb f) = GOLIOTH_SETTING_VALUE_TYPE_BOOL"
| "cb_type (Float_cb f) = GOLIOTH_SETTING_VALUE_TYPE_FLOAT"
| "cb_type (String_cb f) = GOLIOTH_SETTING_VALUE_TYPE_STRING"

fun val_type :: "setting_union \<Rightarrow> golioth_setting_value_type" where
  "val_type (Int_val v) = GOLIOTH_SETTING_VALUE_TYPE_INT"
| "val_type (Bool_val v) = GOLIOTH_SETTING_VALUE_TYPE_BOOL"
| "val_type (Float_val v) = GOLIOTH_SETTING_VALUE_TYPE_FLOAT"
| "val_type (Str_val v) = GOLIOTH_SETTING_VALUE_TYPE_STRING"

fun golioth_settings_receive_one ::
    "'a golioth_settings_handler list \<Rightarrow> setting_value \<Rightarrow> 'a \<Rightarrow> ret \<times> 'a" where
  "golioth_settings_receive_one [] value a = (Err ENOENT, a)"
| "golioth_settings_receive_one (setting # settings) value a =
     (if sh_key setting = sv_key value then
        (if cb_type (sh_cb setting) \<noteq> val_type (sv_val value) then (Err EINVAL, a)
         else case (sh_cb setting, sv_val value) of
             (Int_cb cb, Int_val v) \<Rightarrow> cb v a
           | (Bool_cb cb, Bool_val v) \<Rightarrow> cb v a
           | (Float_cb cb, Float_val v) \<Rightarrow> cb v a
           | (String_cb cb, Str_val v) \<Rightarrow> cb v a
           | _ \<Rightarrow> golioth_settings_receive_one settings value a)
      else golioth_settings_receive_one settings value a)"

section \<open>Receiving settings\<close>

definition SETTINGS_DOWNLINK_PATH :: "u8 list" where "SETTINGS_DOWNLINK_PATH = lit ''/.c''"
definition SETTINGS_UPLINK_PATH :: "u8 list" where "SETTINGS_UPLINK_PATH = lit ''.c/status''"
definition GOLIOTH_SETTINGS_MAX_NAME_LEN :: nat where "GOLIOTH_SETTINGS_MAX_NAME_LEN = 31"

definition empty_string :: zcbor_string where
  "empty_string = \<lparr>zs_value = 0, zs_bytes = []\<rparr>"

text \<open>
  One value of the map, by its major type; \<open>None\<close> for a value that is not valid. What a variable
  holds before a decoder is called on it does not matter: it is only used when the decoder
  succeeds.
\<close>

definition decode_setting :: "'z zcbor \<Rightarrow> 'z \<Rightarrow> (setting_union option \<times> 'z) option" where
  "decode_setting zc z =
     do { b \<leftarrow> zd_payload zc z;
          let major_type = ZCBOR_MAJOR_TYPE b;
          if major_type = ZCBOR_MAJOR_TYPE_TSTR then
            (let (ok, str, z) = zd_tstr zc z empty_string in
             Some (if ok then Some (Str_val (zs_bytes str)) else None, z))
          else if major_type = ZCBOR_MAJOR_TYPE_PINT \<or> major_type = ZCBOR_MAJOR_TYPE_NINT then
            (let (ok, v, z) = zd_int32 zc z 0 in Some (if ok then Some (Int_val v) else None, z))
          else if major_type = ZCBOR_MAJOR_TYPE_SIMPLE then
            (let (ok, v, z) = zd_float zc z 0 in
             if ok then Some (Some (Float_val v), z)
             else (let (ok, v, z) = zd_bool zc z False in
                   Some (if ok then Some (Bool_val v) else None, z)))
          else Some (None, z) }"

text \<open>The label, cut to 31 bytes and terminated by a NUL.\<close>

definition setting_key :: "u8 list \<Rightarrow> u8 list" where
  "setting_key label = c_str (take (min GOLIOTH_SETTINGS_MAX_NAME_LEN (length label)) label)"

partial_function (option) settings_loop ::
    "'z zcbor \<Rightarrow> 'a golioth_settings_handler list \<Rightarrow> 'z \<Rightarrow> 'a \<Rightarrow> (ret \<times> 'z \<times> 'a) option" where
  "settings_loop zc hs z a =
     do { e \<leftarrow> zcbor_list_or_map_end zc z;
          if e then Some (OK, z, a)
          else
            (let (ok, label, z) = zd_tstr zc z empty_string in
             if \<not> ok then Some (Err EBADMSG, z, a)
             else do {
               (value, z) \<leftarrow> decode_setting zc z;
               case value of
                 Some v \<Rightarrow> settings_loop zc hs z
                   (snd (golioth_settings_receive_one hs \<lparr>sv_key = setting_key (zs_bytes label), sv_val = v\<rparr> a))
               | None \<Rightarrow>
                   (let (ok, z) = zd_any_skip zc z in
                    if \<not> ok then Some (Err EBADMSG, z, a) else settings_loop zc hs z a) }) }"

definition settings_decode ::
    "'z zcbor \<Rightarrow> 'a golioth_settings_handler list \<Rightarrow> 'z \<Rightarrow> 'a golioth \<Rightarrow> (ret \<times> 'z \<times> 'a golioth) option" where
  "settings_decode zc hs z g =
     (let (is_nil, z) = zd_nil_expect zc z in
      if is_nil then Some (Err ENOENT, z, g)
      else
        let (ok, z) = zd_map_start zc z in
        if \<not> ok then Some (Err EBADMSG, z, g)
        else do {
          (err, z, a) \<leftarrow> settings_loop zc hs z (g_app g);
          let g = g\<lparr>g_app := a\<rparr>;
          if is_err err then Some (err, z, g)
          else let (ok, z) = zd_map_end zc z in
            Some (if ok then OK else Err EBADMSG, z, g) })"

definition settings_entries ::
    "'z zcbor \<Rightarrow> 'a golioth_settings_handler list \<Rightarrow> ('z, 'a golioth) zcbor_map_entry list" where
  "settings_entries zc hs =
     [\<lparr>me_key = Key_tstr (lit ''settings''), me_decode = settings_decode zc hs\<rparr>,
      \<lparr>me_key = Key_tstr (lit ''version''), me_decode = (\<lambda>z g.
         let (r, z, v) = zcbor_map_int64_decode zc z (settings_version g) in
         Some (r, z, g\<lparr>settings_version := v\<rparr>))\<rparr>]"

text \<open>The result of \<^verbatim>\<open>zcbor_map_decode()\<close> is not used. \<open>key\<close> is the uninitialised key object.\<close>

definition settings_downlink ::
    "'z zcbor \<Rightarrow> 'a golioth_settings_handler list \<Rightarrow> zcbor_key_object \<Rightarrow>
      u32 \<Rightarrow> u8 list option \<Rightarrow> nat \<Rightarrow> bool \<Rightarrow> 'a golioth \<Rightarrow> 'a golioth option" where
  "settings_downlink zc hs key sid data len is_last g =
     do { bs \<leftarrow> data;
          bs \<leftarrow> mem_read bs 0 len;
          (_, _, g) \<leftarrow> zcbor_map_decode zc (settings_entries zc hs) key (zd_new zc 2 bs) g;
          Some g }"

section \<open>Reporting the version\<close>

definition POUCH_CONTENT_TYPE_CBOR :: u16 where "POUCH_CONTENT_TYPE_CBOR = 60"

text \<open>Calling the encoder one step after the other, until one fails.\<close>

fun encode_steps :: "('e \<Rightarrow> bool \<times> 'e) list \<Rightarrow> 'e \<Rightarrow> 'e option" where
  "encode_steps [] e = Some e"
| "encode_steps (put # puts) e = (let (ok, e) = put e in if ok then encode_steps puts e else None)"

definition settings_uplink :: "'e zcbor_encoder \<Rightarrow> ret \<Rightarrow> 'a golioth \<Rightarrow> 'c pouch \<Rightarrow> ('a golioth \<times> 'c pouch) option" where
  "settings_uplink enc lock g s =
     (case encode_steps
         [ze_map_start enc 2, ze_tstr enc (lit ''version''),
          if 0 \<le> sint (settings_version g) then ze_int64 enc (settings_version g) else ze_nil enc,
          ze_map_end enc 2] (ze_new enc 3 64) of
        None \<Rightarrow> Some (g, s)
      | Some zse \<Rightarrow> do {
          (_, s) \<leftarrow> pouch_uplink_entry_write lock (Some SETTINGS_UPLINK_PATH) POUCH_CONTENT_TYPE_CBOR
                     (Some (ze_written enc zse)) (length (ze_written enc zse)) s;
          Some (g, s) })"

section \<open>What receiving settings does\<close>

definition setting_of :: "cbor \<Rightarrow> setting_union option" where
  "setting_of x = (case x of
       C_tstr bs \<Rightarrow> Some (Str_val bs)
     | C_int i \<Rightarrow> if - (2 ^ 31) \<le> i \<and> i < 2 ^ 31 then Some (Int_val (of_int i)) else None
     | C_float v \<Rightarrow> Some (Float_val v)
     | C_bool b \<Rightarrow> Some (Bool_val b)
     | _ \<Rightarrow> None)"

fun settings_run :: "'a golioth_settings_handler list \<Rightarrow> (cbor \<times> cbor) list \<Rightarrow> 'a \<Rightarrow> ret \<times> 'a" where
  "settings_run hs [] a = (OK, a)"
| "settings_run hs ((k, x) # ps) a =
     (case k of
        C_tstr label \<Rightarrow> settings_run hs ps (case setting_of x of
            None \<Rightarrow> a
          | Some v \<Rightarrow> snd (golioth_settings_receive_one hs \<lparr>sv_key = setting_key label, sv_val = v\<rparr> a))
      | _ \<Rightarrow> (Err EBADMSG, a))"

definition settings_sem :: "'a golioth_settings_handler list \<Rightarrow> cbor \<Rightarrow> 'a golioth \<Rightarrow> ret \<times> 'a golioth" where
  "settings_sem hs x g = (case x of
       C_nil \<Rightarrow> (Err ENOENT, g)
     | C_map ps \<Rightarrow> (case settings_run hs ps (g_app g) of (r, a) \<Rightarrow> (r, g\<lparr>g_app := a\<rparr>))
     | _ \<Rightarrow> (Err EBADMSG, g))"

definition version_sem :: "cbor \<Rightarrow> 'a golioth \<Rightarrow> ret \<times> 'a golioth" where
  "version_sem x g = (OK, g\<lparr>settings_version := (case x of C_int i \<Rightarrow> of_int i | _ \<Rightarrow> 0)\<rparr>)"

lemma decode_setting_step:
  assumes "decoder_ok zc n R" and "R z ((x # f) # fs)"
  obtains z' where "decode_setting zc z = Some (setting_of x, z')"
    and "R z' (if setting_of x = None then (x # f) # fs else f # fs)"
proof -
  note found = that
  obtain b where b: "zd_payload zc z = Some b" "ZCBOR_MAJOR_TYPE b = major x" using item_step(1) [OF assms] by blast
  note defs = decode_setting_def setting_of_def major_types b
  obtain fo fv fz where fl: "zd_float zc z 0 = (fo, fv, fz)" by (cases "zd_float zc z 0") auto
  have fl': "takes R (\<exists>u. x = C_float u) x f fs (fo, fz)" "\<forall>u. x = C_float u \<longrightarrow> fv = u"
    using item_step(4) [OF assms, of 0] by (simp_all add: fl)
  have simple: ?thesis if "major x = 7"
  proof (cases "\<exists>u. x = C_float u")
    case True
    then obtain u where u: "x = C_float u" ..
    show ?thesis by (rule found [of fz]) (use fl fl' u in \<open>simp_all add: defs takes_def\<close>)
  next
    case False
    then have fz: "fo = False" "R fz ((x # f) # fs)" using fl' by (auto simp: takes_def)
    obtain bo bv bz where bl: "zd_bool zc fz False = (bo, bv, bz)" by (cases "zd_bool zc fz False") auto
    have "takes R (\<exists>u. x = C_bool u) x f fs (bo, bz)" "\<forall>u. x = C_bool u \<longrightarrow> bv = u"
      using item_step(5) [OF assms(1) fz(2), of False] by (simp_all add: bl)
    note bt = this
    have bo: "bo = (\<exists>u. x = C_bool u)" using bt(1) by (simp add: takes_def)
    have "decode_setting zc z = Some (if bo then Some (Bool_val bv) else None, bz)"
      using fz(1) bl fl \<open>major x = 7\<close> by (simp add: decode_setting_def major_types b)
    moreover have "setting_of x = (if bo then Some (Bool_val bv) else None)"
      using False bo bt(2) \<open>major x = 7\<close> by (cases x) (simp_all add: setting_of_def split: if_splits)
    moreover have "R bz (if bo then f # fs else (x # f) # fs)" using bt(1) bo by (simp add: takes_def)
    ultimately show ?thesis by (intro found [of bz]) (simp_all split: if_splits)
  qed
  show ?thesis
  proof (cases x)
    case (C_tstr bs)
    obtain p z' where "zd_tstr zc z empty_string = (True, \<lparr>zs_value = p, zs_bytes = bs\<rparr>, z')" "R z' (f # fs)"
      by (rule tstr_step [OF assms(1)]) (use assms(2) C_tstr in auto)
    then show ?thesis by (intro found [of z']) (simp_all add: defs C_tstr)
  next
    case (C_int i)
    show ?thesis
    proof (cases rule: reads_int_step [OF decoder_okD(5) [OF assms(1)] assms(2), of 0])
      case (1 j z')
      then show ?thesis by (intro found [of z']) (auto simp: defs C_int)
    next
      case (2 v z')
      then show ?thesis by (intro found [of z']) (auto simp: defs C_int int_in_def)
    qed
  qed (use simple assms(2) found in \<open>auto simp: defs\<close>)
qed

lemma settings_loop_step:
  assumes "decoder_ok zc n R" and "R z (flat ps # B)"
  shows "\<exists>z'. settings_loop zc hs z a = Some (fst (settings_run hs ps a), z', snd (settings_run hs ps a))
    \<and> (fst (settings_run hs ps a) = OK \<longrightarrow> R z' ([] # B))"
  using assms(2)
proof (induction ps arbitrary: z a)
  case Nil
  then show ?case using end_step [OF assms(1), of z "[]" B] by (subst settings_loop.simps) simp
next
  case (Cons p ps)
  obtain k x where p: "p = (k, x)" by (cases p)
  have R: "R z ((k # x # flat ps) # B)" using Cons.prems by (simp add: p)
  have e: "zcbor_list_or_map_end zc z = Some False" using end_step [OF assms(1) R] by simp
  note unf = settings_loop.simps [of zc hs z a]
  show ?case
  proof (cases "\<exists>label. k = C_tstr label")
    case False
    obtain s z1 where "zd_tstr zc z empty_string = (False, s, z1)"
      by (rule tstr_fail [OF assms(1) R]) (use False in auto)
    with e unf False show ?thesis by (cases k) (simp_all add: p)
  next
    case True
    then obtain label where k: "k = C_tstr label" ..
    obtain q z1 where z1: "zd_tstr zc z empty_string = (True, \<lparr>zs_value = q, zs_bytes = label\<rparr>, z1)"
        "R z1 ((x # flat ps) # B)"
      by (rule tstr_step [OF assms(1) R [unfolded k]])
    obtain z2 where z2: "decode_setting zc z1 = Some (setting_of x, z2)"
        "R z2 (if setting_of x = None then (x # flat ps) # B else flat ps # B)"
      by (rule decode_setting_step [OF assms(1) z1(2)])
    show ?thesis
    proof (cases "setting_of x")
      case None
      then have "R z2 ((x # flat ps) # B)" using z2 by simp
      from skip_step [OF assms(1) this] obtain z3 where "zd_any_skip zc z2 = (True, z3)" "R z3 (flat ps # B)" .
      with None Cons.IH [of z3 a] unf e z1(1) z2(1) show ?thesis by (simp add: p k)
    next
      case (Some v)
      with z2 Cons.IH [of z2] unf e z1(1) show ?thesis by (simp add: p k)
    qed
  qed
qed

lemma nil_step:
  assumes "decoder_ok zc n R" and "R z ((x # f) # fs)"
  obtains z' where "zd_nil_expect zc z = (x = C_nil, z')" and "x \<noteq> C_nil \<longrightarrow> R z' ((x # f) # fs)"
proof (cases "zd_nil_expect zc z")
  case (Pair ok z')
  then show ?thesis using item_step(3) [OF assms] by (intro that [of z']) (auto simp: takes_def)
qed

lemma settings_decode_step:
  assumes "decoder_ok zc n R" and "length B < n"
  shows "callback_ok R B (\<lambda>_. True) P (settings_decode zc hs) (settings_sem hs)"
  unfolding callback_ok_def
proof (intro allI impI, elim conjE)
  fix z x g w
  assume R: "R z ((x # g) # B)"
  obtain z1 where z1: "zd_nil_expect zc z = (x = C_nil, z1)" "x \<noteq> C_nil \<longrightarrow> R z1 ((x # g) # B)"
    by (rule nil_step [OF assms(1) R])
  show "\<exists>z'. settings_decode zc hs z w = Some (fst (settings_sem hs x w), z', snd (settings_sem hs x w)) \<and> True
      \<and> (fst (settings_sem hs x w) = OK \<longrightarrow> R z' (g # B))"
  proof (cases "x = C_nil")
    case True
    then show ?thesis using z1 by (simp add: settings_decode_def settings_sem_def)
  next
    case False
    then have R1: "R z1 ((x # g) # B)" using z1 by simp
    show ?thesis
    proof (cases rule: map_start_step [OF assms(1) R1 assms(2)])
      case (1 ps z2)
      obtain r a where ra: "settings_run hs ps (g_app w) = (r, a)" by (cases "settings_run hs ps (g_app w)")
      from settings_loop_step [OF assms(1) 1(3), of hs "g_app w"] obtain z3 where
        z3: "settings_loop zc hs z2 (g_app w) = Some (r, z3, a)" "r = OK \<longrightarrow> R z3 ([] # g # B)" by (auto simp: ra)
      show ?thesis
      proof (cases r)
        case OK
        with z3 obtain z4 where "zd_map_end zc z3 = (True, z4)" "R z4 (g # B)"
          by (auto elim: map_end_step [OF assms(1)])
        with OK z1 1 z3 ra show ?thesis by (simp add: settings_decode_def settings_sem_def Let_def)
      next
        case (Err e)
        with z1 1 z3 ra show ?thesis by (simp add: settings_decode_def settings_sem_def Let_def)
      qed
    next
      case (2 z2)
      then show ?thesis using False z1 by (cases x) (auto simp: settings_decode_def settings_sem_def Let_def)
    qed
  qed
qed

definition settings_table where
  "settings_table hs = [(Key_tstr (lit ''settings''), settings_sem hs), (Key_tstr (lit ''version''), version_sem)]"

definition settings_values :: "zcbor_map_key \<Rightarrow> cbor \<Rightarrow> bool" where
  "settings_values k x \<longleftrightarrow> (k = Key_tstr (lit ''version'') \<longrightarrow> int_in (- (2 ^ 63)) (2 ^ 63) x)"

lemma version_decode_step:
  assumes "decoder_ok zc n R"
  shows "callback_ok R B (\<lambda>_. True) (int_in (- (2 ^ 63)) (2 ^ 63)) (\<lambda>z g.
    let (r, z, v) = zcbor_map_int64_decode zc z (settings_version g) in
    Some (r, z, g\<lparr>settings_version := v\<rparr>)) version_sem"
  unfolding callback_ok_def
proof (intro allI impI, elim conjE)
  fix z x g w
  assume x: "int_in (- (2 ^ 63)) (2 ^ 63) x" and R: "R z ((x # g) # B)"
  show "\<exists>z'. (let (r, z, v) = zcbor_map_int64_decode zc z (settings_version w) in
      Some (r, z, w\<lparr>settings_version := v\<rparr>)) = Some (fst (version_sem x w), z', snd (version_sem x w)) \<and> True
      \<and> (fst (version_sem x w) = OK \<longrightarrow> R z' (g # B))"
    by (cases rule: reads_int_step [OF decoder_okD(6) [OF assms] R, of "settings_version w"])
       (use x in \<open>simp_all add: zcbor_map_int64_decode_def version_sem_def\<close>)
qed

lemma settings_keys_differ: "lit ''settings'' \<noteq> lit ''version''" "lit ''version'' \<noteq> lit ''settings''"
  by (simp_all add: lit_def)

lemma settings_table_ok:
  assumes "decoder_ok zc n R" and "length B < n"
  shows "table_ok R B (\<lambda>_. True) settings_values (settings_entries zc hs) (settings_table hs)"
proof -
  have "settings_values (Key_tstr (lit ''version'')) = int_in (- (2 ^ 63)) (2 ^ 63)"
    by (auto simp: settings_values_def)
  then show ?thesis
    unfolding table_ok_def settings_entries_def settings_table_def
    by (simp add: settings_decode_step [OF assms] version_decode_step [OF assms(1), simplified])
qed

section \<open>Properties\<close>

lemma settings_downlink_step:
  assumes "decoder_ok zc 2 R" and "R (zd_new zc 2 bs) [[C_map ps]]"
    and "ps = [(C_tstr (lit ''version''), C_int v), (C_tstr (lit ''settings''), C_map ss)]
      \<or> ps = [(C_tstr (lit ''settings''), C_map ss), (C_tstr (lit ''version''), C_int v)]"
    and "- (2 ^ 63) \<le> v" and "v < 2 ^ 63" and "settings_run hs ss (g_app g) = (OK, a)"
  shows "settings_downlink zc hs key sid (Some bs) (length bs) is_last g
    = Some (g\<lparr>settings_version := of_int v, g_app := a\<rparr>)"
proof -
  have t: "table_ok R [[]] (\<lambda>_. True) settings_values (settings_entries zc hs) (settings_table hs)"
    by (rule settings_table_ok [OF assms(1)]) simp
  have k: "same_kind (settings_table hs) ps"
    unfolding same_kind_def using assms(3)
    by (intro exI [of _ False]) (auto simp: settings_table_def key_of_def)
  have v: "values_ok settings_values ps"
    using assms(3-5) by (auto simp: values_ok_def settings_values_def key_of_def int_in_def settings_keys_differ)
  have "map_run (settings_table hs) 0 ps g = (Inr 2, g\<lparr>settings_version := of_int v, g_app := a\<rparr>, [])"
    using assms(3,6) by (auto simp: settings_table_def key_of_def settings_sem_def version_sem_def settings_keys_differ numeral_2_eq_2)
  with map_decode_step [OF assms(1,2) _ t k v TrueI, where w = g and key = key] show ?thesis
    by (auto simp: settings_downlink_def mem_read_def map_result_def settings_table_def)
qed


definition demo_handlers :: "u32 list golioth_settings_handler list" where
  "demo_handlers = [\<lparr>sh_key = [0x61], sh_cb = Int_cb (\<lambda>v a. (OK, a @ [v]))\<rparr>,
     \<lparr>sh_key = [0x62], sh_cb = Bool_cb (\<lambda>b a. (OK, a @ [if b then 1 else 0]))\<rparr>]"

definition demo_settings :: "(cbor \<times> cbor) list" where
  "demo_settings = [(C_tstr [0x62], C_bool True), (C_tstr [0x63], C_int 4), (C_tstr [0x61], C_int 7),
     (C_tstr [0x61], C_nil)]"

definition demo_golioth :: "'a \<Rightarrow> 'a golioth" where
  "demo_golioth a = \<lparr>settings_version = -1, component_download = \<lparr>cd_downlink_id = DOWNLINK_ID_INVALID,
     cd_offset = 0, cd_name = replicate 33 0, cd_version = replicate 33 0\<rparr>, ota_data = [], g_app = a\<rparr>"


text \<open>The first handler for the name decides, also when its type is wrong.\<close>

lemma receive_one_first:
  "golioth_settings_receive_one hs v a =
     (case List.find (\<lambda>h. sh_key h = sv_key v) hs of
        None \<Rightarrow> (Err ENOENT, a)
      | Some h \<Rightarrow> if cb_type (sh_cb h) \<noteq> val_type (sv_val v) then (Err EINVAL, a)
                  else golioth_settings_receive_one [h] v a)"
  by (induction hs) (auto split: setting_cb.splits setting_union.splits)

section \<open>The encoder\<close>

lemma encode_steps_Cons:
  "encode_steps (put # puts) e = Some e' \<longleftrightarrow> (\<exists>e1. put e = (True, e1) \<and> encode_steps puts e1 = Some e')"
  by (cases "put e") auto

lemma encode_steps_append: "encode_steps (xs @ ys) e = Option.bind (encode_steps xs e) (encode_steps ys)"
  by (induction xs arbitrary: e) (auto simp: Let_def split: prod.splits)

lemma encoder_lib_okD:
  assumes "encoder_lib_ok enc bytes E"
  shows "E (ze_new enc n sz) [[]] sz"
    and "E e st sz \<Longrightarrow> ze_map_start enc n e = (True, e') \<Longrightarrow> E e' ([] # st) sz"
    and "E e (flat ps # f # fs) sz \<Longrightarrow> ze_map_end enc n e = (True, e') \<Longrightarrow> E e' ((f @ [C_map ps]) # fs) sz"
    and "adds E (ze_tstr enc bs) (C_tstr bs)" and "adds E (ze_uint32 enc u) (C_int (uint u))"
    and "adds E (ze_int64 enc v) (C_int (sint v))" and "adds E (ze_nil enc) C_nil"
    and "E e [[x]] sz \<Longrightarrow> ze_written enc e = bytes x \<and> bytes x \<noteq> [] \<and> length (bytes x) \<le> sz"
  using assms unfolding encoder_lib_ok_def by blast+

lemma encode_steps_item:
  assumes "encoder_lib_ok enc bytes E"
    and "encode_steps ([ze_map_start enc n] @ puts @ [ze_map_end enc n]) (ze_new enc k sz) = Some zse"
    and "list_all2 (adds E) puts (flat ps)"
  shows "ze_written enc zse = bytes (C_map ps)" and "bytes (C_map ps) \<noteq> []" and "length (bytes (C_map ps)) \<le> sz"
proof -
  have puts: "E e' ((f @ items) # fs) sz" if "encode_steps puts e = Some e'" "list_all2 (adds E) puts items" "E e (f # fs) sz"
    for puts items e e' f fs
    using that(2,1,3)
  proof (induction puts items arbitrary: e f rule: list_all2_induct)
    case (Cons put puts x items)
    then obtain e1 where e1: "put e = (True, e1)" "encode_steps puts e1 = Some e'"
      by (auto simp: encode_steps_Cons simp del: encode_steps.simps(2))
    have "E e1 ((f @ [x]) # fs) sz" using Cons.hyps(1) Cons.prems(2) e1(1) by (auto simp: adds_def)
    from Cons.IH [OF e1(2) this] show ?case by simp
  qed simp
  obtain e1 e2 where e: "ze_map_start enc n (ze_new enc k sz) = (True, e1)" "encode_steps puts e1 = Some e2"
      "ze_map_end enc n e2 = (True, zse)"
    using assms(2) by (auto simp: encode_steps_append encode_steps_Cons bind_eq_Some_conv simp del: encode_steps.simps(2))
  have "E e1 [[], []] sz" by (rule encoder_lib_okD(2) [OF assms(1) encoder_lib_okD(1) [OF assms(1)] e(1)])
  then have "E e2 [flat ps, []] sz" using puts [OF e(2) assms(3), of "[]" "[[]]"] by simp
  then have "E zse [[C_map ps]] sz" using encoder_lib_okD(3) [OF assms(1) _ e(3), of ps "[]" "[]"] by simp
  then show "ze_written enc zse = bytes (C_map ps)" "bytes (C_map ps) \<noteq> []" "length (bytes (C_map ps)) \<le> sz"
    using encoder_lib_okD(8) [OF assms(1)] by blast+
qed

text \<open>
  With \<open>mallocs\<close>, the environment under which a report cannot get lost: the encoder succeeds on the item.
\<close>

definition encodes :: "'e zcbor_encoder \<Rightarrow> nat \<Rightarrow> nat \<Rightarrow> ('e \<Rightarrow> bool \<times> 'e) list \<Rightarrow> bool" where
  "encodes enc levels n puts \<longleftrightarrow>
     encode_steps ([ze_map_start enc n] @ puts @ [ze_map_end enc n]) (ze_new enc levels 64) \<noteq> None"

text \<open>Reporting an item with the entry writer.\<close>

lemma write_step:
  assumes "uplink_inv s" and "open_entries s es" and "0 < len" and "len \<le> length data" and "len \<le> 64" and "length path < 256"
  obtains r s' es' where "pouch_uplink_entry_write OK (Some path) ct (Some data) len s = Some (r, s')"
    and "entry_log s' = entry_log s @ (if r = OK then [(path, ct, take len data)] else [])" and "open_entries s' es'"
    and "uplink_safe s s'" and "r = OK \<or> \<not> mallocs s" and "writer_frame s s'"
proof -
  have len: "5 + length path + len < SIZE_MOD" using assms(5,6) by (simp add: SIZE_MOD_num)
  obtain r s' es' where
    s': "pouch_uplink_entry_write OK (Some path) ct (Some data) len s = Some (r, s')"
      "entry_log s' = entry_log s @ (if r = OK then [(path, ct, take len data)] else [])" "open_entries s' es'"
      "uplink_safe s s'" "r = OK \<or> r = Err ENOMEM \<and> (512 < 5 + length path + len
        \<or> (\<exists>n\<ge>next_addr (p_heap s). malloc_oracle (p_heap s) n = None))"
    using entry_write_log_step [OF assms(1-4,6) len, where ct = ct] by blast
  have "r = OK \<or> \<not> mallocs s" using s'(5) assms(5,6) by (auto simp: mallocs_def)
  moreover have "writer_frame s s'"
    using entry_write_frame [OF assms(1-4) len s'(1)] entry_write_flags [OF s'(1)] by (simp add: writer_frame_def)
  ultimately show ?thesis using s' that by blast
qed

lemma report_step:
  assumes "uplink_inv s" and "open_entries s es" and "bs \<noteq> []" and "length bs \<le> 64" and "length path < 256"
  obtains r s' es' where "pouch_uplink_entry_write OK (Some path) ct (Some bs) (length bs) s = Some (r, s')"
    and "entry_log s' = entry_log s @ (if r = OK then [(path, ct, bs)] else [])" and "open_entries s' es'"
    and "uplink_safe s s'" and "r = OK \<or> \<not> mallocs s" and "writer_frame s s'"
proof -
  have "0 < length bs" using assms(3) by simp
  from write_step [OF assms(1,2) this order.refl assms(4,5), where ct = ct] that show ?thesis
    unfolding take_all [OF order.refl] by blast
qed

definition settings_report :: "'a golioth \<Rightarrow> cbor" where
  "settings_report g = C_map [(C_tstr (lit ''version''),
     if 0 \<le> sint (settings_version g) then C_int (sint (settings_version g)) else C_nil)]"

definition settings_puts :: "'e zcbor_encoder \<Rightarrow> 'a golioth \<Rightarrow> ('e \<Rightarrow> bool \<times> 'e) list" where
  "settings_puts enc g = [ze_tstr enc (lit ''version''),
     if 0 \<le> sint (settings_version g) then ze_int64 enc (settings_version g) else ze_nil enc]"

lemma settings_uplink_step:
  assumes "encoder_lib_ok enc bytes E" and "uplink_inv s" and "open_entries s es"
  shows "\<exists>s' es' new. settings_uplink enc OK g s = Some (g, s') \<and> uplink_safe s s' \<and> open_entries s' es'
    \<and> writer_frame s s' \<and> entry_log s' = entry_log s @ new
    \<and> subseq new [(SETTINGS_UPLINK_PATH, POUCH_CONTENT_TYPE_CBOR, bytes (settings_report g))]
    \<and> (mallocs s \<and> encodes enc 3 2 (settings_puts enc g)
        \<longrightarrow> new = [(SETTINGS_UPLINK_PATH, POUCH_CONTENT_TYPE_CBOR, bytes (settings_report g))])"
proof -
  let ?steps = "[ze_map_start enc 2] @ settings_puts enc g @ [ze_map_end enc 2]"
  let ?ps = "[(C_tstr (lit ''version''), if 0 \<le> sint (settings_version g) then C_int (sint (settings_version g)) else C_nil)]"
  have unf: "settings_uplink enc OK g s = (case encode_steps ?steps (ze_new enc 3 64) of
        None \<Rightarrow> Some (g, s)
      | Some zse \<Rightarrow> do {
          (_, s) \<leftarrow> pouch_uplink_entry_write OK (Some SETTINGS_UPLINK_PATH) POUCH_CONTENT_TYPE_CBOR
                     (Some (ze_written enc zse)) (length (ze_written enc zse)) s;
          Some (g, s) })"
    by (simp add: settings_uplink_def settings_puts_def del: encode_steps.simps(2))
  show ?thesis
  proof (cases "encode_steps ?steps (ze_new enc 3 64)")
    case None
    then show ?thesis using unf uplink_safe_refl [OF assms(2)] assms(3) writer_frame_refl
      by (auto simp: encodes_def simp del: encode_steps.simps(2))
  next
    case (Some zse)
    have "list_all2 (adds E) (settings_puts enc g) (flat ?ps)" by (simp add: settings_puts_def encoder_lib_okD [OF assms(1)])
    note w = encode_steps_item [OF assms(1) Some this, folded settings_report_def]
    have path: "length SETTINGS_UPLINK_PATH < 256" by (simp add: SETTINGS_UPLINK_PATH_def lit_def)
    obtain r s' es' where
      "pouch_uplink_entry_write OK (Some SETTINGS_UPLINK_PATH) POUCH_CONTENT_TYPE_CBOR
          (Some (bytes (settings_report g))) (length (bytes (settings_report g))) s = Some (r, s')"
      "entry_log s' = entry_log s @
         (if r = OK then [(SETTINGS_UPLINK_PATH, POUCH_CONTENT_TYPE_CBOR, bytes (settings_report g))] else [])"
      "open_entries s' es'" "uplink_safe s s'" "r = OK \<or> \<not> mallocs s" "writer_frame s s'"
      by (rule report_step [OF assms(2,3) w(2,3) path])
    then show ?thesis using unf Some w(1) by (cases "r = OK") (auto simp del: encode_steps.simps(2))
  qed
qed

text \<open>
  The encoder library as an interface: with any encoder that behaves as documented the settings
  service keeps the contract of an uplink service.
\<close>

locale encoder_library =
  fixes enc :: "'e zcbor_encoder" and bytes :: "cbor \<Rightarrow> u8 list" and E :: "'e \<Rightarrow> position \<Rightarrow> nat \<Rightarrow> bool"
  assumes library: "encoder_lib_ok enc bytes E"
begin

lemma settings_keeps_contract:
  assumes "uplink_inv s" and "open_entries s es"
  shows "\<exists>w' s' es' new. settings_uplink enc OK g s = Some (w', s') \<and> uplink_safe s s'
    \<and> open_entries s' es' \<and> writer_frame s s' \<and> entry_log s' = entry_log s @ new"
  using settings_uplink_step [OF library assms] by blast

end

sublocale encoder_library \<subseteq> settings_status: uplink_services "[Some (settings_uplink enc OK)]" "\<lambda>_. True"
  by unfold_locales (use settings_keeps_contract in auto)

interpretation rec_encoder: encoder_library "zcbor_rec bytes" bytes "rec_rel bytes" for bytes
  by unfold_locales (rule encoder_lib_ok_rec)

text \<open>
  Property C22. The version that was received is the one that is reported. After a settings message with version
  \<open>v\<close>, at least 0, the settings service returns and adds to the log nothing but an entry at
  \<^verbatim>\<open>.c/status\<close> with the encoding of a map with \<open>v\<close> under "version"; it does add that entry when
  the encoder has room for the item and no allocation fails. No buffer is lost, and the state of the
  SDK stays.
\<close>

theorem settings_version_reported:
  assumes "decoder_ok zc 2 R" and "R (zd_new zc 2 bs) [[C_map [(C_tstr (lit ''version''), C_int v),
      (C_tstr (lit ''settings''), C_map ss)]]]" and "0 \<le> v" and "v < 2 ^ 63"
    and "settings_run hs ss (g_app g) = (OK, a)" and "encoder_lib_ok enc bytes E"
    and "uplink_inv s" and "open_entries s es"
  shows "\<exists>g' s' new. settings_downlink zc hs key sid (Some bs) (length bs) is_last g = Some g'
    \<and> settings_uplink enc OK g' s = Some (g', s') \<and> uplink_safe s s'
    \<and> entry_log s' = entry_log s @ new
    \<and> subseq new [(lit ''.c/status'', 60, bytes (C_map [(C_tstr (lit ''version''), C_int v)]))]
    \<and> (mallocs s \<and> encodes enc 3 2 [ze_tstr enc (lit ''version''), ze_int64 enc (of_int v)]
        \<longrightarrow> new = [(lit ''.c/status'', 60, bytes (C_map [(C_tstr (lit ''version''), C_int v)]))])"
proof -
  let ?g = "g\<lparr>settings_version := of_int v, g_app := a\<rparr>"
  have d: "settings_downlink zc hs key sid (Some bs) (length bs) is_last g = Some ?g"
    by (rule settings_downlink_step [OF assms(1,2) disjI1 [OF refl] _ assms(4,5)]) (use assms(3) in simp)
  have v: "sint (of_int v :: u64) = v"
    using assms(3,4) by (simp add: signed_of_int signed_take_bit_int_eq_self)
  then have "settings_report ?g = C_map [(C_tstr (lit ''version''), C_int v)]"
    "settings_puts enc ?g = [ze_tstr enc (lit ''version''), ze_int64 enc (of_int v)]"
    using assms(3) by (simp_all add: settings_report_def settings_puts_def)
  with settings_uplink_step [OF assms(6-8), of ?g] d show ?thesis
    by (auto simp: SETTINGS_UPLINK_PATH_def POUCH_CONTENT_TYPE_CBOR_def)
qed

lemma settings_version_reported_witness:
  "\<exists>g' s'. settings_downlink (zcbor_pos (\<lambda>_. C_map [(C_tstr (lit ''version''), C_int 5), (C_tstr (lit ''settings''), C_map demo_settings)]))
      demo_handlers demo_key 0 (Some [1]) (length [1 :: u8]) True (demo_golioth []) = Some g'
    \<and> settings_uplink (zcbor_rec (\<lambda>_. [7])) OK g' (pouch_static (\<lambda>_. Some (\<lambda>_. 0)) ()) = Some (g', s')
    \<and> uplink_safe (pouch_static (\<lambda>_. Some (\<lambda>_. 0)) ()) s'
    \<and> entry_log s' = [(lit ''.c/status'', 60, [7])]"
proof -
  have "settings_run demo_handlers demo_settings (g_app (demo_golioth [])) = (OK, [1, 7])"
    by (simp add: demo_settings_def demo_handlers_def demo_golioth_def setting_of_def setting_key_def c_str_def
        GOLIOTH_SETTINGS_MAX_NAME_LEN_def)
  note run = this
  have "mallocs (pouch_static (\<lambda>_. Some (\<lambda>_. 0)) ())" by (simp add: mallocs_def)
  moreover have "encodes (zcbor_rec (\<lambda>_. [7])) 3 2 [ze_tstr (zcbor_rec (\<lambda>_. [7])) (lit ''version''),
      ze_int64 (zcbor_rec (\<lambda>_. [7])) (of_int 5)]"
    by (simp add: encodes_def zcbor_rec_def enc_put_def enc_end_def)
  ultimately show ?thesis
    using settings_version_reported [where zc = "zcbor_pos (\<lambda>_. C_map [(C_tstr (lit ''version''), C_int 5),
        (C_tstr (lit ''settings''), C_map demo_settings)])" and bs = "[1]" and v = 5 and key = demo_key and sid = 0
        and is_last = True and s = "pouch_static (\<lambda>_. Some (\<lambda>_. 0)) ()" and es = "[]",
      OF decoder_ok_pos _ _ _ run encoder_lib_ok_rec [of "\<lambda>_. [7]"]]
    by (auto simp: zcbor_pos_def)
qed

end
