(* ===== verification/Ota.thy ===== *)
theory Ota
  imports Settings
begin

text \<open>
  The OTA service of the Golioth SDK: the lower half \<^verbatim>\<open>golioth_sdk/ota.c\<close> decodes manifests, takes
  component downloads apart and reports the state of the components, the upper half
  \<^verbatim>\<open>golioth_sdk/ota_upper.c\<close> keeps the table of registered components. The data of the component with
  number \<open>i\<close> in the linker section is entry \<open>i\<close> of \<open>ota_data\<close>. The callbacks of the application may call
  back into the SDK, so they act on the whole \<open>'a golioth\<close>.
\<close>

section \<open>Data\<close>

definition CONFIG_GOLIOTH_OTA_MAX_PACKAGE_NAME_LEN :: nat where "CONFIG_GOLIOTH_OTA_MAX_PACKAGE_NAME_LEN = 32"
definition CONFIG_GOLIOTH_OTA_MAX_VERSION_LEN :: nat where "CONFIG_GOLIOTH_OTA_MAX_VERSION_LEN = 32"
definition GOLIOTH_OTA_COMPONENT_HASH_BIN_LEN :: nat where "GOLIOTH_OTA_COMPONENT_HASH_BIN_LEN = 32"
definition GOLIOTH_OTA_COMPONENT_HASH_HEX_LEN :: nat where "GOLIOTH_OTA_COMPONENT_HASH_HEX_LEN = 64"

lemmas ota_consts = CONFIG_GOLIOTH_OTA_MAX_PACKAGE_NAME_LEN_def CONFIG_GOLIOTH_OTA_MAX_VERSION_LEN_def
  GOLIOTH_OTA_COMPONENT_HASH_BIN_LEN_def GOLIOTH_OTA_COMPONENT_HASH_HEX_LEN_def

record 'a golioth_ota_registered_component =
  rc_name :: "u8 list"
  rc_version :: "u8 list"
  rc_receive :: "u8 list option \<Rightarrow> nat \<Rightarrow> nat \<Rightarrow> bool \<Rightarrow> 'a golioth \<Rightarrow> 'a golioth"

record golioth_ota_component =
  oc_package :: "u8 list"
  oc_version :: "u8 list"
  oc_hash :: "u8 list"
  oc_size :: u32

record golioth_ota_manifest_component =
  mc_name :: "u8 list"
  mc_current :: "u8 list"
  mc_target :: "u8 list"
  mc_target_hash :: "u8 list"
  mc_size :: nat

type_synonym 'a golioth_ota_manifest_handler = "golioth_ota_manifest_component list \<Rightarrow> 'a golioth \<Rightarrow> 'a golioth"

text \<open>The \<open>n\<close> bytes that \<^verbatim>\<open>strncpy(dst, src, n)\<close> writes, for the bytes of \<open>src\<close> before its NUL.\<close>

definition strncpy_bytes :: "u8 list \<Rightarrow> nat \<Rightarrow> u8 list" where
  "strncpy_bytes src n = take n (src @ replicate n 0)"

section \<open>The upper half\<close>

fun component_search :: "'a golioth_ota_registered_component list \<Rightarrow> nat \<Rightarrow> u8 list \<Rightarrow> nat option" where
  "component_search [] i name = None"
| "component_search (component # components) i name =
     (if rc_name component = name then Some i else component_search components (i + 1) name)"

definition golioth_ota_set_status ::
    "'a golioth_ota_registered_component list \<Rightarrow> u8 list \<Rightarrow> golioth_ota_state \<Rightarrow> 'a golioth \<Rightarrow> ret \<times> 'a golioth" where
  "golioth_ota_set_status comps name state g =
     (case component_search comps 0 name of
        None \<Rightarrow> (Err ENOENT, g)
      | Some i \<Rightarrow> (OK, g\<lparr>ota_data := (ota_data g)[i := (ota_data g ! i)\<lparr>od_state := state\<rparr>]\<rparr>))"

definition golioth_ota_mark_for_download where
  "golioth_ota_mark_for_download comps name = golioth_ota_set_status comps name GOLIOTH_OTA_STATE_DOWNLOADING"

definition golioth_ota_mark_idle where
  "golioth_ota_mark_idle comps name = golioth_ota_set_status comps name GOLIOTH_OTA_STATE_IDLE"

definition golioth_ota_mark_updating where
  "golioth_ota_mark_updating comps name = golioth_ota_set_status comps name GOLIOTH_OTA_STATE_UPDATING"

definition golioth_ota_manifest_receive_one ::
    "'a golioth_ota_registered_component list \<Rightarrow> golioth_ota_component \<Rightarrow> 'a golioth \<Rightarrow> ret \<times> 'a golioth" where
  "golioth_ota_manifest_receive_one comps component g =
     (OK, g\<lparr>ota_data := map2 (\<lambda>registered d.
        if c_str (oc_package component) = rc_name registered
        then d\<lparr>od_target := (strncpy_bytes (c_str (oc_version component)) CONFIG_GOLIOTH_OTA_MAX_VERSION_LEN)
                 [CONFIG_GOLIOTH_OTA_MAX_VERSION_LEN - 1 := 0],
               od_target_hash := take GOLIOTH_OTA_COMPONENT_HASH_BIN_LEN (oc_hash component),
               od_size := oc_size component\<rparr>
        else d) comps (ota_data g)\<rparr>)"

definition manifest_components ::
    "'a golioth_ota_registered_component list \<Rightarrow> 'a golioth \<Rightarrow> golioth_ota_manifest_component list" where
  "manifest_components comps g = map2 (\<lambda>registered d.
     \<lparr>mc_name = rc_name registered, mc_current = rc_version registered, mc_target = c_str (od_target d),
      mc_target_hash = od_target_hash d, mc_size = unat (od_size d)\<rparr>) comps (ota_data g)"

definition golioth_ota_manifest_complete ::
    "'a golioth_ota_registered_component list \<Rightarrow> 'a golioth_ota_manifest_handler list \<Rightarrow> 'a golioth \<Rightarrow> 'a golioth" where
  "golioth_ota_manifest_complete comps handlers g =
     fold (\<lambda>receive. receive (manifest_components comps g)) handlers g"

text \<open>The loop over the registered components; \<open>i\<close> is the number of the first one.\<close>

fun receive_component_loop ::
    "'a golioth_ota_registered_component list \<Rightarrow> nat \<Rightarrow> u8 list \<Rightarrow> nat \<Rightarrow> u8 list option \<Rightarrow> nat \<Rightarrow> bool \<Rightarrow>
      'a golioth \<Rightarrow> ret \<times> 'a golioth" where
  "receive_component_loop [] i name offset data len is_last g = (OK, g)"
| "receive_component_loop (registered # comps) i name offset data len is_last g =
     (if rc_name registered = name then
        (if od_state (ota_data g ! i) = GOLIOTH_OTA_STATE_DOWNLOADING
         then receive_component_loop comps (i + 1) name offset data len is_last
                (rc_receive registered data offset len is_last g)
         else (Err EINVAL, g))
      else receive_component_loop comps (i + 1) name offset data len is_last g)"

definition golioth_ota_receive_component ::
    "'a golioth_ota_registered_component list \<Rightarrow> u8 list \<Rightarrow> u8 list \<Rightarrow> nat \<Rightarrow> u8 list option \<Rightarrow> nat \<Rightarrow> bool \<Rightarrow>
      'a golioth \<Rightarrow> ret \<times> 'a golioth" where
  "golioth_ota_receive_component comps name version offset data len is_last g =
     receive_component_loop comps 0 name offset data len is_last g"

definition golioth_ota_get_status ::
    "'a golioth_ota_registered_component list \<Rightarrow> nat \<Rightarrow> 'a golioth \<Rightarrow> (u8 list \<times> u8 list \<times> u8 list \<times> golioth_ota_state) option" where
  "golioth_ota_get_status comps component_idx g =
     (if length comps \<le> component_idx then None
      else let component = comps ! component_idx; d = ota_data g ! component_idx in
           Some (rc_name component, rc_version component, c_str (od_target d), od_state d))"

section \<open>The lower half: manifests\<close>

text \<open>
  \<^verbatim>\<open>struct component_tstr_value\<close>: the object \<open>mem\<close> that the pointer leads to, of one byte more than
  \<^verbatim>\<open>value_len\<close>.
\<close>

definition component_entry_decode_value ::
    "'z zcbor \<Rightarrow> nat \<Rightarrow> 'z \<Rightarrow> u8 list \<Rightarrow> (ret \<times> 'z \<times> u8 list) option" where
  "component_entry_decode_value zc value_len z mem =
     (let (ok, tstr, z) = zd_tstr zc z empty_string in
      if \<not> ok then Some (Err EBADMSG, z, mem)
      else if value_len < length (zs_bytes tstr) then Some (Err ENOMEM, z, mem)
      else do { mem \<leftarrow> mem_write mem 0 (zs_bytes tstr);
                mem \<leftarrow> mem_write mem (length (zs_bytes tstr)) [0];
                Some (OK, z, mem) })"

text \<open>The local variables that one component is decoded into.\<close>

record manifest_item =
  mi_component :: golioth_ota_component
  mi_hash_str :: "u8 list"

definition manifest_item_init :: "u8 list \<Rightarrow> manifest_item" where
  "manifest_item_init junk = \<lparr>mi_component = \<lparr>
     oc_package = replicate (CONFIG_GOLIOTH_OTA_MAX_PACKAGE_NAME_LEN + 1) 0,
     oc_version = replicate (CONFIG_GOLIOTH_OTA_MAX_VERSION_LEN + 1) 0,
     oc_hash = replicate GOLIOTH_OTA_COMPONENT_HASH_BIN_LEN 0, oc_size = 0\<rparr>, mi_hash_str = junk\<rparr>"

definition manifest_entries :: "'z zcbor \<Rightarrow> ('z, manifest_item) zcbor_map_entry list" where
  "manifest_entries zc =
     [\<lparr>me_key = Key_u32 1, me_decode = (\<lambda>z m. do {
         (r, z, mem) \<leftarrow> component_entry_decode_value zc CONFIG_GOLIOTH_OTA_MAX_PACKAGE_NAME_LEN z (oc_package (mi_component m));
         Some (r, z, m\<lparr>mi_component := (mi_component m)\<lparr>oc_package := mem\<rparr>\<rparr>) })\<rparr>,
      \<lparr>me_key = Key_u32 2, me_decode = (\<lambda>z m. do {
         (r, z, mem) \<leftarrow> component_entry_decode_value zc CONFIG_GOLIOTH_OTA_MAX_VERSION_LEN z (oc_version (mi_component m));
         Some (r, z, m\<lparr>mi_component := (mi_component m)\<lparr>oc_version := mem\<rparr>\<rparr>) })\<rparr>,
      \<lparr>me_key = Key_u32 4, me_decode = (\<lambda>z m.
         let (r, z, v) = zcbor_map_int32_decode zc z (oc_size (mi_component m)) in
         Some (r, z, m\<lparr>mi_component := (mi_component m)\<lparr>oc_size := v\<rparr>\<rparr>))\<rparr>,
      \<lparr>me_key = Key_u32 3, me_decode = (\<lambda>z m. do {
         (r, z, mem) \<leftarrow> component_entry_decode_value zc GOLIOTH_OTA_COMPONENT_HASH_HEX_LEN z (mi_hash_str m);
         Some (r, z, m\<lparr>mi_hash_str := mem\<rparr>) })\<rparr>]"

text \<open>
  What the service relies on from outside: the CBOR decoder, \<^verbatim>\<open>hex2bin()\<close> of Zephyr (\<open>None\<close> when the
  text is not hexadecimal, for which it returns 0), and the contents of uninitialised variables.
\<close>

record 'z ota_env =
  oe_zcbor :: "'z zcbor"
  oe_hex2bin :: "u8 list \<Rightarrow> u8 list option"
  oe_key :: zcbor_key_object
  oe_junk :: "u8 list"

text \<open>The loop over the list of components: \<open>False\<close> when the function returns from inside it.\<close>

partial_function (option) manifest_items ::
    "'z ota_env \<Rightarrow> 'a golioth_ota_registered_component list \<Rightarrow> 'z \<Rightarrow> 'a golioth \<Rightarrow> (bool \<times> 'z \<times> 'a golioth) option" where
  "manifest_items env comps z g =
     do { e \<leftarrow> zcbor_list_or_map_end (oe_zcbor env) z;
          if e then Some (True, z, g)
          else do {
            (err, z, m) \<leftarrow> zcbor_map_decode (oe_zcbor env) (manifest_entries (oe_zcbor env)) (oe_key env) z
                             (manifest_item_init (oe_junk env));
            if is_err err then Some (False, z, g)
            else do {
              hex \<leftarrow> mem_read (mi_hash_str m) 0 GOLIOTH_OTA_COMPONENT_HASH_HEX_LEN;
              (case oe_hex2bin env hex of
                 None \<Rightarrow> Some (False, z, g)
               | Some hash \<Rightarrow>
                   if length hash \<noteq> GOLIOTH_OTA_COMPONENT_HASH_BIN_LEN then Some (False, z, g)
                   else manifest_items env comps z
                     (snd (golioth_ota_manifest_receive_one comps ((mi_component m)\<lparr>oc_hash := hash\<rparr>) g))) } } }"

partial_function (option) manifest_loop ::
    "'z ota_env \<Rightarrow> 'a golioth_ota_registered_component list \<Rightarrow> 'a golioth_ota_manifest_handler list \<Rightarrow> 'z \<Rightarrow> 'a golioth \<Rightarrow>
      'a golioth option" where
  "manifest_loop env comps handlers z g =
     do { e \<leftarrow> zcbor_list_or_map_end (oe_zcbor env) z;
          if e then Some g
          else
            (let (ok, key, z) = zd_uint32 (oe_zcbor env) z 0 in
             if \<not> ok then Some g
             else if key = 3 then
               (let (ok, z) = zd_list_start (oe_zcbor env) z in
                if \<not> ok then Some g
                else do {
                  (go, z, g) \<leftarrow> manifest_items env comps z g;
                  if \<not> go then Some g
                  else do {
                    let g = golioth_ota_manifest_complete comps handlers g;
                    ok \<leftarrow> zcbor_list_or_map_end (oe_zcbor env) z;
                    if \<not> ok then Some g else manifest_loop env comps handlers z g } })
             else
               (let (ok, z) = zd_any_skip (oe_zcbor env) z in
                if \<not> ok then Some g else manifest_loop env comps handlers z g)) }"

definition ota_receive_manifest ::
    "'z ota_env \<Rightarrow> 'a golioth_ota_registered_component list \<Rightarrow> 'a golioth_ota_manifest_handler list \<Rightarrow>
      u32 \<Rightarrow> u8 list option \<Rightarrow> nat \<Rightarrow> bool \<Rightarrow> 'a golioth \<Rightarrow> 'a golioth option" where
  "ota_receive_manifest env comps handlers sid data len is_last g =
     do { bs \<leftarrow> data;
          bs \<leftarrow> mem_read bs 0 len;
          let (ok, z) = zd_map_start (oe_zcbor env) (zd_new (oe_zcbor env) 3 bs);
          if \<not> ok then Some g else manifest_loop env comps handlers z g }"

section \<open>The lower half: downloads\<close>

text \<open>\<^verbatim>\<open>strchr(s, c)\<close> as an offset.\<close>

fun strchr :: "u8 list \<Rightarrow> u8 \<Rightarrow> nat option" where
  "strchr [] c = None"
| "strchr (x # xs) c = (if x = c then Some 0 else map_option Suc (strchr xs c))"

text \<open>
  The delimiter is the byte \<open>0x40\<close>. A NULL remainder is searched as if it were a string, and the
  name is copied without a bound.
\<close>

definition ota_receive_component_start :: "u32 \<Rightarrow> u8 list option \<Rightarrow> 'a golioth \<Rightarrow> 'a golioth option" where
  "ota_receive_component_start downlink_id path_remainder g =
     do { path_remainder \<leftarrow> path_remainder;
          case strchr path_remainder 0x40 of
            Some name_len \<Rightarrow> do {
              name \<leftarrow> mem_write (cd_name (component_download g)) 0 (take name_len path_remainder);
              name \<leftarrow> mem_write name name_len [0];
              let version = (strncpy_bytes (drop (name_len + 1) path_remainder) (CONFIG_GOLIOTH_OTA_MAX_VERSION_LEN + 1))
                              [CONFIG_GOLIOTH_OTA_MAX_VERSION_LEN := 0];
              Some (g\<lparr>component_download := \<lparr>cd_downlink_id = downlink_id, cd_offset = 0, cd_name = name, cd_version = version\<rparr>\<rparr>) }
          | None \<Rightarrow> Some (g\<lparr>component_download := (component_download g)\<lparr>cd_downlink_id := DOWNLINK_ID_INVALID\<rparr>\<rparr>) }"

definition ota_receive_component_data ::
    "'a golioth_ota_registered_component list \<Rightarrow> u32 \<Rightarrow> u8 list option \<Rightarrow> nat \<Rightarrow> bool \<Rightarrow> 'a golioth \<Rightarrow> 'a golioth option" where
  "ota_receive_component_data comps downlink_id data len is_last g =
     (if cd_downlink_id (component_download g) \<noteq> DOWNLINK_ID_INVALID then
        (let (_, g) = golioth_ota_receive_component comps (c_str (cd_name (component_download g)))
               (c_str (cd_version (component_download g))) (cd_offset (component_download g)) data len is_last g in
         Some (g\<lparr>component_download := (component_download g)\<lparr>cd_offset := szt_add (cd_offset (component_download g)) len\<rparr>\<rparr>))
      else Some g)"

section \<open>The lower half: reporting\<close>

definition GOLIOTH_OTA_COMPONENT_PATH_PREFIX :: "u8 list" where
  "GOLIOTH_OTA_COMPONENT_PATH_PREFIX = lit ''.u/c/''"

definition GOLIOTH_OTA_MANIFEST_PATH :: "u8 list" where
  "GOLIOTH_OTA_MANIFEST_PATH = lit ''/.u/desired''"

text \<open>
  The array \<^verbatim>\<open>path\<close>: the prefix and its NUL, 32 bytes more, filled with zeros; the name is copied
  behind the prefix.
\<close>

definition ota_path :: "u8 list \<Rightarrow> u8 list option" where
  "ota_path name =
     map_option c_str (mem_write
       (GOLIOTH_OTA_COMPONENT_PATH_PREFIX @ replicate (1 + CONFIG_GOLIOTH_OTA_MAX_PACKAGE_NAME_LEN) 0)
       (length GOLIOTH_OTA_COMPONENT_PATH_PREFIX) (strncpy_bytes name CONFIG_GOLIOTH_OTA_MAX_PACKAGE_NAME_LEN))"

fun ota_state_value :: "golioth_ota_state \<Rightarrow> u32" where
  "ota_state_value GOLIOTH_OTA_STATE_IDLE = 0"
| "ota_state_value GOLIOTH_OTA_STATE_DOWNLOADING = 1"
| "ota_state_value GOLIOTH_OTA_STATE_DOWNLOADED = 2"
| "ota_state_value GOLIOTH_OTA_STATE_UPDATING = 3"

definition status_puts ::
    "'e zcbor_encoder \<Rightarrow> u8 list \<times> u8 list \<times> u8 list \<times> golioth_ota_state \<Rightarrow> ('e \<Rightarrow> bool \<times> 'e) list" where
  "status_puts enc = (\<lambda>(name, current_version, target_version, state).
     [ze_tstr enc (lit ''s''), ze_uint32 enc (ota_state_value state), ze_tstr enc (lit ''r''), ze_uint32 enc 0,
      ze_tstr enc (lit ''pkg''), ze_tstr enc name, ze_tstr enc (lit ''v''), ze_tstr enc current_version]
     @ (if state \<noteq> GOLIOTH_OTA_STATE_IDLE then [ze_tstr enc (lit ''t''), ze_tstr enc target_version] else []))"

text \<open>
  The loop of \<^verbatim>\<open>ota_uplink()\<close>: it ends at the first component the encoder fails on, and behind the
  last one. A failure of the entry writer is logged only.
\<close>

function ota_uplink_loop ::
    "'e zcbor_encoder \<Rightarrow> ret \<Rightarrow> 'a golioth_ota_registered_component list \<Rightarrow> nat \<Rightarrow> 'a golioth \<Rightarrow> 'c pouch \<Rightarrow> 'c pouch option" where
  "ota_uplink_loop enc lock comps component_idx g s =
     (case golioth_ota_get_status comps component_idx g of
        None \<Rightarrow> Some s
      | Some (name, current_version, target_version, state) \<Rightarrow>
          (case encode_steps ([ze_map_start enc 1] @ status_puts enc (name, current_version, target_version, state)
                   @ [ze_map_end enc 1]) (ze_new enc 1 64) of
             None \<Rightarrow> Some s
           | Some zse \<Rightarrow> do {
               path \<leftarrow> ota_path name;
               (_, s) \<leftarrow> pouch_uplink_entry_write lock (Some path) POUCH_CONTENT_TYPE_CBOR
                          (Some (ze_written enc zse)) (length (ze_written enc zse)) s;
               ota_uplink_loop enc lock comps (component_idx + 1) g s }))"
  by pat_completeness auto
termination
  by (relation "measure (\<lambda>(enc, lock, comps, component_idx, g, s). length comps - component_idx)")
     (auto simp: golioth_ota_get_status_def split: if_splits)

definition ota_uplink ::
    "'e zcbor_encoder \<Rightarrow> ret \<Rightarrow> 'a golioth_ota_registered_component list \<Rightarrow> 'a golioth \<Rightarrow> 'c pouch \<Rightarrow>
      ('a golioth \<times> 'c pouch) option" where
  "ota_uplink enc lock comps g s = map_option (Pair g) (ota_uplink_loop enc lock comps 0 g s)"

text \<open>The services as they are registered with the dispatcher, in the order of the linker section.\<close>

definition ota_manifest_service ::
    "'z ota_env \<Rightarrow> 'a golioth_ota_registered_component list \<Rightarrow> 'a golioth_ota_manifest_handler list \<Rightarrow> 'a golioth golioth_downlink_service"
where
  "ota_manifest_service env comps handlers = \<lparr>gs_path = GOLIOTH_OTA_MANIFEST_PATH, gs_start_cb = None,
     gs_data_cb = ota_receive_manifest env comps handlers\<rparr>"

definition ota_component_service ::
    "'a golioth_ota_registered_component list \<Rightarrow> 'a golioth golioth_downlink_service" where
  "ota_component_service comps = \<lparr>gs_path = lit ''/'' @ GOLIOTH_OTA_COMPONENT_PATH_PREFIX @ lit ''*'',
     gs_start_cb = Some ota_receive_component_start, gs_data_cb = ota_receive_component_data comps\<rparr>"

definition settings_service ::
    "'z zcbor \<Rightarrow> 'a golioth_settings_handler list \<Rightarrow> zcbor_key_object \<Rightarrow> 'a golioth golioth_downlink_service" where
  "settings_service zc hs key = \<lparr>gs_path = SETTINGS_DOWNLINK_PATH, gs_start_cb = None,
     gs_data_cb = settings_downlink zc hs key\<rparr>"

declare ota_uplink_loop.simps [simp del]

section \<open>Marking and reading the state\<close>

lemma component_search_Some:
  "component_search comps k name = Some j \<longleftrightarrow>
     k \<le> j \<and> j - k < length comps \<and> rc_name (comps ! (j - k)) = name \<and> (\<forall>i < j - k. rc_name (comps ! i) \<noteq> name)"
proof (induction comps arbitrary: k)
  case (Cons c comps)
  show ?case
  proof (cases "rc_name c = name")
    case True
    then show ?thesis by (auto simp: nth_Cons split: nat.splits)
  next
    case False
    then show ?thesis
      by (cases "j - k") (auto simp: Cons nth_Cons Suc_diff_Suc less_Suc_eq_0_disj diff_Suc split: nat.splits)
  qed
qed simp

lemma component_search_None: "component_search comps k name = None \<longleftrightarrow> name \<notin> rc_name ` set comps"
  by (induction comps arbitrary: k) auto

lemma component_search_distinct:
  assumes "distinct (map rc_name comps)" and "i < length comps"
  shows "component_search comps 0 (rc_name (comps ! i)) = Some i"
  using assms by (auto simp: component_search_Some distinct_conv_nth)

text \<open>
  Marking a component is seen in its report. Marking a registered component (for
  download, as idle or as updating) succeeds and changes the state that \<^verbatim>\<open>golioth_ota_get_status()\<close>
  reports for the first component of that name, and for no other; names, versions and the target of
  every component stay. An unknown name gives -ENOENT and changes nothing.
\<close>

theorem ota_mark_status:
  assumes "length (ota_data g) = length comps" and "golioth_ota_set_status comps name st g = (r, g')"
  shows "(case component_search comps 0 name of
       None \<Rightarrow> r = Err ENOENT \<and> g' = g \<and> name \<notin> rc_name ` set comps
     | Some i \<Rightarrow> r = OK \<and> i < length comps \<and> rc_name (comps ! i) = name \<and> (\<forall>j<i. rc_name (comps ! j) \<noteq> name)
         \<and> length (ota_data g') = length comps
         \<and> (\<forall>j. golioth_ota_get_status comps j g' =
              (if j = i then map_option (\<lambda>(n, v, t, _). (n, v, t, st)) (golioth_ota_get_status comps j g)
               else golioth_ota_get_status comps j g)))"
proof (cases "component_search comps 0 name")
  case None
  then show ?thesis using assms(2) component_search_None [of comps 0 name] by (simp add: golioth_ota_set_status_def)
next
  case (Some i)
  then have i: "i < length comps" "rc_name (comps ! i) = name" "\<forall>j<i. rc_name (comps ! j) \<noteq> name"
    using component_search_Some [of comps 0 name i] by auto
  have "r = OK" "g' = g\<lparr>ota_data := (ota_data g)[i := (ota_data g ! i)\<lparr>od_state := st\<rparr>]\<rparr>"
    using assms(2) Some by (simp_all add: golioth_ota_set_status_def)
  with Some i assms(1) show ?thesis by (simp add: golioth_ota_get_status_def Let_def)
qed

definition demo_component :: "string \<Rightarrow> u8 list list golioth_ota_registered_component" where
  "demo_component name = \<lparr>rc_name = lit name, rc_version = lit ''1'',
     rc_receive = (\<lambda>d off n l g. g\<lparr>g_app := g_app g @ [case d of None \<Rightarrow> [] | Some x \<Rightarrow> of_nat off # x]\<rparr>)\<rparr>"

definition demo_ota_data :: ota_component_data where
  "demo_ota_data = \<lparr>od_target = lit ''1'' @ replicate 31 0, od_target_hash = replicate 32 0, od_size = 0,
     od_state = GOLIOTH_OTA_STATE_IDLE\<rparr>"

definition demo_ota :: "u8 list list golioth" where
  "demo_ota = (demo_golioth [])\<lparr>ota_data := [demo_ota_data, demo_ota_data]\<rparr>"

lemma ota_mark_status_witness:
  "case golioth_ota_mark_for_download [demo_component ''a'', demo_component ''b''] (lit ''b'') demo_ota of (r, g') \<Rightarrow>
     r = OK \<and> map_option (snd \<circ> snd \<circ> snd) (golioth_ota_get_status [demo_component ''a'', demo_component ''b''] 1 g')
       = Some GOLIOTH_OTA_STATE_DOWNLOADING"
proof -
  let ?comps = "[demo_component ''a'', demo_component ''b'']"
  obtain r g' where m: "golioth_ota_set_status ?comps (lit ''b'') GOLIOTH_OTA_STATE_DOWNLOADING demo_ota = (r, g')" by fastforce
  have "component_search ?comps 0 (lit ''b'') = Some 1" by (simp add: demo_component_def lit_def)
  with ota_mark_status [OF _ m] have "r = OK"
      "golioth_ota_get_status ?comps 1 g' = map_option (\<lambda>(n, v, t, _). (n, v, t, GOLIOTH_OTA_STATE_DOWNLOADING))
        (golioth_ota_get_status ?comps 1 demo_ota)" by (simp_all add: demo_ota_def)
  then show ?thesis by (simp add: golioth_ota_mark_for_download_def m golioth_ota_get_status_def Let_def)
qed

section \<open>Downloads\<close>

text \<open>Components whose callback works on the state of the application only.\<close>

type_synonym 'a app_cb = "u8 list option \<Rightarrow> nat \<Rightarrow> nat \<Rightarrow> bool \<Rightarrow> 'a \<Rightarrow> 'a"

definition app_component :: "u8 list \<times> u8 list \<times> 'a app_cb \<Rightarrow> 'a golioth_ota_registered_component" where
  "app_component = (\<lambda>(name, version, f). \<lparr>rc_name = name, rc_version = version,
     rc_receive = (\<lambda>d off n l g. g\<lparr>g_app := f d off n l (g_app g)\<rparr>)\<rparr>)"

fun data_run ::
    "'a golioth_ota_registered_component list \<Rightarrow> u32 \<Rightarrow> (u8 list \<times> bool) list \<Rightarrow> 'a golioth \<Rightarrow> 'a golioth option" where
  "data_run comps sid [] g = Some g"
| "data_run comps sid ((d, l) # chunks) g =
     do { g \<leftarrow> ota_receive_component_data comps sid (Some d) (length d) l g; data_run comps sid chunks g }"

text \<open>The calls of the callback that a download should make: consecutive offsets.\<close>

fun chunk_calls :: "'a app_cb \<Rightarrow> nat \<Rightarrow> (u8 list \<times> bool) list \<Rightarrow> 'a \<Rightarrow> 'a" where
  "chunk_calls f off [] a = a"
| "chunk_calls f off ((d, l) # chunks) a = chunk_calls f (off + length d) chunks (f (Some d) off (length d) l a)"

lemma receive_other:
  "name \<notin> fst ` set cs \<Longrightarrow> receive_component_loop (map app_component cs) k name off d n l g = (OK, g)"
  by (induction cs arbitrary: k) (auto simp: app_component_def)

lemma receive_one_component:
  assumes "distinct (map fst cs)" and "i < length cs" and "cs ! i = (name, v, f)"
  shows "receive_component_loop (map app_component cs) k name off d n l g =
    (if od_state (ota_data g ! (k + i)) = GOLIOTH_OTA_STATE_DOWNLOADING
     then (OK, g\<lparr>g_app := f d off n l (g_app g)\<rparr>) else (Err EINVAL, g))"
  using assms
proof (induction cs arbitrary: k i)
  case (Cons c cs)
  show ?case
  proof (cases i)
    case 0
    then have "c = (name, v, f)" "name \<notin> fst ` set cs" using Cons.prems by auto
    then show ?thesis using 0 receive_other [of name cs] by (auto simp: app_component_def)
  next
    case (Suc j)
    have "name \<in> fst ` set cs" using Cons.prems(2,3) Suc by (force simp: in_set_conv_nth)
    then have "fst c \<noteq> name" using Cons.prems(1) by auto
    then show ?thesis using Cons.IH [of j "Suc k"] Cons.prems Suc by (cases c) (simp add: app_component_def)
  qed
qed simp

lemma data_run_step:
  assumes "distinct (map fst cs)" and "i < length cs" and "cs ! i = (name, v, f)"
    and "cd_downlink_id (component_download g) \<noteq> DOWNLINK_ID_INVALID" and "c_str (cd_name (component_download g)) = name"
    and "cd_offset (component_download g) + sum_list (map (length \<circ> fst) chunks) < SIZE_MOD"
  shows "data_run (map app_component cs) sid chunks g = Some (g\<lparr>
      g_app := (if od_state (ota_data g ! i) = GOLIOTH_OTA_STATE_DOWNLOADING
                then chunk_calls f (cd_offset (component_download g)) chunks (g_app g) else g_app g),
      component_download := (component_download g)\<lparr>cd_offset :=
        cd_offset (component_download g) + sum_list (map (length \<circ> fst) chunks)\<rparr>\<rparr>)"
  using assms(4-6)
proof (induction chunks arbitrary: g)
  case (Cons c chunks)
  obtain d l where c: "c = (d, l)" by (cases c)
  let ?g = "g\<lparr>g_app := (if od_state (ota_data g ! i) = GOLIOTH_OTA_STATE_DOWNLOADING
      then f (Some d) (cd_offset (component_download g)) (length d) l (g_app g) else g_app g),
    component_download := (component_download g)\<lparr>cd_offset := cd_offset (component_download g) + length d\<rparr>\<rparr>"
  have "ota_receive_component_data (map app_component cs) sid (Some d) (length d) l g = Some ?g"
    using receive_one_component [OF assms(1-3), of 0] Cons.prems
    by (simp add: ota_receive_component_data_def golioth_ota_receive_component_def c)
  with Cons.IH [of ?g] Cons.prems show ?case by (simp add: c add.assoc)
qed simp

lemma strchr_append: "c \<notin> set xs \<Longrightarrow> strchr (xs @ c # ys) c = Some (length xs)"
  by (induction xs) auto

lemma c_str_append: "0 \<notin> set xs \<Longrightarrow> c_str (xs @ 0 # ys) = xs"
  unfolding c_str_def by (induction xs) auto

lemma c_str_no_nul: "0 \<notin> set xs \<Longrightarrow> c_str xs = xs"
  unfolding c_str_def by (induction xs) auto

lemma strncpy_terminated:
  assumes "0 < n"
  shows "(strncpy_bytes xs n)[n - 1 := 0] = take (n - 1) (xs @ replicate n 0) @ [0]"
proof -
  obtain m where n: "n = Suc m" using assms by (cases n) auto
  define ys where "ys = xs @ replicate n 0"
  have "m < length ys" by (simp add: ys_def n)
  then have "(take (Suc m) ys)[m := 0] = take m ys @ [0]" by (simp add: take_Suc_conv_app_nth list_update_append)
  then show ?thesis by (simp add: strncpy_bytes_def n ys_def)
qed

lemma component_start_step:
  assumes "0x40 \<notin> set name" and "0 \<notin> set name" and "length name \<le> 32" and "length (cd_name (component_download g)) = 33"
  shows "\<exists>cd. ota_receive_component_start sid (Some (name @ 0x40 # version)) g = Some (g\<lparr>component_download := cd\<rparr>)
    \<and> cd_downlink_id cd = sid \<and> cd_offset cd = 0 \<and> c_str (cd_name cd) = name \<and> length (cd_name cd) = 33
    \<and> cd_version cd = take 32 (version @ replicate 33 0) @ [0]"
proof -
  have v: "(strncpy_bytes version 33)[32 := 0] = take 32 (version @ replicate 33 0) @ [0]"
    using strncpy_terminated [of 33 version] by simp
  let ?m = "name @ [0] @ drop (length name + 1) (cd_name (component_download g))"
  have "mem_write (cd_name (component_download g)) 0 name = Some (name @ drop (length name) (cd_name (component_download g)))"
    using assms(3,4) by (simp add: mem_write_def)
  moreover have "mem_write (name @ drop (length name) (cd_name (component_download g))) (length name) [0] = Some ?m"
    using assms(3,4) by (simp add: mem_write_def)
  ultimately have "ota_receive_component_start sid (Some (name @ 0x40 # version)) g = Some (g\<lparr>component_download :=
      \<lparr>cd_downlink_id = sid, cd_offset = 0, cd_name = ?m, cd_version = take 32 (version @ replicate 33 0) @ [0]\<rparr>\<rparr>)"
    using assms(1) v by (simp add: ota_receive_component_start_def strchr_append ota_consts Let_def)
  then show ?thesis using assms(2-4)
    by (intro exI [of _ "\<lparr>cd_downlink_id = sid, cd_offset = 0, cd_name = ?m,
          cd_version = take 32 (version @ replicate 33 0) @ [0]\<rparr>"]) (simp add: c_str_append)
qed

text \<open>
  Property C20. A component download reaches its component in one piece. After the start of a
  download for \<open>name@version\<close>, with a name of at most 32 bytes, the pieces of the stream are handed
  to the registered component of that name in order, each with the offset at which the pieces before
  it end, and with the flag of the last one; when the component was not marked for download, no
  piece reaches it. Other components see nothing.
\<close>

theorem ota_component_download:
  assumes "distinct (map fst cs)" and "i < length cs" and "cs ! i = (name, v, f)"
    and "0x40 \<notin> set name" and "0 \<notin> set name" and "length name \<le> 32" and "length (cd_name (component_download g)) = 33"
    and "sid \<noteq> DOWNLINK_ID_INVALID" and "sum_list (map (length \<circ> fst) chunks) < SIZE_MOD"
  shows "\<exists>g0 g'. ota_receive_component_start sid (Some (name @ 0x40 # version)) g = Some g0
    \<and> data_run (map app_component cs) sid chunks g0 = Some g' \<and> ota_data g' = ota_data g
    \<and> cd_offset (component_download g') = sum_list (map (length \<circ> fst) chunks)
    \<and> g_app g' = (if od_state (ota_data g ! i) = GOLIOTH_OTA_STATE_DOWNLOADING
                   then chunk_calls f 0 chunks (g_app g) else g_app g)"
proof -
  from component_start_step [OF assms(4-7)] obtain cd where
    cd: "ota_receive_component_start sid (Some (name @ 0x40 # version)) g = Some (g\<lparr>component_download := cd\<rparr>)"
      "cd_downlink_id cd = sid" "cd_offset cd = 0" "c_str (cd_name cd) = name" by blast
  from data_run_step [OF assms(1-3), of "g\<lparr>component_download := cd\<rparr>" chunks sid] cd assms(8,9) show ?thesis by simp
qed

lemma ota_component_download_witness:
  "\<exists>g0 g'. ota_receive_component_start 3 (Some ([0x61] @ 0x40 # [0x32])) (demo_ota\<lparr>ota_data := [demo_ota_data\<lparr>od_state := GOLIOTH_OTA_STATE_DOWNLOADING\<rparr>]\<rparr>) = Some g0
    \<and> data_run (map app_component [([0x61], [], \<lambda>d off n l a. a @ [of_nat off # the d])]) 3 [([7, 8], False), ([9], True)] g0 = Some g'
    \<and> g_app g' = [[0, 7, 8], [2, 9]]"
proof -
  let ?f = "\<lambda>d off n (l :: bool) a. a @ [of_nat off # the d] :: u8 list list"
  let ?g = "demo_ota\<lparr>ota_data := [demo_ota_data\<lparr>od_state := GOLIOTH_OTA_STATE_DOWNLOADING\<rparr>]\<rparr>"
  have "chunk_calls ?f 0 [([7, 8], False), ([9], True)] (g_app ?g) = [[0, 7, 8], [2, 9]]"
    by (simp add: demo_ota_def demo_golioth_def)
  moreover have "od_state (ota_data ?g ! 0) = GOLIOTH_OTA_STATE_DOWNLOADING" by simp
  moreover have "length (cd_name (component_download ?g)) = 33" by (simp add: demo_ota_def demo_golioth_def)
  ultimately show ?thesis
    using ota_component_download [of "[([0x61], [], ?f)]" 0 "[0x61]" "[]" ?f ?g 3 "[([7, 8], False), ([9], True)]" "[0x32]"]
    by (auto simp: DOWNLINK_ID_INVALID_def SIZE_MOD_num)
qed

text \<open>
  Property C38. Two paths the sender can choose break the component service. An entry for the path
  \<^verbatim>\<open>/.u/c/\<close> itself has an empty remainder, for which the dispatcher passes NULL, and
  \<^verbatim>\<open>strchr()\<close> searches it; a package name of more than 32 bytes is written past the end of the array
  for it. Both are undefined behaviour.
\<close>

theorem ota_component_start_unsafe:
  assumes "route svcs path = Some i" and "svcs ! i = ota_component_service comps" and "\<forall>service\<in>set svcs. gs_path service \<noteq> []"
    and "path = lit ''/.u/c/'' \<or> (\<exists>name version. path = lit ''/.u/c/'' @ name @ 0x40 # version \<and> 0x40 \<notin> set name \<and> 32 < length name)"
    and "length (cd_name (component_download g)) = 33"
  shows "dispatch_downlink_start svcs sid path (d, g) = None"
proof -
  have pre: "service_prefix (ota_component_service comps) = lit ''/.u/c/''"
    by (simp add: service_prefix_def ota_component_service_def GOLIOTH_OTA_COMPONENT_PATH_PREFIX_def lit_def)
  have star: "last (gs_path (ota_component_service comps)) = 0x2a"
    by (simp add: ota_component_service_def GOLIOTH_OTA_COMPONENT_PATH_PREFIX_def lit_def)
  have "ota_receive_component_start sid (path_rest (ota_component_service comps) path) g = None"
    using assms(4,5)
  proof (elim disjE exE conjE)
    assume "path = lit ''/.u/c/''"
    then show ?thesis by (simp add: path_rest_def pre ota_receive_component_start_def)
  next
    fix name version
    assume p: "path = lit ''/.u/c/'' @ name @ 0x40 # version" "0x40 \<notin> set name" "32 < length name"
      and len: "length (cd_name (component_download g)) = 33"
    have "mem_write (cd_name (component_download g)) 0 name \<bind> (\<lambda>m. mem_write m (length name) [0]) = None"
      using p(3) len by (auto simp: mem_write_def bind_eq_None_conv)
    then show ?thesis using p
      by (auto simp: path_rest_def pre star ota_receive_component_start_def strchr_append bind_eq_None_conv)
  qed
  then show ?thesis using assms(1,2)
    by (simp add: dispatch_start_route [OF assms(3)]) (simp add: ota_component_service_def)
qed

lemma ota_component_start_unsafe_witness:
  "dispatch_downlink_start [ota_component_service ([] :: unit golioth_ota_registered_component list)] 0 (lit ''/.u/c/'')
     (dispatch_static [ota_component_service ([] :: unit golioth_ota_registered_component list)], demo_golioth ()) = None"
  by (rule ota_component_start_unsafe [where i = 0 and comps = "[]"])
     (simp_all add: route_def service_prefix_def ota_component_service_def GOLIOTH_OTA_COMPONENT_PATH_PREFIX_def lit_def demo_golioth_def)

section \<open>Manifests\<close>

definition value_sem :: "nat \<Rightarrow> cbor \<Rightarrow> u8 list \<Rightarrow> ret \<times> u8 list" where
  "value_sem n x mem = (case x of
       C_tstr bs \<Rightarrow> if n < length bs then (Err ENOMEM, mem) else (OK, bs @ 0 # drop (length bs + 1) mem)
     | _ \<Rightarrow> (Err EBADMSG, mem))"

lemma length_value_sem [simp]: "length mem = Suc n \<Longrightarrow> length (snd (value_sem n x mem)) = Suc n"
  by (auto simp: value_sem_def split: cbor.splits)

lemma value_decode_step:
  assumes "decoder_ok zc n R" and "R z ((x # g) # B)" and "length mem = Suc m"
  obtains z' where "component_entry_decode_value zc m z mem = Some (fst (value_sem m x mem), z', snd (value_sem m x mem))"
    and "fst (value_sem m x mem) = OK \<longrightarrow> R z' (g # B)"
proof (cases "\<exists>bs. x = C_tstr bs")
  case True
  then obtain bs where x: "x = C_tstr bs" ..
  obtain p z' where z': "zd_tstr zc z empty_string = (True, \<lparr>zs_value = p, zs_bytes = bs\<rparr>, z')" "R z' (g # B)"
    by (rule tstr_step [OF assms(1) assms(2) [unfolded x]])
  show ?thesis
    by (rule that [of z'])
       (use z' assms(3) in \<open>auto simp: x component_entry_decode_value_def value_sem_def mem_write_def\<close>)
next
  case False
  obtain s z' where "zd_tstr zc z empty_string = (False, s, z')" by (rule tstr_fail [OF assms(1,2)]) (use False in auto)
  then show ?thesis using False
    by (intro that [of z']) (cases x; auto simp: component_entry_decode_value_def value_sem_def)+
qed

text \<open>What decoding a component map does to the local variables.\<close>

definition item_inv :: "manifest_item \<Rightarrow> bool" where
  "item_inv m \<longleftrightarrow> length (oc_package (mi_component m)) = 33 \<and> length (oc_version (mi_component m)) = 33
     \<and> length (mi_hash_str m) = 65"

definition package_sem :: "cbor \<Rightarrow> manifest_item \<Rightarrow> ret \<times> manifest_item" where
  "package_sem x m = (case value_sem 32 x (oc_package (mi_component m)) of
     (r, mem) \<Rightarrow> (r, m\<lparr>mi_component := (mi_component m)\<lparr>oc_package := mem\<rparr>\<rparr>))"

definition item_version_sem :: "cbor \<Rightarrow> manifest_item \<Rightarrow> ret \<times> manifest_item" where
  "item_version_sem x m = (case value_sem 32 x (oc_version (mi_component m)) of
     (r, mem) \<Rightarrow> (r, m\<lparr>mi_component := (mi_component m)\<lparr>oc_version := mem\<rparr>\<rparr>))"

definition size_sem :: "cbor \<Rightarrow> manifest_item \<Rightarrow> ret \<times> manifest_item" where
  "size_sem x m = (OK, m\<lparr>mi_component := (mi_component m)\<lparr>oc_size := (case x of C_int i \<Rightarrow> of_int i | _ \<Rightarrow> 0)\<rparr>\<rparr>)"

definition hash_sem :: "cbor \<Rightarrow> manifest_item \<Rightarrow> ret \<times> manifest_item" where
  "hash_sem x m = (case value_sem 64 x (mi_hash_str m) of (r, mem) \<Rightarrow> (r, m\<lparr>mi_hash_str := mem\<rparr>))"

definition item_table where
  "item_table = [(Key_u32 1, package_sem), (Key_u32 2, item_version_sem), (Key_u32 4, size_sem), (Key_u32 3, hash_sem)]"

definition item_values :: "zcbor_map_key \<Rightarrow> cbor \<Rightarrow> bool" where
  "item_values k x \<longleftrightarrow> (k = Key_u32 4 \<longrightarrow> int_in (- (2 ^ 31)) (2 ^ 31) x)"

lemma value_callback_ok:
  assumes "decoder_ok zc n R" and "\<And>w. I w \<Longrightarrow> length (get w) = Suc m"
    and "\<And>w mem. I w \<Longrightarrow> length mem = Suc m \<Longrightarrow> I (put mem w)"
  shows "callback_ok R B I P
    (\<lambda>z w. do { (r, z, mem) \<leftarrow> component_entry_decode_value zc m z (get w); Some (r, z, put mem w) })
    (\<lambda>x w. case value_sem m x (get w) of (r, mem) \<Rightarrow> (r, put mem w))"
  unfolding callback_ok_def
proof (intro allI impI, elim conjE)
  fix z x g w
  assume R: "R z ((x # g) # B)" and I: "I w"
  obtain r mem where v: "value_sem m x (get w) = (r, mem)" by fastforce
  from value_decode_step [OF assms(1) R assms(2) [OF I]] obtain z' where
    z': "component_entry_decode_value zc m z (get w) = Some (r, z', mem)" "r = OK \<longrightarrow> R z' (g # B)" by (auto simp: v)
  have "length mem = Suc m" using length_value_sem [OF assms(2) [OF I], of x] by (simp add: v)
  then show "\<exists>z'. component_entry_decode_value zc m z (get w) \<bind> (\<lambda>(r, z, mem). Some (r, z, put mem w))
      = Some (fst (case value_sem m x (get w) of (r, mem) \<Rightarrow> (r, put mem w)), z',
          snd (case value_sem m x (get w) of (r, mem) \<Rightarrow> (r, put mem w)))
      \<and> I (snd (case value_sem m x (get w) of (r, mem) \<Rightarrow> (r, put mem w)))
      \<and> (fst (case value_sem m x (get w) of (r, mem) \<Rightarrow> (r, put mem w)) = OK \<longrightarrow> R z' (g # B))"
    using z' assms(3) [OF I] by (simp add: v)
qed

lemma size_callback_ok:
  assumes "decoder_ok zc n R"
  shows "callback_ok R B item_inv (int_in (- (2 ^ 31)) (2 ^ 31)) (\<lambda>z m.
    let (r, z, v) = zcbor_map_int32_decode zc z (oc_size (mi_component m)) in
    Some (r, z, m\<lparr>mi_component := (mi_component m)\<lparr>oc_size := v\<rparr>\<rparr>)) size_sem"
  unfolding callback_ok_def
proof (intro allI impI, elim conjE)
  fix z x g m
  assume x: "int_in (- (2 ^ 31)) (2 ^ 31) x" and R: "R z ((x # g) # B)" and I: "item_inv m"
  show "\<exists>z'. (let (r, z, v) = zcbor_map_int32_decode zc z (oc_size (mi_component m)) in
       Some (r, z, m\<lparr>mi_component := (mi_component m)\<lparr>oc_size := v\<rparr>\<rparr>)) = Some (fst (size_sem x m), z', snd (size_sem x m))
      \<and> item_inv (snd (size_sem x m)) \<and> (fst (size_sem x m) = OK \<longrightarrow> R z' (g # B))"
    by (cases rule: reads_int_step [OF decoder_okD(5) [OF assms] R, of "oc_size (mi_component m)"])
       (use x I in \<open>simp_all add: zcbor_map_int32_decode_def size_sem_def item_inv_def\<close>)
qed

lemma item_table_ok:
  assumes "decoder_ok zc n R"
  shows "table_ok R B item_inv item_values (manifest_entries zc) item_table"
proof -
  note cb = value_callback_ok [OF assms, where I = item_inv and B = B]
  have "callback_ok R B item_inv P (\<lambda>z m. do {
         (r, z, mem) \<leftarrow> component_entry_decode_value zc 32 z (oc_package (mi_component m));
         Some (r, z, m\<lparr>mi_component := (mi_component m)\<lparr>oc_package := mem\<rparr>\<rparr>) }) package_sem" for P
    unfolding package_sem_def [abs_def]
    by (rule cb [where put = "\<lambda>mem m. m\<lparr>mi_component := (mi_component m)\<lparr>oc_package := mem\<rparr>\<rparr>"]) (simp_all add: item_inv_def)
  moreover have "callback_ok R B item_inv P (\<lambda>z m. do {
         (r, z, mem) \<leftarrow> component_entry_decode_value zc 32 z (oc_version (mi_component m));
         Some (r, z, m\<lparr>mi_component := (mi_component m)\<lparr>oc_version := mem\<rparr>\<rparr>) }) item_version_sem" for P
    unfolding item_version_sem_def [abs_def]
    by (rule cb [where put = "\<lambda>mem m. m\<lparr>mi_component := (mi_component m)\<lparr>oc_version := mem\<rparr>\<rparr>"]) (simp_all add: item_inv_def)
  moreover have "callback_ok R B item_inv P (\<lambda>z m. do {
         (r, z, mem) \<leftarrow> component_entry_decode_value zc 64 z (mi_hash_str m);
         Some (r, z, m\<lparr>mi_hash_str := mem\<rparr>) }) hash_sem" for P
    unfolding hash_sem_def [abs_def]
    by (rule cb [where put = "\<lambda>mem m. m\<lparr>mi_hash_str := mem\<rparr>"]) (simp_all add: item_inv_def)
  moreover note size_callback_ok [OF assms, of B]
  moreover have "item_values (Key_u32 4) = int_in (- (2 ^ 31)) (2 ^ 31)" by (auto simp: item_values_def)
  ultimately show ?thesis by (simp add: table_ok_def manifest_entries_def item_table_def ota_consts)
qed

text \<open>
  A component of a manifest: package, version, hash in hexadecimal and size, as the map with the keys
  1 to 4, and the structure the decoder builds for it.
\<close>

type_synonym manifest_entry = "u8 list \<times> u8 list \<times> u8 list \<times> int"

definition component_cbor :: "manifest_entry \<Rightarrow> cbor" where
  "component_cbor = (\<lambda>(pkg, ver, hex, sz).
     C_map [(C_int 1, C_tstr pkg), (C_int 2, C_tstr ver), (C_int 3, C_tstr hex), (C_int 4, C_int sz)])"

definition component_fits :: "'z ota_env \<Rightarrow> manifest_entry \<Rightarrow> bool" where
  "component_fits env = (\<lambda>(pkg, ver, hex, sz). length pkg \<le> 32 \<and> length ver \<le> 32 \<and> length hex = 64
     \<and> (\<exists>hash. oe_hex2bin env hex = Some hash \<and> length hash = 32) \<and> - (2 ^ 31) \<le> sz \<and> sz < 2 ^ 31)"

definition component_struct :: "'z ota_env \<Rightarrow> manifest_entry \<Rightarrow> golioth_ota_component" where
  "component_struct env = (\<lambda>(pkg, ver, hex, sz). \<lparr>oc_package = pkg @ replicate (33 - length pkg) 0,
     oc_version = ver @ replicate (33 - length ver) 0, oc_hash = the (oe_hex2bin env hex), oc_size = of_int sz\<rparr>)"

lemma zero_tail: "length bs \<le> n \<Longrightarrow> bs @ 0 # drop (length bs + 1) (replicate (Suc n) 0) = bs @ replicate (Suc n - length bs) 0"
  by (simp add: Suc_diff_le flip: replicate_Suc)

lemma item_run:
  assumes "component_fits env (pkg, ver, hex, sz)" and "length junk = 65"
  shows "map_run item_table 0 [(C_int 1, C_tstr pkg), (C_int 2, C_tstr ver), (C_int 3, C_tstr hex), (C_int 4, C_int sz)]
      (manifest_item_init junk)
    = (Inr 4, \<lparr>mi_component = (component_struct env (pkg, ver, hex, sz))\<lparr>oc_hash := replicate 32 0\<rparr>, mi_hash_str = hex @ [0]\<rparr>, [])"
proof -
  have "value_sem 32 (C_tstr pkg) (replicate 33 0) = (OK, pkg @ replicate (33 - length pkg) 0)"
    "value_sem 32 (C_tstr ver) (replicate 33 0) = (OK, ver @ replicate (33 - length ver) 0)"
    using zero_tail [of pkg 32] zero_tail [of ver 32] assms(1) by (simp_all add: value_sem_def component_fits_def)
  moreover have "value_sem 64 (C_tstr hex) junk = (OK, hex @ [0])"
    using assms by (simp add: value_sem_def component_fits_def)
  moreover have "(1 :: u32) \<noteq> 2" "(1 :: u32) \<noteq> 3" "(1 :: u32) \<noteq> 4" "(2 :: u32) \<noteq> 3" "(2 :: u32) \<noteq> 4" "(3 :: u32) \<noteq> 4"
    by simp_all
  ultimately show ?thesis
    by (simp add: item_table_def key_of_def package_sem_def item_version_sem_def size_sem_def hash_sem_def
        manifest_item_init_def component_struct_def ota_consts eval_nat_numeral)
qed

lemma manifest_item_step:
  assumes "decoder_ok (oe_zcbor env) n R" and "definite (oe_zcbor env) R" and "length B < n" and "length (oe_junk env) = 65"
    and "component_fits env c" and "R z ((component_cbor c # g) # B)"
  obtains z' m where "zcbor_map_decode (oe_zcbor env) (manifest_entries (oe_zcbor env)) (oe_key env) z
      (manifest_item_init (oe_junk env)) = Some (OK, z', m)"
    and "(mi_component m)\<lparr>oc_hash := the (oe_hex2bin env (take 64 (mi_hash_str m)))\<rparr> = component_struct env c"
    and "\<exists>hash. oe_hex2bin env (take 64 (mi_hash_str m)) = Some hash \<and> length hash = 32"
    and "length (mi_hash_str m) = 65" and "R z' (g # B)"
proof -
  obtain pkg ver hex sz where c: "c = (pkg, ver, hex, sz)" by (cases c) auto
  let ?ps = "[(C_int 1, C_tstr pkg), (C_int 2, C_tstr ver), (C_int 3, C_tstr hex), (C_int 4, C_int sz)]"
  have R: "R z ((C_map ?ps # g) # B)" using assms(6) by (simp add: c component_cbor_def)
  have k: "same_kind item_table ?ps"
    unfolding same_kind_def by (intro exI [of _ True]) (simp add: item_table_def key_of_def)
  have v: "values_ok item_values ?ps"
    using assms(5) by (simp add: values_ok_def item_values_def key_of_def int_in_def c component_fits_def)
  have I: "item_inv (manifest_item_init (oe_junk env))"
    using assms(4) by (simp add: item_inv_def manifest_item_init_def ota_consts)
  from map_decode_step [OF assms(1) R assms(3) item_table_ok [OF assms(1)] k v I, where key = "oe_key env"]
  obtain z' where z': "zcbor_map_decode (oe_zcbor env) (manifest_entries (oe_zcbor env)) (oe_key env) z
      (manifest_item_init (oe_junk env)) = Some (OK, z', \<lparr>mi_component = (component_struct env c)\<lparr>oc_hash := replicate 32 0\<rparr>,
        mi_hash_str = hex @ [0]\<rparr>)" "R z' (g # B)"
    using item_run [OF assms(5) [unfolded c] assms(4)] assms(2) by (auto simp: map_result_def item_table_def c)
  have "length hex = 64" "\<exists>hash. oe_hex2bin env hex = Some hash \<and> length hash = 32"
    using assms(5) by (auto simp: c component_fits_def)
  then show ?thesis by (intro that [OF z'(1)]) (use z'(2) in \<open>auto simp: component_struct_def c\<close>)
qed

definition receive_all where
  "receive_all env comps cs g = fold (\<lambda>c g. snd (golioth_ota_manifest_receive_one comps (component_struct env c) g)) cs g"

lemma manifest_items_step:
  assumes "decoder_ok (oe_zcbor env) n R" and "definite (oe_zcbor env) R" and "length B < n" and "length (oe_junk env) = 65"
    and "list_all (component_fits env) cs" and "R z (map component_cbor cs # B)"
  shows "\<exists>z'. manifest_items env comps z g = Some (True, z', receive_all env comps cs g) \<and> R z' ([] # B)"
  using assms(5,6)
proof (induction cs arbitrary: z g)
  case Nil
  then show ?case using end_step [OF assms(1), of z "[]" B]
    by (subst manifest_items.simps) (simp add: receive_all_def)
next
  case (Cons c cs)
  have R: "R z ((component_cbor c # map component_cbor cs) # B)" and c: "component_fits env c" using Cons.prems by simp_all
  obtain z' m where z': "zcbor_map_decode (oe_zcbor env) (manifest_entries (oe_zcbor env)) (oe_key env) z
      (manifest_item_init (oe_junk env)) = Some (OK, z', m)"
    "(mi_component m)\<lparr>oc_hash := the (oe_hex2bin env (take 64 (mi_hash_str m)))\<rparr> = component_struct env c"
    "\<exists>hash. oe_hex2bin env (take 64 (mi_hash_str m)) = Some hash \<and> length hash = 32"
    "length (mi_hash_str m) = 65" "R z' (map component_cbor cs # B)"
    by (rule manifest_item_step [OF assms(1-4) c R])
  obtain hash where h: "oe_hex2bin env (take 64 (mi_hash_str m)) = Some hash" "length hash = 32" using z'(3) by blast
  have "manifest_items env comps z g = manifest_items env comps z'
      (snd (golioth_ota_manifest_receive_one comps (component_struct env c) g))"
    using end_step [OF assms(1) R] z'(1,2,4) h
    by (subst manifest_items.simps) (simp add: mem_read_def ota_consts)
  then show ?case using Cons.IH [OF _ z'(5)] Cons.prems(1) by (simp add: receive_all_def)
qed

definition other_key :: "cbor \<times> cbor \<Rightarrow> bool" where
  "other_key p \<longleftrightarrow> (\<exists>k. fst p = C_int k \<and> 0 \<le> k \<and> k < 2 ^ 32 \<and> k \<noteq> 3)"

lemma other_key_word:
  assumes k: "0 \<le> k" "k < 2 ^ 32" "k \<noteq> 3"
  shows "(of_int k :: u32) \<noteq> 3"
proof
  assume "(of_int k :: u32) = 3"
  then have "uint (of_int k :: u32) = uint (3 :: u32)" by simp
  with k show False by (simp add: unsigned_of_int take_bit_int_eq_self)
qed

lemma manifest_loop_step:
  assumes "decoder_ok (oe_zcbor env) 3 R" and "definite (oe_zcbor env) R" and "length (oe_junk env) = 65"
    and "list_all (component_fits env) cs" and "list_all other_key pre"
    and "R z (flat (pre @ (C_int 3, C_list (map component_cbor cs)) # post) # [[]])"
  shows "manifest_loop env comps handlers z g = Some (golioth_ota_manifest_complete comps handlers (receive_all env comps cs g))"
  using assms(5,6)
proof (induction pre arbitrary: z)
  case Nil
  let ?z = "oe_zcbor env"
  have R: "R z ((C_int 3 # C_list (map component_cbor cs) # flat post) # [[]])" using Nil by simp
  obtain z1 where z1: "zd_uint32 ?z z 0 = (True, 3, z1)" "R z1 ((C_list (map component_cbor cs) # flat post) # [[]])"
    by (cases rule: reads_int_step [OF decoder_okD(4) [OF assms(1)] R, of 0]) (auto simp: int_in_def)
  obtain z2 where z2: "zd_list_start ?z z1 = (True, z2)" "R z2 (map component_cbor cs # flat post # [[]])"
    by (rule list_start_step [OF assms(1) z1(2)]) auto
  from manifest_items_step [OF assms(1,2) _ assms(3,4) z2(2), of comps g] obtain z3 where
    z3: "manifest_items env comps z2 g = Some (True, z3, receive_all env comps cs g)" "R z3 ([] # flat post # [[]])" by auto
  have e3: "zcbor_list_or_map_end ?z z3 = Some True" using end_step [OF assms(1) z3(2)] by simp
  then have "manifest_loop env comps handlers z3 g' = Some g'" for g'
    by (subst manifest_loop.simps) simp
  then show ?case using end_step [OF assms(1) R] z1 z2 z3 e3
    by (subst manifest_loop.simps) (simp add: Let_def)
next
  case (Cons p pre)
  let ?z = "oe_zcbor env"
  obtain k v where p: "p = (C_int k, v)" "0 \<le> k" "k < 2 ^ 32" "k \<noteq> 3"
    using Cons.prems(1) by (cases p) (auto simp: other_key_def)
  let ?rest = "pre @ (C_int 3, C_list (map component_cbor cs)) # post"
  have R: "R z ((C_int k # v # flat ?rest) # [[]])" using Cons.prems(2) by (simp add: p)
  obtain z1 where z1: "zd_uint32 ?z z 0 = (True, of_int k, z1)" "R z1 ((v # flat ?rest) # [[]])"
    by (cases rule: reads_int_step [OF decoder_okD(4) [OF assms(1)] R, of 0]) (use p in \<open>auto simp: int_in_def\<close>)
  obtain z2 where z2: "zd_any_skip ?z z1 = (True, z2)" "R z2 (flat ?rest # [[]])" by (rule skip_step [OF assms(1) z1(2)])
  have "manifest_loop env comps handlers z g = manifest_loop env comps handlers z2 g"
    using end_step [OF assms(1) R] z1(1) z2(1) other_key_word [OF p(2-4)]
    by (subst manifest_loop.simps) (simp add: Let_def)
  then show ?case using Cons.IH [OF _ z2(2)] Cons.prems(1) by simp
qed

text \<open>What a manifest stores for a registered component: the last entry for its name counts.\<close>

definition manifest_data :: "'z ota_env \<Rightarrow> manifest_entry \<Rightarrow> ota_component_data \<Rightarrow> ota_component_data" where
  "manifest_data env = (\<lambda>(pkg, ver, hex, sz) d. d\<lparr>od_target := take 31 (ver @ replicate 32 0) @ [0],
     od_target_hash := the (oe_hex2bin env hex), od_size := of_int sz\<rparr>)"

definition no_nul :: "manifest_entry \<Rightarrow> bool" where
  "no_nul = (\<lambda>(pkg, ver, hex, sz). 0 \<notin> set pkg \<and> 0 \<notin> set ver)"

lemma c_str_zeros: "0 \<notin> set xs \<Longrightarrow> 0 < n \<Longrightarrow> c_str (xs @ replicate n 0) = xs"
  using c_str_append [of xs "replicate (n - 1) 0"] by (cases n) simp_all

lemma manifest_data_idem: "manifest_data env c (manifest_data env c' d) = manifest_data env c d"
  by (cases c; cases c') (simp add: manifest_data_def)

lemma receive_one_data:
  assumes "component_fits env c" and "no_nul c" and "length (ota_data g) = length comps" and "i < length comps"
  shows "ota_data (snd (golioth_ota_manifest_receive_one comps (component_struct env c) g)) ! i
    = (if fst c = rc_name (comps ! i) then manifest_data env c (ota_data g ! i) else ota_data g ! i)"
proof -
  obtain pkg ver hex sz where c: "c = (pkg, ver, hex, sz)" by (cases c) auto
  have "c_str (oc_package (component_struct env c)) = pkg" "c_str (oc_version (component_struct env c)) = ver"
    using assms(1,2) by (simp_all add: c component_struct_def component_fits_def no_nul_def c_str_zeros)
  moreover have "(strncpy_bytes ver 32)[31 := 0] = take 31 (ver @ replicate 32 0) @ [0]"
    using strncpy_terminated [of 32 ver] by simp
  moreover have "length (the (oe_hex2bin env hex)) = 32" using assms(1) by (auto simp: c component_fits_def)
  ultimately show ?thesis using assms(3,4)
    by (simp add: golioth_ota_manifest_receive_one_def ota_consts c manifest_data_def component_struct_def)
qed

lemma receive_all_frame:
  "length (ota_data g) = length comps \<Longrightarrow> length (ota_data (receive_all env comps cs g)) = length comps"
  "component_download (receive_all env comps cs g) = component_download g" "g_app (receive_all env comps cs g) = g_app g"
  unfolding receive_all_def by (induction cs arbitrary: g) (simp_all add: golioth_ota_manifest_receive_one_def)

lemma receive_all_data:
  assumes "list_all (\<lambda>c. component_fits env c \<and> no_nul c) cs" and "length (ota_data g) = length comps" and "i < length comps"
  shows "ota_data (receive_all env comps cs g) ! i
    = (case List.find (\<lambda>c. fst c = rc_name (comps ! i)) (rev cs) of
         None \<Rightarrow> ota_data g ! i | Some c \<Rightarrow> manifest_data env c (ota_data g ! i))"
  using assms(1)
proof (induction cs rule: rev_induct)
  case (snoc c cs)
  have "receive_all env comps (cs @ [c]) g
      = snd (golioth_ota_manifest_receive_one comps (component_struct env c) (receive_all env comps cs g))"
    by (simp add: receive_all_def)
  moreover have "length (ota_data (receive_all env comps cs g)) = length comps"
    using assms(2) by (rule receive_all_frame(1))
  ultimately show ?case using snoc assms(3)
    by (auto simp: receive_one_data manifest_data_idem split: option.splits)
qed (simp add: receive_all_def)

lemma manifest_received_step:
  assumes "decoder_ok (oe_zcbor env) 3 R" and "definite (oe_zcbor env) R" and "length (oe_junk env) = 65"
    and "list_all (\<lambda>c. component_fits env c \<and> no_nul c) cs" and "list_all other_key pre"
    and "R (zd_new (oe_zcbor env) 3 bs) [[C_map (pre @ (C_int 3, C_list (map component_cbor cs)) # post)]]"
    and "length (ota_data g) = length comps"
  shows "\<exists>g'. ota_receive_manifest env comps handlers sid (Some bs) (length bs) is_last g
      = Some (fold (\<lambda>receive. receive (manifest_components comps g')) handlers g')
    \<and> g_app g' = g_app g \<and> component_download g' = component_download g \<and> length (ota_data g') = length comps
    \<and> (\<forall>i<length comps. ota_data g' ! i = (case List.find (\<lambda>c. fst c = rc_name (comps ! i)) (rev cs) of
         None \<Rightarrow> ota_data g ! i | Some c \<Rightarrow> manifest_data env c (ota_data g ! i)))"
proof -
  let ?z = "oe_zcbor env"
  let ?g = "receive_all env comps cs g"
  obtain z1 where z1: "zd_map_start ?z (zd_new ?z 3 bs) = (True, z1)"
      "R z1 (flat (pre @ (C_int 3, C_list (map component_cbor cs)) # post) # [[]])"
    by (rule map_start_step [OF assms(1,6)]) auto
  have "list_all (component_fits env) cs" using assms(4) by (simp add: list_all_iff)
  from manifest_loop_step [OF assms(1-3) this assms(5) z1(2), of comps handlers g] z1(1)
  have "ota_receive_manifest env comps handlers sid (Some bs) (length bs) is_last g
      = Some (golioth_ota_manifest_complete comps handlers ?g)"
    by (simp add: ota_receive_manifest_def mem_read_def)
  then show ?thesis
    using receive_all_data [OF assms(4,7)] receive_all_frame [where g = g and comps = comps and env = env and cs = cs] assms(7)
    by (intro exI [of _ ?g]) (simp add: golioth_ota_manifest_complete_def)
qed

text \<open>
  Property C19. A manifest reaches the application. For a manifest whose list of components (key 3,
  behind any other keys) is well-formed, and a decoder that behaves as documented on definite-length
  messages, every registered component takes over target version, hash and size from the last entry
  for its name, the others keep theirs, and then every manifest handler is called once with the whole
  table. The target version is cut to 31 bytes, one less than a version may have.
\<close>

theorem ota_manifest_received:
  assumes "decoder_ok (oe_zcbor env) 3 R" and "definite (oe_zcbor env) R" and "length (oe_junk env) = 65"
    and "list_all (\<lambda>c. component_fits env c \<and> no_nul c) cs" and "list_all other_key pre"
    and "R (zd_new (oe_zcbor env) 3 bs) [[C_map (pre @ (C_int 3, C_list (map component_cbor cs)) # post)]]"
    and "length (ota_data g) = length comps"
  shows "\<exists>g'. ota_receive_manifest env comps handlers sid (Some bs) (length bs) is_last g
      = Some (fold (\<lambda>receive. receive (manifest_components comps g')) handlers g')
    \<and> g_app g' = g_app g \<and> length (ota_data g') = length comps
    \<and> (\<forall>i<length comps. ota_data g' ! i = (case List.find (\<lambda>c. fst c = rc_name (comps ! i)) (rev cs) of
         None \<Rightarrow> ota_data g ! i | Some c \<Rightarrow> manifest_data env c (ota_data g ! i)))"
  using manifest_received_step [OF assms, of handlers sid is_last] by blast

definition demo_ota_env :: "cbor \<Rightarrow> position ota_env" where
  "demo_ota_env x = \<lparr>oe_zcbor = zcbor_pos (\<lambda>_. x), oe_hex2bin = (\<lambda>hex. Some (take 32 hex)), oe_key = demo_key,
     oe_junk = replicate 65 0xff\<rparr>"

lemma ota_manifest_received_witness:
  "let x = C_map [(C_int 1, C_int 9), (C_int 3, C_list [component_cbor (lit ''b'', lit ''2'', replicate 64 0x30, 77)])] in
   \<exists>g'. ota_receive_manifest (demo_ota_env x) [demo_component ''a'', demo_component ''b'']
       [\<lambda>cs g. g\<lparr>g_app := map mc_target cs\<rparr>] 0 (Some [1]) (length [1 :: u8]) True demo_ota = Some g'
     \<and> g_app g' = [lit ''1'', lit ''2'']"
proof -
  let ?c = "(lit ''b'', lit ''2'', replicate 64 0x30, 77) :: manifest_entry"
  let ?x = "C_map ([(C_int 1, C_int 9)] @ (C_int 3, C_list (map component_cbor [?c])) # [])"
  let ?comps = "[demo_component ''a'', demo_component ''b'']"
  have "\<exists>g'. ota_receive_manifest (demo_ota_env ?x) ?comps [\<lambda>cs g. g\<lparr>g_app := map mc_target cs\<rparr>] 0 (Some [1])
        (length [1 :: u8]) True demo_ota
      = Some (fold (\<lambda>receive. receive (manifest_components ?comps g')) [\<lambda>cs g. g\<lparr>g_app := map mc_target cs\<rparr>] g')
    \<and> g_app g' = g_app demo_ota \<and> length (ota_data g') = length ?comps
    \<and> (\<forall>i<length ?comps. ota_data g' ! i = (case List.find (\<lambda>c. fst c = rc_name (?comps ! i)) (rev [?c]) of
         None \<Rightarrow> ota_data demo_ota ! i | Some c \<Rightarrow> manifest_data (demo_ota_env ?x) c (ota_data demo_ota ! i)))"
  proof (rule ota_manifest_received [where R = "(=)" and pre = "[(C_int 1, C_int 9)]" and post = "[]"])
    show "decoder_ok (oe_zcbor (demo_ota_env ?x)) 3 (=)" "definite (oe_zcbor (demo_ota_env ?x)) (=)"
      by (simp_all add: demo_ota_env_def decoder_ok_pos definite_pos)
    show "zd_new (oe_zcbor (demo_ota_env ?x)) 3 [1] = [[?x]]" by (simp add: demo_ota_env_def zcbor_pos_def)
  qed (simp_all add: demo_ota_env_def component_fits_def no_nul_def lit_def other_key_def demo_ota_def)
  then obtain g' where g': "ota_receive_manifest (demo_ota_env ?x) ?comps [\<lambda>cs g. g\<lparr>g_app := map mc_target cs\<rparr>] 0 (Some [1])
        (length [1 :: u8]) True demo_ota = Some (g'\<lparr>g_app := map mc_target (manifest_components ?comps g')\<rparr>)"
    "length (ota_data g') = 2"
    "ota_data g' ! 0 = demo_ota_data" "ota_data g' ! 1 = manifest_data (demo_ota_env ?x) ?c demo_ota_data"
    by (auto simp: demo_component_def lit_def demo_ota_def less_Suc_eq)
  then obtain d0 d1 where "ota_data g' = [d0, d1]" by (auto simp: numeral_2_eq_2 length_Suc_conv)
  with g'(3,4) have "map mc_target (manifest_components ?comps g') = [lit ''1'', lit ''2'']"
    by (simp add: manifest_components_def demo_ota_data_def manifest_data_def lit_def c_str_def)
  with g'(1) show ?thesis by (simp add: Let_def)
qed

section \<open>Reports\<close>

definition status_report :: "u8 list \<times> u8 list \<times> u8 list \<times> golioth_ota_state \<Rightarrow> cbor" where
  "status_report = (\<lambda>(name, current, target, state). C_map (
     [(C_tstr (lit ''s''), C_int (uint (ota_state_value state))), (C_tstr (lit ''r''), C_int (uint (0 :: u32))),
      (C_tstr (lit ''pkg''), C_tstr name), (C_tstr (lit ''v''), C_tstr current)]
     @ (if state \<noteq> GOLIOTH_OTA_STATE_IDLE then [(C_tstr (lit ''t''), C_tstr target)] else [])))"

definition report_entry :: "(cbor \<Rightarrow> u8 list) \<Rightarrow> u8 list \<times> u8 list \<times> u8 list \<times> golioth_ota_state \<Rightarrow> entry" where
  "report_entry bytes st = (lit ''.u/c/'' @ take 32 (fst st), 60, bytes (status_report st))"

definition statuses where
  "statuses comps g = map (\<lambda>i. the (golioth_ota_get_status comps i g)) [0..<length comps]"

lemma ota_path_eq: "0 \<notin> set name \<Longrightarrow> ota_path name = Some (lit ''.u/c/'' @ take 32 name)"
proof -
  assume n: "0 \<notin> set name"
  let ?s = "take 32 (name @ replicate 32 0)"
  have s: "?s = take 32 name @ replicate (32 - length name) 0" by simp
  have "c_str (lit ''.u/c/'' @ ?s @ [0]) = lit ''.u/c/'' @ take 32 name"
  proof -
    have "lit ''.u/c/'' @ ?s @ [0] = (lit ''.u/c/'' @ take 32 name) @ replicate (Suc (32 - length name)) 0"
      by (simp add: replicate_append_same)
    moreover have "0 \<notin> set (lit ''.u/c/'' @ take 32 name)" using n by (auto simp: lit_def dest: in_set_takeD)
    ultimately show ?thesis using c_str_zeros [of "lit ''.u/c/'' @ take 32 name" "Suc (32 - length name)"] by simp
  qed
  then show ?thesis
    by (simp add: ota_path_def mem_write_def strncpy_bytes_def GOLIOTH_OTA_COMPONENT_PATH_PREFIX_def ota_consts del: take_append)
       (simp add: lit_def)
qed

lemma status_puts_adds:
  assumes "encoder_lib_ok enc bytes E"
  shows "\<exists>ps. status_report st = C_map ps \<and> list_all2 (adds E) (status_puts enc st) (flat ps)"
proof -
  obtain name current target state where st: "st = (name, current, target, state)" by (cases st) auto
  show ?thesis
    by (cases "state = GOLIOTH_OTA_STATE_IDLE")
       (simp_all add: st status_report_def status_puts_def encoder_lib_okD [OF assms] del: uint_0_eq unsigned_0)
qed

text \<open>The encoder has room for the report of a component.\<close>

definition status_fits where
  "status_fits enc st \<longleftrightarrow> encodes enc 1 1 (status_puts enc st)"

text \<open>The components that are reported: those in front of the first one the encoder fails on.\<close>

definition reported where
  "reported enc comps g = takeWhile (status_fits enc) (statuses comps g)"

lemma ota_uplink_step:
  assumes "encoder_lib_ok enc bytes E" and "\<forall>c\<in>set comps. 0 \<notin> set (rc_name c)" and "length (ota_data g) = length comps"
    and "uplink_inv s" and "open_entries s es"
  shows "\<exists>s' es' new. ota_uplink_loop enc OK comps i g s = Some s' \<and> uplink_safe s s' \<and> open_entries s' es'
    \<and> writer_frame s s' \<and> entry_log s' = entry_log s @ map (report_entry bytes) new
    \<and> subseq new (takeWhile (status_fits enc) (drop i (statuses comps g)))
    \<and> (mallocs s \<longrightarrow> new = takeWhile (status_fits enc) (drop i (statuses comps g)))"
  using assms(4,5)
proof (induction "length comps - i" arbitrary: i s es)
  case 0
  then have "golioth_ota_get_status comps i g = None" by (simp add: golioth_ota_get_status_def)
  then have "ota_uplink_loop enc OK comps i g s = Some s" by (subst ota_uplink_loop.simps) simp
  moreover have "drop i (statuses comps g) = []" using 0 by (simp add: statuses_def)
  ultimately show ?case using 0 uplink_safe_refl writer_frame_refl by fastforce
next
  case (Suc k)
  then have i: "i < length comps" by simp
  then obtain name current target state where
    st: "golioth_ota_get_status comps i g = Some (name, current, target, state)" and name: "name = rc_name (comps ! i)"
    by (auto simp: golioth_ota_get_status_def Let_def)
  let ?st = "(name, current, target, state)"
  have dr: "drop i (statuses comps g) = ?st # drop (Suc i) (statuses comps g)"
    using i st by (simp add: statuses_def drop_map upt_conv_Cons)
  have nn: "0 \<notin> set name" using assms(2) i by (simp add: name)
  note unf = ota_uplink_loop.simps [of enc OK comps i g s]
  show ?case
  proof (cases "encode_steps ([ze_map_start enc 1] @ status_puts enc ?st @ [ze_map_end enc 1]) (ze_new enc 1 64)")
    case None
    then have "ota_uplink_loop enc OK comps i g s = Some s" using unf st by simp
    moreover have "\<not> status_fits enc ?st" using None by (simp add: status_fits_def encodes_def)
    ultimately show ?thesis using Suc.prems uplink_safe_refl [OF Suc.prems(1)] writer_frame_refl [of s]
      by (intro exI [of _ s] exI [of _ es] exI [of _ "[]"]) (simp add: dr)
  next
    case (Some zse)
    obtain ps where ps: "status_report ?st = C_map ps" "list_all2 (adds E) (status_puts enc ?st) (flat ps)"
      using status_puts_adds [OF assms(1)] by blast
    note w = encode_steps_item [OF assms(1) Some ps(2), folded ps(1)]
    have len: "length (lit ''.u/c/'' @ take 32 name) < 256" by (simp add: lit_def)
    obtain r s1 es1 where
      s1: "pouch_uplink_entry_write OK (Some (lit ''.u/c/'' @ take 32 name)) 60 (Some (bytes (status_report ?st)))
          (length (bytes (status_report ?st))) s = Some (r, s1)"
        "entry_log s1 = entry_log s @ (if r = OK then [(lit ''.u/c/'' @ take 32 name, 60, bytes (status_report ?st))] else [])"
        "open_entries s1 es1" "uplink_safe s s1" "r = OK \<or> \<not> mallocs s" "writer_frame s s1"
      by (rule report_step [OF Suc.prems w(2,3) len])
    have "k = length comps - Suc i" using Suc.hyps(2) by simp
    from Suc.hyps(1) [OF this uplink_safe_inv [OF s1(4)] s1(3)] obtain s' es' new where
      s': "ota_uplink_loop enc OK comps (Suc i) g s1 = Some s'" "uplink_safe s1 s'" "open_entries s' es'"
        "entry_log s' = entry_log s1 @ map (report_entry bytes) new"
        "subseq new (takeWhile (status_fits enc) (drop (Suc i) (statuses comps g)))"
        "mallocs s1 \<longrightarrow> new = takeWhile (status_fits enc) (drop (Suc i) (statuses comps g))"
        "writer_frame s1 s'"
      by blast
    have loop: "ota_uplink_loop enc OK comps i g s = Some s'"
      using unf st Some s1(1) s'(1) by (simp add: ota_path_eq [OF nn] w(1) POUCH_CONTENT_TYPE_CBOR_def)
    have tw: "takeWhile (status_fits enc) (drop i (statuses comps g))
        = ?st # takeWhile (status_fits enc) (drop (Suc i) (statuses comps g))"
      using Some by (simp add: dr status_fits_def encodes_def)
    show ?thesis
      using loop s'(3-6) s1(2,5) uplink_safe_trans [OF s1(4) s'(2)] uplink_safe_mallocs [OF s1(4)]
        writer_frame_trans [OF s1(6) s'(7)]
      by (intro exI [of _ s'] exI [of _ es'] exI [of _ "(if r = OK then [?st] else []) @ new"])
         (auto simp: tw report_entry_def)
  qed
qed

lemma ota_service_ok:
  assumes "encoder_lib_ok enc bytes E" and "\<forall>c\<in>set comps. 0 \<notin> set (rc_name c)"
    and "uplink_inv s" and "open_entries s es" and "length (ota_data g) = length comps"
  shows "\<exists>s' es' new. ota_uplink enc OK comps g s = Some (g, s') \<and> uplink_safe s s' \<and> open_entries s' es'
    \<and> writer_frame s s' \<and> entry_log s' = entry_log s @ map (report_entry bytes) new \<and> subseq new (reported enc comps g)
    \<and> (mallocs s \<longrightarrow> new = reported enc comps g)"
  using ota_uplink_step [OF assms(1,2,5,3,4), of 0] by (fastforce simp: ota_uplink_def reported_def)

text \<open>
  Property C23. The state of the components is reported. \<^verbatim>\<open>ota_uplink()\<close> terminates and writes, for the registered
  components in order, at most one entry each, at \<^verbatim>\<open>.u/c/\<close> and the first 32 bytes of the name, which
  is the encoding of state, reason 0, package, current version and, unless it is idle, target version;
  nothing else is written, and the ownership invariant holds. When no allocation fails, exactly the
  components in front of the first one the encoder has no room for are reported: all of them when
  it has room for each, and no component behind one that is too long.
\<close>

theorem ota_status_reported:
  assumes "encoder_lib_ok enc bytes E" and "\<forall>c\<in>set comps. 0 \<notin> set (rc_name c)" and "length (ota_data g) = length comps"
    and "uplink_inv s" and "open_entries s es"
  shows "\<exists>s' es' new. ota_uplink enc OK comps g s = Some (g, s') \<and> uplink_safe s s' \<and> open_entries s' es'
    \<and> entry_log s' = entry_log s @ map (\<lambda>st. (lit ''.u/c/'' @ take 32 (fst st), 60, bytes (status_report st))) new
    \<and> subseq new (statuses comps g)
    \<and> (mallocs s \<longrightarrow> new = takeWhile (status_fits enc) (statuses comps g))"
proof -
  have "subseq (reported enc comps g) (statuses comps g)"
    by (simp add: reported_def prefix_imp_subseq takeWhile_is_prefix)
  moreover obtain s' es' new where
    "ota_uplink enc OK comps g s = Some (g, s')" "uplink_safe s s'" "open_entries s' es'"
    "entry_log s' = entry_log s @ map (report_entry bytes) new" "subseq new (reported enc comps g)"
    "mallocs s \<longrightarrow> new = reported enc comps g"
    using ota_service_ok [OF assms(1,2,4,5,3)] by blast
  ultimately show ?thesis
    by (intro exI [of _ s'] exI [of _ es'] exI [of _ new])
       (auto simp: report_entry_def [abs_def] reported_def intro: subseq_order.trans)
qed

lemma ota_status_reported_witness:
  "\<exists>s' es'. ota_uplink (zcbor_rec (\<lambda>_. [7])) OK [demo_component ''a'', demo_component ''b''] demo_ota
        (pouch_static (\<lambda>_. Some (\<lambda>_. 0)) ()) = Some (demo_ota, s')
    \<and> uplink_safe (pouch_static (\<lambda>_. Some (\<lambda>_. 0)) ()) s' \<and> open_entries s' es'
    \<and> entry_log s' = [(lit ''.u/c/a'', 60, [7]), (lit ''.u/c/b'', 60, [7])]"
proof -
  let ?comps = "[demo_component ''a'', demo_component ''b'']"
  have "map (\<lambda>st. (lit ''.u/c/'' @ take 32 (fst st), 60 :: u16, [7 :: u8])) (statuses ?comps demo_ota)
      = [(lit ''.u/c/a'', 60, [7]), (lit ''.u/c/b'', 60, [7])]"
    by (simp add: statuses_def golioth_ota_get_status_def demo_component_def lit_def upt_rec Let_def)
  moreover have "status_fits (zcbor_rec (\<lambda>_. [7])) st" for st
    by (cases st) (simp add: status_fits_def encodes_def zcbor_rec_def enc_put_def enc_end_def status_puts_def)
  ultimately show ?thesis
    using ota_status_reported [OF encoder_lib_ok_rec [of "\<lambda>_. [7]"], of ?comps demo_ota "pouch_static (\<lambda>_. Some (\<lambda>_. 0)) ()" "[]"]
    by (auto simp: demo_component_def lit_def demo_ota_def mallocs_def)
qed

end
