(* ===== verification/Pipeline.thy ===== *)
theory Pipeline
  imports Ota Downlink
begin

text \<open>
  The layers put together in the plaintext build: received blocks pass the two work items of
  \<^verbatim>\<open>src/downlink.c\<close>, are taken apart by the entry layer and reach the services of the Golioth SDK; and
  \<^verbatim>\<open>golioth_sync_to_cloud()\<close> lets the services write their reports and closes the pouch.
\<close>

section \<open>From the decrypt queue to the handlers\<close>

definition downlink_round ::
    "'c crypto_ops \<Rightarrow> 'w pouch_downlink_handler list \<Rightarrow> 'w \<times> 'c pouch \<Rightarrow> ('w \<times> 'c pouch) option" where
  "downlink_round ops hs = (\<lambda>(w, s). do { s \<leftarrow> run_decrypt_work ops s; run_consume_work hs w s })"

fun downlink_rounds ::
    "nat \<Rightarrow> 'c crypto_ops \<Rightarrow> 'w pouch_downlink_handler list \<Rightarrow> 'w \<times> 'c pouch \<Rightarrow> ('w \<times> 'c pouch) option" where
  "downlink_rounds 0 ops hs x = Some x"
| "downlink_rounds (Suc n) ops hs x = do { x \<leftarrow> downlink_round ops hs x; downlink_rounds n ops hs x }"

text \<open>Blocks of entries wait in the decrypt queue, and nothing is half-way.\<close>

definition blocks_waiting :: "crypto_none_state pouch \<Rightarrow> entry list list \<Rightarrow> bool" where
  "blocks_waiting s ess \<longleftrightarrow> downlink_inv crypto_none s \<and> dl_consume_queue (p_downlink s) = []
     \<and> dl_decrypt_work (p_downlink s) = (dl_decrypt_queue (p_downlink s) \<noteq> [])
     \<and> map (buf_contents (p_heap s)) (dl_decrypt_queue (p_downlink s)) = map (\<lambda>es. block_wire 0xc0 (entries_wire es)) ess
     \<and> list_all (list_all entry_valid) ess"

lemma downlink_round_step:
  assumes "blocks_waiting s (es # ess)"
  obtains s' where "downlink_round crypto_none hs (w, s) = Some (deliver_entries hs es w, s')"
    and "blocks_waiting s' ess" and "downlink_safe crypto_none s s'"
    and "dl_pouch_buf (p_downlink s') = dl_pouch_buf (p_downlink s)"
proof -
  obtain a q where q: "dl_decrypt_queue (p_downlink s) = a # q"
    "buf_contents (p_heap s) a = block_wire 0xc0 (entries_wire es)"
    "map (buf_contents (p_heap s)) q = map (\<lambda>es. block_wire 0xc0 (entries_wire es)) ess"
    using assms by (cases "dl_decrypt_queue (p_downlink s)") (auto simp: blocks_waiting_def)
  have inv: "downlink_inv crypto_none s" and cq: "dl_consume_queue (p_downlink s) = []"
    and dw: "dl_decrypt_work (p_downlink s)" and val: "list_all entry_valid es"
    using assms q by (auto simp: blocks_waiting_def)
  let ?P = "received_role (co_auth_tag_len crypto_none)"
  let ?S = "opt_role (dl_pouch_buf (p_downlink s)) (collect_role (dl_max crypto_none)) @ list_role q ?P"
  have roles: "mset (downlink_roles crypto_none s) = mset ([(a, ?P)] @ ?S)"
    by (simp add: downlink_roles_def q(1) cq)
  have own: "own (p_heap s) ((a, ?P) # ?S)"
    using own_perm [OF inv [unfolded downlink_inv_def] roles] by simp
  from hstep_free [OF own] obtain h where h: "buf_free (Some a) (p_heap s) = Some h"
      "hstep (p_heap s) ((a, ?P) # ?S) h ?S" "store h = (store (p_heap s))(a := None)" by blast
  obtain b where b: "store (p_heap s) a = Some b" using ownD [OF own, of a ?P] by auto
  have push: "pouch_downlink_block_push hs a (p_heap s) w = Some (deliver_entries hs es w)"
    by (rule block_push_entries_step [OF own_heap_ok [OF own] b _ val]) (use q(2) b in \<open>simp add: buf_contents_def\<close>)
  define s' where "s' = set_downlink (\<lambda>d. d\<lparr>dl_decrypt_queue := q, dl_decrypt_work := (q \<noteq> []), dl_consume_queue := [],
      dl_consume_work := False\<rparr>) (s\<lparr>p_heap := h\<rparr>)"
  have sel: "p_heap s' = h" "dl_pouch_buf (p_downlink s') = dl_pouch_buf (p_downlink s)"
    "dl_decrypt_queue (p_downlink s') = q" "dl_consume_queue (p_downlink s') = []"
    "dl_decrypt_work (p_downlink s') = (q \<noteq> [])"
    by (simp_all add: s'_def)
  have "co_decrypt_block crypto_none x c k = Some (x, c, k)" for x c k
    by (simp add: crypto_none_def none_crypto_decrypt_block_def)
  then have run: "downlink_round crypto_none hs (w, s) = Some (deliver_entries hs es w, s')"
    using q(1) cq dw push h(1)
    by (simp add: downlink_round_def run_decrypt_work_def decrypt_blocks_def run_consume_work_def consume_blocks_def
        buf_queue_get_def buf_queue_submit_def buf_queue_is_empty_def set_downlink_def s'_def Let_def)
  have safe: "downlink_safe crypto_none s s'"
    unfolding downlink_safe_def using hstep_trans [OF hstep_perm [OF inv [unfolded downlink_inv_def], of "(a, ?P) # ?S"] h(2)] roles
    by (simp add: downlink_roles_def sel)
  have "a \<notin> set q" using own by (force simp: own_Cons_iff)
  then have "map (buf_contents h) q = map (buf_contents (p_heap s)) q"
    using h(3) by (auto simp: buf_contents_def)
  then have "blocks_waiting s' ess"
    using assms downlink_safe_inv [OF safe] q(3) by (simp add: blocks_waiting_def sel)
  with run safe sel(2) that show ?thesis by blast
qed

lemma downlink_rounds_step:
  assumes "blocks_waiting s ess"
  shows "\<exists>s'. downlink_rounds (length ess) crypto_none hs (w, s) = Some (fold (deliver_entries hs) ess w, s')
    \<and> blocks_waiting s' [] \<and> downlink_safe crypto_none s s' \<and> dl_pouch_buf (p_downlink s') = dl_pouch_buf (p_downlink s)"
  using assms
proof (induction ess arbitrary: s w)
  case Nil
  then show ?case using downlink_safe_refl [of crypto_none s] by (simp add: blocks_waiting_def)
next
  case (Cons es ess)
  obtain s1 where s1: "downlink_round crypto_none hs (w, s) = Some (deliver_entries hs es w, s1)"
      "blocks_waiting s1 ess" "downlink_safe crypto_none s s1" "dl_pouch_buf (p_downlink s1) = dl_pouch_buf (p_downlink s)"
    by (rule downlink_round_step [OF Cons.prems])
  from Cons.IH [OF s1(2), of "deliver_entries hs es w"] s1 downlink_safe_trans [OF s1(3)] show ?case by auto
qed

lemma deliver_concat: "fold (deliver_entries hs) ess w = deliver_entries hs (concat ess) w"
  by (induction ess arbitrary: w) (simp_all add: deliver_entries_def)

text \<open>
  Property C7. Received blocks reach the services. When blocks of entries wait to be decrypted,
  one run of the two work items per block takes each block through both queues, hands every entry
  of every block, in order, to the service its path selects (entries that no service wants are
  dropped), releases all the buffers, and leaves the dispatcher without an open stream.
\<close>

theorem downlink_reaches_services:
  assumes "blocks_waiting s ess" and "routes svcs d Map.empty" and "\<forall>service\<in>set svcs. gs_path service \<noteq> []"
  shows "\<exists>s' d'. downlink_rounds (length ess) crypto_none [dispatch_handler svcs] (Some (d, w), s)
      = Some (map_option (Pair d') (serve_entries svcs (concat ess) w), s')
    \<and> routes svcs d' Map.empty \<and> downlink_safe crypto_none s s'
    \<and> dl_decrypt_queue (p_downlink s') = [] \<and> dl_consume_queue (p_downlink s') = []"
proof -
  from downlink_rounds_step [OF assms(1), of "[dispatch_handler svcs]" "Some (d, w)"] obtain s' where
    s': "downlink_rounds (length ess) crypto_none [dispatch_handler svcs] (Some (d, w), s)
        = Some (fold (deliver_entries [dispatch_handler svcs]) ess (Some (d, w)), s')"
      "blocks_waiting s' []" "downlink_safe crypto_none s s'" by blast
  obtain d' where d': "deliver_entries [dispatch_handler svcs] (concat ess) (Some (d, w))
      = map_option (Pair d') (serve_entries svcs (concat ess) w)" "routes svcs d' Map.empty"
    using dispatch_entries_step [OF assms(2) _ assms(3), of "concat ess" w] by auto
  show ?thesis using s' d' by (auto simp: deliver_concat blocks_waiting_def)
qed

text \<open>A block of two entries for two services.\<close>

definition demo_waiting :: "entry list \<Rightarrow> crypto_none_state pouch" where
  "demo_waiting es = (let bs = block_wire 0xc0 (entries_wire es) in (pouch_static (\<lambda>_. None) undefined)\<lparr>
     p_heap := \<lparr>store = [0 \<mapsto> \<lparr>pb_bytes = length bs, pb_mem = bs @ replicate (515 - length bs) 0\<rparr>], next_addr = 1,
       malloc_oracle = (\<lambda>_. None), bufs = 1\<rparr>,
     p_downlink := downlink_static\<lparr>dl_decrypt_queue := [0], dl_decrypt_work := True\<rparr>\<rparr>)"

lemma demo_waiting_ok:
  assumes "length (entries_wire es) < 512" and "list_all entry_valid es"
  shows "blocks_waiting (demo_waiting es) [es]"
  using assms
  by (auto simp: blocks_waiting_def demo_waiting_def downlink_inv_def downlink_roles_def downlink_static_def own_def
      heap_ok_def buf_ok_def cap_def received_role_def buf_contents_def contents_def SIZE_MOD_num
      contents_block_wire_bytes Let_def)

lemma downlink_reaches_services_witness:
  "let svcs = [log_service [0x61] 7, log_service [0x62, 0x2a] 8] in
   \<exists>s' d'. downlink_rounds (length [[([0x62, 0x63], 1, [5, 6]), ([0x64], 1, [7]), ([0x61], 1, [8])] :: entry list])
       crypto_none [dispatch_handler svcs] (Some (dispatch_static svcs, []),
       demo_waiting [([0x62, 0x63], 1, [5, 6]), ([0x64], 1, [7]), ([0x61], 1, [8])])
     = Some (Some (d', [(8, Some [0x63]), (8, Some [5, 6]), (7, None), (7, Some [8])]), s')"
proof -
  let ?svcs = "[log_service [0x61] 7, log_service [0x62, 0x2a] 8]"
  let ?es = "[([0x62, 0x63], 1, [5, 6]), ([0x64], 1, [7]), ([0x61], 1, [8])] :: entry list"
  have r: "route ?svcs [0x62, 0x63] = Some 1" "route ?svcs [0x61] = Some 0" "route ?svcs [0x64] = None"
    by (simp_all add: route_def service_prefix_def upt_rec)
  have serve: "serve_entries ?svcs (concat [?es]) [] = Some [(8, Some [0x63]), (8, Some [5, 6]), (7, None), (7, Some [8])]"
    by (simp add: serve_entry_def c_str_def r path_rest_def service_prefix_def)
  have w: "blocks_waiting (demo_waiting ?es) [?es]"
    by (rule demo_waiting_ok) (simp_all add: entry_valid_def)
  have "\<forall>service\<in>set ?svcs. gs_path service \<noteq> []" by simp
  from downlink_reaches_services [OF w routes_static this, of "[]"] show ?thesis
    unfolding serve Let_def by auto
qed

section \<open>Synchronising with the cloud\<close>

text \<open>The uplink services of the SDK, in the order of the linker section.\<close>

definition sdk_uplink_services where
  "sdk_uplink_services enc comps = [Some (ota_uplink enc OK comps), Some (settings_uplink enc OK)]"

text \<open>The services of the SDK keep the contract, for components whose names are C strings.\<close>

lemma sdk_service_law:
  assumes "encoder_lib_ok enc bytes E" and "\<forall>c\<in>set comps. 0 \<notin> set (rc_name c)"
    and "Some cb \<in> set (sdk_uplink_services enc comps)" and "length (ota_data g) = length comps"
    and "uplink_inv s" and "open_entries s es"
  shows "\<exists>g' s' es' new. cb g s = Some (g', s') \<and> length (ota_data g') = length comps \<and> uplink_safe s s'
    \<and> open_entries s' es' \<and> writer_frame s s' \<and> entry_log s' = entry_log s @ new"
proof -
  from assms(3) consider "cb = ota_uplink enc OK comps" | "cb = settings_uplink enc OK"
    by (auto simp: sdk_uplink_services_def)
  then show ?thesis
  proof cases
    case 1
    then show ?thesis using ota_service_ok [OF assms(1,2,5,6,4)] assms(4) by blast
  next
    case 2
    then show ?thesis using settings_uplink_step [OF assms(1,5,6), of g] assms(4) by blast
  qed
qed

locale sdk_reports = encoder_library +
  fixes comps :: "'a golioth_ota_registered_component list"
  assumes names: "\<forall>c\<in>set comps. 0 \<notin> set (rc_name c)"

sublocale sdk_reports \<subseteq> sdk: uplink_services "sdk_uplink_services enc comps" "\<lambda>g. length (ota_data g) = length comps"
  by unfold_locales (rule sdk_service_law [OF library names])

lemma sync_step:
  assumes "encoder_lib_ok enc bytes E" and "\<forall>c\<in>set comps. 0 \<notin> set (rc_name c)" and "length (ota_data g) = length comps"
    and "uplink_inv s" and "open_entries s es" and "\<not> pouch_is_closing (p_uplink s)"
  shows "\<exists>s' ota cfg. golioth_sync_to_cloud (sdk_uplink_services enc comps) OK g s = Some (OK, g, s')
    \<and> uplink_safe s s' \<and> transport_frame s s'
    \<and> up_flags (p_uplink s') = set_bit POUCH_CLOSING (up_flags (p_uplink s)) \<and> entry_log s' = entry_log s @ map (report_entry bytes) ota @ cfg
    \<and> subseq ota (statuses comps g)
    \<and> subseq cfg [(SETTINGS_UPLINK_PATH, POUCH_CONTENT_TYPE_CBOR, bytes (settings_report g))]
    \<and> (mallocs s \<and> list_all (status_fits enc) (statuses comps g) \<longrightarrow> ota = statuses comps g)
    \<and> (mallocs s \<and> encodes enc 3 2 (settings_puts enc g)
        \<longrightarrow> cfg = [(SETTINGS_UPLINK_PATH, POUCH_CONTENT_TYPE_CBOR, bytes (settings_report g))])
    \<and> pouch_is_closing (p_uplink s') \<and> p_block s' = None \<and> up_processing_work (p_uplink s')"
proof -
  from ota_service_ok [OF assms(1,2,4,5,3)] obtain s1 es1 ota where
    s1: "ota_uplink enc OK comps g s = Some (g, s1)" "uplink_safe s s1" "open_entries s1 es1" "writer_frame s s1"
      "entry_log s1 = entry_log s @ map (report_entry bytes) ota" "subseq ota (reported enc comps g)"
      "mallocs s \<longrightarrow> ota = reported enc comps g" by blast
  from settings_uplink_step [OF assms(1) uplink_safe_inv [OF s1(2)] s1(3), of g] obtain s2 es2 cfg where
    s2: "settings_uplink enc OK g s1 = Some (g, s2)" "uplink_safe s1 s2" "open_entries s2 es2" "writer_frame s1 s2"
      "entry_log s2 = entry_log s1 @ cfg"
      "subseq cfg [(SETTINGS_UPLINK_PATH, POUCH_CONTENT_TYPE_CBOR, bytes (settings_report g))]"
      "mallocs s1 \<and> encodes enc 3 2 (settings_puts enc g)
        \<longrightarrow> cfg = [(SETTINGS_UPLINK_PATH, POUCH_CONTENT_TYPE_CBOR, bytes (settings_report g))]" by blast
  have frame: "writer_frame s s2" by (rule writer_frame_trans [OF s1(4) s2(4)])
  then have open': "\<not> pouch_is_closing (p_uplink s2)"
    using assms(6) by (simp add: pouch_is_closing_def writer_frame_def)
  from uplink_close_step [OF uplink_safe_inv [OF s2(2)] s2(3), of OK] open' obtain s' where
    s': "pouch_uplink_close OK s2 = Some (OK, s')" "uplink_safe s2 s'" "entry_log s' = entry_log s2"
      "pouch_is_closing (p_uplink s')" "up_processing_work (p_uplink s')" "p_block s' = None" by auto
  have tf: "transport_frame s s'"
    using frame uplink_close_frame(1) [OF uplink_safe_inv [OF s2(2)] s2(3) s'(1)]
    by (auto simp: writer_frame_def intro: transport_frame_trans)
  have flags: "up_flags (p_uplink s') = set_bit POUCH_CLOSING (up_flags (p_uplink s))"
    using frame uplink_close_frame(2) [OF uplink_safe_inv [OF s2(2)] s2(3) s'(1) open'] by (simp add: writer_frame_def)
  have run: "golioth_sync_to_cloud (sdk_uplink_services enc comps) OK g s = Some (OK, g, s')"
    using s1(1) s2(1) s'(1) by (simp add: golioth_sync_to_cloud_def sdk_uplink_services_def)
  have sub: "subseq ota (statuses comps g)"
    using s1(6) unfolding reported_def
    by (rule subseq_order.trans) (simp add: prefix_imp_subseq takeWhile_is_prefix)
  show ?thesis
  proof (intro exI conjI)
    show "uplink_safe s s'" by (rule uplink_safe_trans [OF s1(2) uplink_safe_trans [OF s2(2) s'(2)]])
    show "entry_log s' = entry_log s @ map (report_entry bytes) ota @ cfg" by (simp add: s'(3) s2(5) s1(5))
    show "mallocs s \<and> list_all (status_fits enc) (statuses comps g) \<longrightarrow> ota = statuses comps g"
      using s1(7) by (simp add: reported_def list_all_iff takeWhile_eq_all_conv)
    show "mallocs s \<and> encodes enc 3 2 (settings_puts enc g)
        \<longrightarrow> cfg = [(SETTINGS_UPLINK_PATH, POUCH_CONTENT_TYPE_CBOR, bytes (settings_report g))]"
      using s2(7) by (simp add: uplink_safe_mallocs [OF s1(2)])
  qed (fact run tf flags sub s2(6) s'(4-6))+
qed


text \<open>
  Property C14. A synchronisation queues all reports and closes the pouch. In an open pouch
  \<^verbatim>\<open>golioth_sync_to_cloud()\<close> returns 0, appends to the log of entries reports of the OTA components,
  in order, and then that of the settings, keeps every entry that was written before, and leaves the
  pouch closing with no entry in an open block and the processing scheduled, so that everything
  logged is on its way out. When no allocation fails and the encoder has room for the reports, all
  of them are in the log.
\<close>

theorem sync_to_cloud:
  assumes "encoder_lib_ok enc bytes E" and "\<forall>c\<in>set comps. 0 \<notin> set (rc_name c)" and "length (ota_data g) = length comps"
    and "uplink_inv s" and "open_entries s es" and "\<not> pouch_is_closing (p_uplink s)"
  shows "\<exists>s' ota cfg. golioth_sync_to_cloud (sdk_uplink_services enc comps) OK g s = Some (OK, g, s')
    \<and> uplink_safe s s' \<and> entry_log s' = entry_log s @ map (report_entry bytes) ota @ cfg
    \<and> subseq ota (statuses comps g)
    \<and> subseq cfg [(SETTINGS_UPLINK_PATH, POUCH_CONTENT_TYPE_CBOR, bytes (settings_report g))]
    \<and> (mallocs s \<and> list_all (status_fits enc) (statuses comps g) \<longrightarrow> ota = statuses comps g)
    \<and> (mallocs s \<and> encodes enc 3 2 (settings_puts enc g)
        \<longrightarrow> cfg = [(SETTINGS_UPLINK_PATH, POUCH_CONTENT_TYPE_CBOR, bytes (settings_report g))])
    \<and> pouch_is_closing (p_uplink s') \<and> p_block s' = None \<and> up_processing_work (p_uplink s')"
  using sync_step [OF assms] by blast

lemma sync_to_cloud_witness:
  "\<exists>s'. golioth_sync_to_cloud (sdk_uplink_services (zcbor_rec (\<lambda>_. [7])) [demo_component ''a'', demo_component ''b'']) OK
        demo_ota (pouch_static (\<lambda>_. Some (\<lambda>_. 0)) ()) = Some (OK, demo_ota, s')
    \<and> entry_log s' = [(lit ''.u/c/a'', 60, [7]), (lit ''.u/c/b'', 60, [7]), (lit ''.c/status'', 60, [7])] \<and> p_block s' = None"
proof -
  let ?comps = "[demo_component ''a'', demo_component ''b'']"
  let ?enc = "zcbor_rec (\<lambda>_. [7])"
  have r: "map (report_entry (\<lambda>_. [7])) (statuses ?comps demo_ota) = [(lit ''.u/c/a'', 60, [7]), (lit ''.u/c/b'', 60, [7])]"
    by (simp add: report_entry_def statuses_def golioth_ota_get_status_def demo_component_def lit_def upt_rec Let_def)
  have "\<forall>c\<in>set ?comps. 0 \<notin> set (rc_name c)" by (simp add: demo_component_def lit_def)
  moreover have "length (ota_data demo_ota) = length ?comps" by (simp add: demo_ota_def)
  moreover have "\<not> pouch_is_closing (p_uplink (pouch_static (\<lambda>_. Some (\<lambda>_. 0)) ()))"
    by (simp add: pouch_is_closing_def pouch_static_def uplink_static_def)
  moreover have "mallocs (pouch_static (\<lambda>_. Some (\<lambda>_. 0)) ())" by (simp add: mallocs_def)
  moreover have "status_fits ?enc st" for st
    by (cases st) (simp add: status_fits_def encodes_def zcbor_rec_def enc_put_def enc_end_def status_puts_def)
  moreover have "encodes ?enc 3 2 (settings_puts ?enc demo_ota)"
    by (simp add: encodes_def zcbor_rec_def enc_put_def enc_end_def settings_puts_def)
  ultimately show ?thesis
    using sync_to_cloud [OF encoder_lib_ok_rec [of "\<lambda>_. [7]"], of ?comps demo_ota "pouch_static (\<lambda>_. Some (\<lambda>_. 0)) ()" "[]"]
    by (force simp: SETTINGS_UPLINK_PATH_def POUCH_CONTENT_TYPE_CBOR_def r list_all_iff)
qed

end
