(* ===== verification/Session.thy ===== *)
theory Session
  imports Cert Crypto
begin

text \<open>
  The SAEAD session of \<^verbatim>\<open>src/saead/session.c\<close>: session ids, the derivation of the session key,
  and the encryption and decryption of blocks with a nonce that counts them and additional data
  that chains each block to the tag of the one before.

  The PSA crypto API and the base64 encoder are a record of functions on the state \<open>'p\<close> of the
  PSA implementation (its key store and random number generator and the one key derivation
  operation in progress). A status is 0 on success; an output buffer is never written past the
  size the caller gives.
\<close>

section \<open>Data\<close>

type_synonym psa_key_id_t = u32

definition PSA_KEY_ID_NULL :: psa_key_id_t where "PSA_KEY_ID_NULL = 0"

datatype psa_algorithm = PSA_ALG_NONE | PSA_ALG_CHACHA20_POLY1305 | PSA_ALG_GCM

datatype psa_key_type = PSA_KEY_TYPE_CHACHA20 | PSA_KEY_TYPE_AES

definition PSA_KEY_USAGE_ENCRYPT :: u32 where "PSA_KEY_USAGE_ENCRYPT = 0x100"
definition PSA_KEY_USAGE_DECRYPT :: u32 where "PSA_KEY_USAGE_DECRYPT = 0x200"
definition PSA_KEY_USAGE_VERIFY_MESSAGE :: u32 where "PSA_KEY_USAGE_VERIFY_MESSAGE = 0x800"

record psa_key_attributes =
  ka_type :: psa_key_type
  ka_bits :: nat
  ka_algorithm :: psa_algorithm
  ka_usage :: u32

record 'p psa =
  psa_generate_random :: "nat \<Rightarrow> 'p \<Rightarrow> int \<times> u8 list \<times> 'p"
  psa_destroy_key :: "psa_key_id_t \<Rightarrow> 'p \<Rightarrow> 'p"
  psa_copy_key :: "psa_key_id_t \<Rightarrow> u32 \<Rightarrow> 'p \<Rightarrow> int \<times> psa_key_id_t \<times> 'p"
  psa_key_derivation_setup :: "'p \<Rightarrow> int \<times> 'p"
  psa_key_derivation_key_agreement :: "psa_key_id_t \<Rightarrow> u8 list \<Rightarrow> 'p \<Rightarrow> int \<times> 'p"
  psa_key_derivation_input_info :: "u8 list \<Rightarrow> 'p \<Rightarrow> int \<times> 'p"
  psa_key_derivation_output_key :: "psa_key_attributes \<Rightarrow> 'p \<Rightarrow> int \<times> psa_key_id_t \<times> 'p"
  psa_key_derivation_abort :: "'p \<Rightarrow> 'p"
  psa_aead_encrypt :: "'p \<Rightarrow> psa_key_id_t \<Rightarrow> psa_algorithm \<Rightarrow> u8 list \<Rightarrow> u8 list \<Rightarrow> u8 list \<Rightarrow> nat \<Rightarrow> int + u8 list"
  psa_aead_decrypt :: "'p \<Rightarrow> psa_key_id_t \<Rightarrow> psa_algorithm \<Rightarrow> u8 list \<Rightarrow> u8 list \<Rightarrow> u8 list \<Rightarrow> nat \<Rightarrow> int + u8 list"
  base64_encode :: "u8 list \<Rightarrow> u8 list option"

definition SESSION_ID_LEN :: nat where "SESSION_ID_LEN = 16"
definition SESSION_ID_TAG_LEN :: nat where "SESSION_ID_TAG_LEN = SESSION_ID_LEN - 8"
definition AUTH_TAG_LEN :: nat where "AUTH_TAG_LEN = 16"
definition AD_LEN :: nat where "AD_LEN = AUTH_TAG_LEN"
definition NONCE_LEN :: nat where "NONCE_LEN = 12"

definition BASE64_STRLEN :: "nat \<Rightarrow> nat" where
  "BASE64_STRLEN buflen = 4 * ((buflen + 2) div 3)"

definition INFO_MAX_LEN :: nat where
  "INFO_MAX_LEN = 12 + BASE64_STRLEN SESSION_ID_LEN + 1"

definition SAEAD_KEY_SIZE :: "psa_algorithm \<Rightarrow> nat" where
  "SAEAD_KEY_SIZE alg = (if alg = PSA_ALG_CHACHA20_POLY1305 then 32 else 16)"

definition SESSION_KEY_TYPE :: "psa_algorithm \<Rightarrow> psa_key_type" where
  "SESSION_KEY_TYPE alg = (if alg = PSA_ALG_CHACHA20_POLY1305 then PSA_KEY_TYPE_CHACHA20 else PSA_KEY_TYPE_AES)"

datatype session_id_type = SESSION_ID_TYPE_SEQUENTIAL | SESSION_ID_TYPE_RANDOM

text \<open>
  The union \<^verbatim>\<open>value\<close> is its 16 bytes: the random id, or the tag followed by the sequence number
  in the byte order of the target, which is little endian.
\<close>

record session_id =
  sid_type :: session_id_type
  sid_initiator :: pouch_role
  sid_value :: "u8 list"

definition sid_tag :: "session_id \<Rightarrow> u8 list" where
  "sid_tag sid = take SESSION_ID_TAG_LEN (sid_value sid)"

definition sid_seqnum :: "session_id \<Rightarrow> u64" where
  "sid_seqnum sid = get_be64 (rev (drop SESSION_ID_TAG_LEN (sid_value sid)))"

definition sequential_value :: "u8 list \<Rightarrow> u64 \<Rightarrow> u8 list" where
  "sequential_value tag seqnum = tag @ rev (put_be64 seqnum)"

text \<open>Bit numbers of \<open>se_flags\<close>.\<close>

definition SESSION_VALID :: nat where "SESSION_VALID = 0"
definition SAEAD_SESSION_ACTIVE :: nat where "SAEAD_SESSION_ACTIVE = 1"
definition SESSION_HAS_POUCH :: nat where "SESSION_HAS_POUCH = 2"

record session =
  se_id :: session_id
  se_flags :: u32
  se_algorithm :: psa_algorithm
  se_key :: psa_key_id_t
  se_pouch_id :: u16
  se_block_index :: u32
  se_ad :: "u8 list"

definition session_static :: session where
  "session_static = \<lparr>se_id = \<lparr>sid_type = SESSION_ID_TYPE_SEQUENTIAL, sid_initiator = POUCH_ROLE_DEVICE,
       sid_value = replicate SESSION_ID_LEN 0\<rparr>, se_flags = 0, se_algorithm = PSA_ALG_NONE,
     se_key = PSA_KEY_ID_NULL, se_pouch_id = 0, se_block_index = 0, se_ad = replicate AD_LEN 0\<rparr>"

section \<open>Operations\<close>

definition session_id_is_equal :: "session_id \<Rightarrow> session_id \<Rightarrow> bool" where
  "session_id_is_equal a b =
     (sid_type a = sid_type b \<and> sid_initiator a = sid_initiator b \<and> sid_value a = sid_value b)"

definition session_end :: "'p psa \<Rightarrow> session \<Rightarrow> 'p \<Rightarrow> session \<times> 'p" where
  "session_end psa se p =
     (if \<not> bit (se_flags se) SAEAD_SESSION_ACTIVE then (se, p)
      else (se\<lparr>se_flags := unset_bit SAEAD_SESSION_ACTIVE (se_flags se), se_key := PSA_KEY_ID_NULL\<rparr>,
            psa_destroy_key psa (se_key se) p))"

text \<open>What an output array holds after a library call that wrote \<open>bs\<close> to its first \<open>n\<close> bytes.\<close>

definition out_write :: "u8 list \<Rightarrow> nat \<Rightarrow> u8 list \<Rightarrow> u8 list" where
  "out_write m n bs = take n bs @ drop (min n (length bs)) m"

definition session_id_generate :: "'p psa \<Rightarrow> session_id \<Rightarrow> 'p \<Rightarrow> ret \<times> session_id \<times> 'p" where
  "session_id_generate psa sid p =
     (let sid = sid\<lparr>sid_initiator := POUCH_ROLE_DEVICE\<rparr> in
      if sid_type sid = SESSION_ID_TYPE_RANDOM then
        (case psa_generate_random psa SESSION_ID_LEN p of (status, bs, p) \<Rightarrow>
           (if status \<noteq> 0 then Err EIO else OK,
            sid\<lparr>sid_value := out_write (sid_value sid) SESSION_ID_LEN bs\<rparr>, p))
      else
        (case psa_generate_random psa SESSION_ID_TAG_LEN p of (status, bs, p) \<Rightarrow>
           let sid = sid\<lparr>sid_value := out_write (sid_value sid) SESSION_ID_TAG_LEN bs\<rparr> in
           if status \<noteq> 0 then (Err EIO, sid, p)
           else (OK, sid\<lparr>sid_value := sequential_value (sid_tag sid) (sid_seqnum sid + 1)\<rparr>, p)))"

text \<open>
  The info string of the key derivation. \<open>asc\<close> are the bytes of a string literal, \<open>hex2\<close> is the
  conversion \<^verbatim>\<open>%02x\<close> of a byte.
\<close>

definition asc :: "string \<Rightarrow> u8 list" where
  "asc s = map of_char s"

definition hex_digit :: "nat \<Rightarrow> u8" where
  "hex_digit n = (if n < 10 then of_nat (48 + n) else of_nat (87 + n))"

definition hex2 :: "u8 \<Rightarrow> u8 list" where
  "hex2 w = [hex_digit (unat w div 16), hex_digit (unat w mod 16)]"

definition session_key_info_build ::
    "'p psa \<Rightarrow> session_id \<Rightarrow> psa_algorithm \<Rightarrow> u8 \<Rightarrow> errno + u8 list" where
  "session_key_info_build psa sid algorithm max_block_size_log =
     (case base64_encode psa (sid_value sid) of
        None \<Rightarrow> Inl EIO
      | Some b64 \<Rightarrow> Inr (asc ''E0:'' @ (if sid_initiator sid = POUCH_ROLE_DEVICE then asc ''D'' else asc ''S'')
          @ asc '':'' @ b64 @ asc '':C''
          @ (if algorithm = PSA_ALG_CHACHA20_POLY1305 then asc ''C'' else asc ''A'')
          @ (if sid_type sid = SESSION_ID_TYPE_SEQUENTIAL then asc ''S'' else asc ''R'')
          @ asc '':'' @ hex2 max_block_size_log))"

definition session_key_generate ::
    "'p psa \<Rightarrow> session_id \<Rightarrow> psa_algorithm \<Rightarrow> u8 \<Rightarrow> psa_key_id_t \<Rightarrow> pubkey \<Rightarrow> u32 \<Rightarrow> 'p \<Rightarrow> psa_key_id_t \<times> 'p" where
  "session_key_generate psa sid algorithm max_block_size_log private_key pubkey usage p =
     (if pk_len pubkey = 0 then (PSA_KEY_ID_NULL, p)
      else
        let (status, p) = psa_key_derivation_setup psa p in
        if status \<noteq> 0 then (PSA_KEY_ID_NULL, psa_key_derivation_abort psa p)
        else let (status, p) = psa_key_derivation_key_agreement psa private_key
                   (take (pk_len pubkey) (pk_data pubkey)) p in
        if status \<noteq> 0 then (PSA_KEY_ID_NULL, psa_key_derivation_abort psa p)
        else (case session_key_info_build psa sid algorithm max_block_size_log of
          Inl e \<Rightarrow> (PSA_KEY_ID_NULL, psa_key_derivation_abort psa p)
        | Inr info \<Rightarrow>
            let (status, p) = psa_key_derivation_input_info psa info p in
            if status \<noteq> 0 then (PSA_KEY_ID_NULL, psa_key_derivation_abort psa p)
            else let (status, key, p) = psa_key_derivation_output_key psa
                   \<lparr>ka_type = SESSION_KEY_TYPE algorithm, ka_bits = SAEAD_KEY_SIZE algorithm * 8,
                    ka_algorithm = algorithm, ka_usage = usage\<rparr> p in
            (key, psa_key_derivation_abort psa p)))"

definition session_pouch_start :: "session \<Rightarrow> u16 \<Rightarrow> ret \<times> session" where
  "session_pouch_start se pouch_id =
     (if \<not> bit (se_flags se) SAEAD_SESSION_ACTIVE then (Err EBUSY, se)
      else (OK, se\<lparr>se_pouch_id := pouch_id, se_block_index := 0\<rparr>))"

definition role_byte :: "pouch_role \<Rightarrow> u8" where
  "role_byte r = (case r of POUCH_ROLE_DEVICE \<Rightarrow> 0 | POUCH_ROLE_SERVER \<Rightarrow> 1)"

text \<open>The 32-bit block index is put in 16 bits.\<close>

definition nonce_generate :: "session \<Rightarrow> pouch_role \<Rightarrow> u8 list" where
  "nonce_generate se sender =
     put_be16 (se_pouch_id se) @ put_be16 (ucast (se_block_index se)) @ [role_byte sender]
     @ replicate (NONCE_LEN - 5) 0"

definition block_ad :: "session \<Rightarrow> u8 list" where
  "block_ad se = (if 0 < se_block_index se then se_ad se else [])"

definition session_encrypt_block ::
    "'p psa \<Rightarrow> addr \<Rightarrow> session \<Rightarrow> 'p \<Rightarrow> heap \<Rightarrow> (addr option \<times> session \<times> heap) option" where
  "session_encrypt_block psa block se p h =
     (case buf_alloc (MAX_CIPHERTEXT_BLOCK_SIZE AUTH_TAG_LEN) h of
        (None, h) \<Rightarrow> Some (None, se, h)
      | (Some encrypted, h) \<Rightarrow>
          let nonce = nonce_generate se POUCH_ROLE_DEVICE;
              failed = (\<lambda>h. do { h \<leftarrow> buf_free (Some encrypted) h; Some (None, se, h) }) in
          do {
            (len, v) \<leftarrow> pouch_bufview_read_be16 (pouch_bufview_init block) h;
            let plaintext_len = unat len;
            av \<leftarrow> pouch_bufview_available v h;
            if plaintext_len \<noteq> av then failed h
            else do {
              let encrypted_len = plaintext_len + AUTH_TAG_LEN;
              h \<leftarrow> upd_buf encrypted (\<lambda>b. block_size_write b (of_nat encrypted_len)) h;
              (ciphertext, h) \<leftarrow> with_buf encrypted (\<lambda>b. Some (buf_claim b encrypted_len)) h;
              (ptr, v) \<leftarrow> pouch_bufview_read v plaintext_len h;
              ptr \<leftarrow> ptr;
              plaintext \<leftarrow> ptr_read ptr plaintext_len h;
              (case psa_aead_encrypt psa p (se_key se) (se_algorithm se) nonce (block_ad se) plaintext encrypted_len of
                 Inl status \<Rightarrow> failed h
               | Inr out \<Rightarrow> do {
                   h \<leftarrow> upd_buf encrypted (put_at ciphertext (take encrypted_len out)) h;
                   if length out \<noteq> encrypted_len then failed h
                   else do {
                     tag \<leftarrow> ptr_read (encrypted, ciphertext + plaintext_len) AUTH_TAG_LEN h;
                     Some (Some encrypted, se\<lparr>se_ad := tag, se_block_index := se_block_index se + 1\<rparr>, h) } }) } })"

definition session_decrypt_block ::
    "'p psa \<Rightarrow> addr option \<Rightarrow> session \<Rightarrow> 'p \<Rightarrow> heap \<Rightarrow> (addr option \<times> session \<times> heap) option" where
  "session_decrypt_block psa block se p h =
     (case buf_alloc MAX_PLAINTEXT_BLOCK_SIZE h of
        (None, h) \<Rightarrow> Some (None, se, h)
      | (Some decrypted, h) \<Rightarrow>
          let nonce = nonce_generate se POUCH_ROLE_SERVER;
              failed = (\<lambda>h. do { h \<leftarrow> buf_free (Some decrypted) h; Some (None, se, h) }) in
          do {
            block \<leftarrow> block;
            (len, v) \<leftarrow> pouch_bufview_read_be16 (pouch_bufview_init block) h;
            let ciphertext_len = unat len;
            av \<leftarrow> pouch_bufview_available v h;
            if ciphertext_len \<le> AUTH_TAG_LEN \<or> ciphertext_len \<noteq> av then failed h
            else do {
              let payload_len = ciphertext_len - AUTH_TAG_LEN;
              h \<leftarrow> upd_buf decrypted (\<lambda>b. block_size_write b (of_nat payload_len)) h;
              (ptr, v) \<leftarrow> pouch_bufview_read v payload_len h;
              ptr \<leftarrow> ptr;
              ciphertext \<leftarrow> ptr_read ptr ciphertext_len h;
              (plaintext, h) \<leftarrow> with_buf decrypted (\<lambda>b. Some (buf_claim b payload_len)) h;
              (case psa_aead_decrypt psa p (se_key se) (se_algorithm se) nonce (block_ad se) ciphertext payload_len of
                 Inl status \<Rightarrow> failed h
               | Inr out \<Rightarrow> do {
                   h \<leftarrow> upd_buf decrypted (put_at plaintext (take payload_len out)) h;
                   if length out \<noteq> payload_len then failed h
                   else do {
                     (tag, v) \<leftarrow> pouch_bufview_memcpy v AUTH_TAG_LEN h;
                     Some (Some decrypted,
                       se\<lparr>se_ad := out_write (se_ad se) AUTH_TAG_LEN tag, se_block_index := se_block_index se + 1,
                          se_flags := set_bit SESSION_VALID (se_flags se)\<rparr>, h) } }) } })"

section \<open>Reading the input block\<close>

lemma read_be16_first:
  assumes "store h a = Some b" and "2 \<le> cap b"
  shows "\<exists>w. pouch_bufview_read_be16 (pouch_bufview_init a) h = Some (w, \<lparr>bv_buf = Some a, bv_offset = 2\<rparr>)
    \<and> (\<forall>w' rest. contents b = put_be16 w' @ rest \<longrightarrow> w = w')"
proof -
  have "mem_read (pb_mem b) 0 2 = Some (take 2 (pb_mem b))" using assms(2) by (simp add: mem_read_def cap_def)
  moreover have "get_be16 (take 2 (pb_mem b)) = w'" if "contents b = put_be16 w' @ rest" for w' rest
  proof -
    have l: "length (put_be16 w') = 2" by simp
    then have "2 \<le> length (contents b)" using that by simp
    then have "2 \<le> pb_bytes b" by (simp add: contents_def)
    moreover have "take 2 (contents b) = put_be16 w'" using that l by simp
    ultimately have "take 2 (pb_mem b) = put_be16 w'" by (simp add: contents_def min_def)
    then show ?thesis by simp
  qed
  ultimately show ?thesis using assms(1)
    by (auto simp: pouch_bufview_read_be16_def bufview_read_def pouch_bufview_init_def ptr_read_def SIZE_MOD_num)
qed

lemma read_behind_size:
  assumes "store h a = Some b" and "buf_ok b" and "2 + n \<le> pb_bytes b"
  shows "pouch_bufview_read \<lparr>bv_buf = Some a, bv_offset = 2\<rparr> n h
      = Some (Some (a, 2), \<lparr>bv_buf = Some a, bv_offset = 2 + n\<rparr>)"
    and "ptr_read (a, 2) n h = Some (take n (drop 2 (contents b)))"
proof -
  have "2 + n < SIZE_MOD" "2 + n \<le> length (pb_mem b)" using assms(2,3) by (simp_all add: buf_ok_def cap_def)
  then show "pouch_bufview_read \<lparr>bv_buf = Some a, bv_offset = 2\<rparr> n h
      = Some (Some (a, 2), \<lparr>bv_buf = Some a, bv_offset = 2 + n\<rparr>)"
    "ptr_read (a, 2) n h = Some (take n (drop 2 (contents b)))"
    using assms
    by (simp_all add: pouch_bufview_read_def pouch_bufview_available_def bufview_read_def buf_ok_def
        ptr_read_def mem_read_def contents_def drop_take min_def)
qed

lemma memcpy_at:
  assumes "store h a = Some b" and "buf_ok b" and "n \<le> pb_bytes b"
  shows "\<exists>v'. pouch_bufview_memcpy \<lparr>bv_buf = Some a, bv_offset = n\<rparr> k h = Some (take k (drop n (contents b)), v')"
  using pouch_bufview_memcpy_view [of "\<lparr>bv_buf = Some a, bv_offset = n\<rparr>" h b n k] assms
  by (auto simp: view_at_def)

section \<open>Filling the output block\<close>

text \<open>
  The size field is written, \<open>n\<close> bytes are claimed and the cipher's output is stored there.
\<close>

definition out_claimed :: "u16 \<Rightarrow> nat \<Rightarrow> pouch_buf \<Rightarrow> pouch_buf" where
  "out_claimed w n b = (append_buf b (put_be16 w))\<lparr>pb_bytes := 2 + n\<rparr>"

definition out_stored :: "u16 \<Rightarrow> nat \<Rightarrow> u8 list \<Rightarrow> pouch_buf \<Rightarrow> pouch_buf" where
  "out_stored w n bs b = b\<lparr>pb_bytes := 2 + n, pb_mem := put_be16 w @ bs @ drop (2 + length bs) (pb_mem b)\<rparr>"

lemma out_steps:
  assumes "buf_ok b" and "cap b = M" and "pb_bytes b = 0" and "2 + n \<le> M" and "length bs \<le> n"
  shows "block_size_write b w = Some (append_buf b (put_be16 w))"
    and "buf_claim (append_buf b (put_be16 w)) n = (2, out_claimed w n b)"
    and "put_at 2 bs (out_claimed w n b) = Some (out_stored w n bs b)"
    and "buf_ok (out_claimed w n b)" and "buf_ok (out_stored w n bs b)"
    and "cap (out_stored w n bs b) = M"
    and "length bs = n \<Longrightarrow> contents (out_stored w n bs b) = put_be16 w @ bs"
    and "length bs = n \<Longrightarrow> k + m = n \<Longrightarrow> mem_read (pb_mem (out_stored w n bs b)) (2 + k) m = Some (drop k bs)"
proof -
  have f: "fits b (length (put_be16 w))" using assms by (simp add: fits_def)
  show "block_size_write b w = Some (append_buf b (put_be16 w))"
    using buf_write_fits [OF f] by (simp add: block_size_write_def)
  have M: "M < SIZE_MOD" using assms(1,2) by (simp add: buf_ok_def)
  show "buf_claim (append_buf b (put_be16 w)) n = (2, out_claimed w n b)"
    using append_buf_simps(2) [OF f] assms M by (simp add: buf_claim_def out_claimed_def)
  have m: "pb_mem (append_buf b (put_be16 w)) = put_be16 w @ drop 2 (pb_mem b)"
    using assms(3) by (simp add: append_buf_def numeral_2_eq_2)
  have l: "length (pb_mem b) = M" using assms(2) by (simp add: cap_def)
  show "put_at 2 bs (out_claimed w n b) = Some (out_stored w n bs b)"
    using m l assms(4,5)
    by (simp add: put_at_def mem_write_def out_claimed_def out_stored_def append_buf_def add.commute)
  show "buf_ok (out_claimed w n b)" "buf_ok (out_stored w n bs b)" "cap (out_stored w n bs b) = M"
    using m l assms(4,5) M by (auto simp: buf_ok_def cap_def out_claimed_def out_stored_def)
  show "contents (out_stored w n bs b) = put_be16 w @ bs" if "length bs = n"
    using that by (simp add: contents_def out_stored_def)
  show "mem_read (pb_mem (out_stored w n bs b)) (2 + k) m = Some (drop k bs)" if "length bs = n" "k + m = n"
    using that l assms(4) by (simp add: mem_read_def out_stored_def)
qed

section \<open>One block\<close>

definition framed :: "nat \<Rightarrow> u8 list \<Rightarrow> pouch_buf \<Rightarrow> bool" where
  "framed M out b \<longleftrightarrow> cap b = M \<and> contents b = put_be16 (of_nat (length out)) @ out"

definition next_block :: "u8 list \<Rightarrow> session \<Rightarrow> session" where
  "next_block tag se = se\<lparr>se_ad := tag, se_block_index := se_block_index se + 1\<rparr>"

lemma out_free:
  assumes "own h ((a, Q) # R)" and "buf_ok b'"
  shows "\<exists>h'. buf_free (Some a) (h\<lparr>store := (store h)(a \<mapsto> b')\<rparr>) = Some h' \<and> hstep h ((a, Q) # R) h' R"
proof -
  have s: "hstep h ((a, Q) # R) (h\<lparr>store := (store h)(a \<mapsto> b')\<rparr>) ((a, \<lambda>_. True) # R)"
    by (rule hstep_upd [OF assms(1) _ assms(2)]) simp
  from hstep_free [OF hstep_own [OF s]] show ?thesis using hstep_trans [OF s] by blast
qed

lemma upd_same: "store h a = Some b \<Longrightarrow> h\<lparr>store := (store h)(a \<mapsto> b)\<rparr> = h"
  by (simp add: fun_upd_idem)

lemma unat_frame_len: "length body \<le> 600 \<Longrightarrow> unat (of_nat (length body) :: u16) = length body"
  by (simp add: unat_of_nat)

text \<open>
  What both directions do with the cipher's answer: an error status or a short output frees the output
  block, a full one makes it a frame.
\<close>

lemma aead_output:
  assumes o: "own h ((a, \<lambda>x. x = b0) # Q)" and pre: "buf_ok b0" "cap b0 = M" "pb_bytes b0 = 0" "2 + m \<le> M"
    and h2: "h2 = h\<lparr>store := (store h)(a \<mapsto> out_claimed (of_nat m) m b0)\<rparr>"
  obtains (refused) e h' where "res = Inl e" "buf_free (Some a) h2 = Some h'"
      "hstep h ((a, \<lambda>x. x = b0) # Q) h' Q"
    | (short) out h3 h' where "res = Inr out" "length out \<noteq> m" "upd_buf a (put_at 2 (take m out)) h2 = Some h3"
      "buf_free (Some a) h3 = Some h'" "hstep h ((a, \<lambda>x. x = b0) # Q) h' Q"
    | (full) out h3 where "res = Inr out" "length out = m" "upd_buf a (put_at 2 (take m out)) h2 = Some h3"
      "h3 = h\<lparr>store := (store h)(a \<mapsto> out_stored (of_nat m) m out b0)\<rparr>"
      "hstep h ((a, \<lambda>x. x = b0) # Q) h3 ((a, framed M out) # Q)"
proof (cases res)
  case (Inl e)
  have "buf_ok (out_claimed (of_nat m) m b0)" using out_steps(4) [OF pre, of "[]"] by simp
  from out_free [OF o this] show ?thesis using Inl refused h2 by blast
next
  case (Inr out)
  have lt: "length (take m out) \<le> m" by simp
  note st = out_steps [OF pre lt, where w = "of_nat m"]
  let ?h3 = "h\<lparr>store := (store h)(a \<mapsto> out_stored (of_nat m) m (take m out) b0)\<rparr>"
  have up: "upd_buf a (put_at 2 (take m out)) h2 = Some ?h3" using st(3) by (simp add: upd_buf_def h2)
  show ?thesis
  proof (cases "length out = m")
    case False
    from out_free [OF o st(5)] show ?thesis using Inr False up short by blast
  next
    case True
    have "framed M out (out_stored (of_nat m) m (take m out) b0)" using st(6,7) True by (simp add: framed_def)
    then have "hstep h ((a, \<lambda>x. x = b0) # Q) ?h3 ((a, framed M out) # Q)" by (rule hstep_upd [OF o _ st(5)])
    then show ?thesis using True up by (intro full [OF Inr True up]) simp_all
  qed
qed

text \<open>A frame's size field, its length and the bytes behind the field.\<close>

lemma framed_layout:
  assumes "framed M ct b" and "buf_ok b" and "M \<le> 600" and "2 \<le> M"
  shows "pb_bytes b = 2 + length ct" and "2 + length ct \<le> M" and "drop 2 (contents b) = ct"
    and "unat (get_be16 (take 2 (pb_mem b))) = length ct"
proof -
  have c: "contents b = put_be16 (of_nat (length ct)) @ ct" and M: "cap b = M"
    using assms(1) by (simp_all add: framed_def)
  have "length (contents b) = 2 + length ct" using c by simp
  then show n: "pb_bytes b = 2 + length ct" using assms(2) by (simp add: contents_def buf_ok_def cap_def)
  then show l: "2 + length ct \<le> M" using assms(2) M by (simp add: buf_ok_def)
  show "drop 2 (contents b) = ct" using c by simp
  have "take 2 (contents b) = put_be16 (of_nat (length ct))" using c by simp
  moreover have "take 2 (pb_mem b) = take 2 (contents b)" using n by (simp add: contents_def numeral_2_eq_2)
  ultimately have "get_be16 (take 2 (pb_mem b)) = of_nat (length ct)" by (simp del: take_append)
  then show "unat (get_be16 (take 2 (pb_mem b))) = length ct" using l assms(3) by (simp add: unat_frame_len)
qed

lemma session_encrypt_step:
  fixes psa :: "'p psa"
  assumes o: "own h ((blk, P) # R)" and c: "\<And>b. store h blk = Some b \<Longrightarrow> contents b = put_be16 (of_nat (length body)) @ body"
    and l: "length body \<le> 513"
    and aead: "res = psa_aead_encrypt psa p (se_key se) (se_algorithm se) (nonce_generate se POUCH_ROLE_DEVICE)
      (block_ad se) body (length body + 16)"
  obtains (fail) h' where "session_encrypt_block psa blk se p h = Some (None, se, h')"
      "hstep h ((blk, P) # R) h' ((blk, P) # R)"
      "malloc_oracle h (next_addr h) = None \<or> (\<forall>out. res = Inr out \<longrightarrow> length out \<noteq> length body + 16)"
    | (ok) a out h' where "session_encrypt_block psa blk se p h = Some (Some a, next_block (drop (length body) out) se, h')"
      "res = Inr out" "length out = length body + 16"
      "hstep h ((blk, P) # R) h' ((a, framed 531 out) # (blk, P) # R)" "malloc_oracle h (next_addr h) \<noteq> None"
proof (cases rule: buf_alloc_cases [OF own_heap_ok [OF o], of 531])
  case 1
  show ?case by (simp add: SIZE_MOD_num)
next
  case (2 h')
  have "session_encrypt_block psa blk se p h = Some (None, se, h')"
    using 2(1) by (simp add: session_encrypt_block_def AUTH_TAG_LEN_def)
  moreover have "hstep h ((blk, P) # R) h' ((blk, P) # R)" by (rule hstep_nop [OF o]) (use 2 in auto)
  ultimately show ?thesis using 2 by (intro fail) auto
next
  case (3 a b0 h1)
  from o obtain b where b: "store h blk = Some b" by (auto simp: own_Cons_iff)
  have okb: "buf_ok b" using ownD [OF o, of blk P] b by auto
  have ne: "a \<noteq> blk" using b 3(3) by auto
  have b1: "store h1 blk = Some b" using 3(4) ne b by simp
  have s1: "hstep h ((blk, P) # R) h1 ((a, \<lambda>x. x = b0) # (blk, P) # R)"
    by (rule hstep_alloc [OF o]) (use 3 in auto)
  note o1 = hstep_own [OF s1]
  note cb = c [OF b]
  have bytes: "pb_bytes b = 2 + length body"
  proof -
    have "length (contents b) = 2 + length body" using cb by simp
    then show ?thesis using okb by (simp add: buf_ok_def contents_def cap_def)
  qed
  have cap2: "2 \<le> cap b" using bytes okb by (simp add: buf_ok_def)
  let ?n = "length body" let ?m = "?n + 16"
  let ?w = "of_nat ?m :: u16"
  have rd: "pouch_bufview_read_be16 (pouch_bufview_init blk) h1 = Some (of_nat ?n, \<lparr>bv_buf = Some blk, bv_offset = 2\<rparr>)"
    using read_be16_first [OF b1 cap2] cb by metis
  have av: "pouch_bufview_available \<lparr>bv_buf = Some blk, bv_offset = 2\<rparr> h1 = Some ?n"
    using b1 bytes okb by (simp add: pouch_bufview_available_def buf_ok_def)
  have un: "unat (of_nat ?n :: u16) = ?n" by (rule unat_frame_len) (use l in simp)
  have a0: "store h1 a = Some b0" using 3(4) by simp
  have pre: "buf_ok b0" "cap b0 = 531" "pb_bytes b0 = 0" "2 + ?m \<le> 531" using 3 l by auto
  have pre0: "length ([] :: u8 list) \<le> ?m" by simp
  note st0 = out_steps [OF pre pre0, where w = ?w]
  let ?h2 = "h1\<lparr>store := (store h1)(a \<mapsto> out_claimed ?w ?m b0)\<rparr>"
  have b2: "store ?h2 blk = Some b" using b1 ne by simp
  have rd2: "pouch_bufview_read \<lparr>bv_buf = Some blk, bv_offset = 2\<rparr> ?n ?h2
      = Some (Some (blk, 2), \<lparr>bv_buf = Some blk, bv_offset = 2 + ?n\<rparr>)"
    "ptr_read (blk, 2) ?n ?h2 = Some body"
    using read_behind_size [OF b2 okb, of ?n] bytes cb by simp_all
  define fin where "fin h = do { h \<leftarrow> buf_free (Some a) h; Some (None :: addr option, se, h) }" for h
  have eq: "session_encrypt_block psa blk se p h = (case res of Inl status \<Rightarrow> fin ?h2
      | Inr out \<Rightarrow> do {
          h \<leftarrow> upd_buf a (put_at 2 (take ?m out)) ?h2;
          if length out \<noteq> ?m then fin h
          else do { tag \<leftarrow> ptr_read (a, 2 + ?n) 16 h; Some (Some a, next_block tag se, h) } })"
    using 3(1) rd av un a0 st0(1,2) rd2
    unfolding aead session_encrypt_block_def fin_def next_block_def
    by (simp add: Let_def AUTH_TAG_LEN_def upd_buf_def with_buf_def del: of_nat_add cong: if_cong split: sum.split)
  show ?thesis
  proof (cases rule: aead_output [OF o1 pre refl, of res])
    case (1 e h3)
    then show ?thesis using eq hstep_trans [OF s1] by (intro fail [of h3]) (auto simp: fin_def)
  next
    case (2 out h3 h4)
    then show ?thesis using eq hstep_trans [OF s1] by (intro fail [of h4]) (auto simp: fin_def)
  next
    case full: (3 out h3)
    have "length out \<le> ?m" using full(2) by simp
    from out_steps(8) [OF pre this full(2), where k = ?n and m = 16]
    have tag: "ptr_read (a, 2 + ?n) 16 h3 = Some (drop ?n out)" by (simp add: ptr_read_def full(4))
    show ?thesis using eq full tag hstep_trans [OF s1] 3 by (intro ok [of a out h3]) auto
  qed
qed

lemma out_write_full: "length m = n \<Longrightarrow> length bs = n \<Longrightarrow> out_write m n bs = bs"
  by (simp add: out_write_def)

definition next_received :: "u8 list \<Rightarrow> session \<Rightarrow> session" where
  "next_received tag se = (next_block (out_write (se_ad se) 16 tag) se)\<lparr>se_flags := set_bit SESSION_VALID (se_flags se)\<rparr>"

text \<open>A buffer whose size field counts its other bytes is a frame; one with fewer than two bytes is not.\<close>

lemma framed_iff:
  assumes "buf_ok b" and "cap b = M" and "2 \<le> M" and "w = get_be16 (take 2 (pb_mem b))"
  shows "unat w = szt_sub (pb_bytes b) 2 \<longleftrightarrow> framed M (drop 2 (contents b)) b \<and> length (drop 2 (contents b)) = unat w"
proof (cases "2 \<le> pb_bytes b")
  case False
  then have "pb_bytes b < 2" by simp
  then have "szt_sub (pb_bytes b) 2 = SIZE_MOD - (2 - pb_bytes b)" by (rule szt_sub_wraps) (simp add: SIZE_MOD_num)
  moreover have "unat w < 65536" using unsigned_less [of w, where ?'a = nat] by simp
  moreover have "length (contents b) < 2" using False by (simp add: contents_def)
  then have "\<not> framed M (drop 2 (contents b)) b"
    by (auto simp: framed_def dest: arg_cong [of _ _ length])
  ultimately show ?thesis using \<open>pb_bytes b < 2\<close> unfolding SIZE_MOD_num by linarith
next
  case True
  have len: "length (contents b) = pb_bytes b" using assms(1) by (simp add: contents_def buf_ok_def cap_def)
  have sub: "szt_sub (pb_bytes b) 2 = pb_bytes b - 2" using True assms(1) by (simp add: buf_ok_def)
  have t2: "take 2 (pb_mem b) = take 2 (contents b)" using True by (simp add: contents_def min_def)
  have w: "put_be16 w = take 2 (contents b)"
  proof -
    have "length (take 2 (contents b)) = 2" using True len by simp
    then show ?thesis using put_get_be16 [of "take 2 (contents b)"] assms(4) t2 by simp
  qed
  have "framed M (drop 2 (contents b)) b" if "unat w = pb_bytes b - 2"
  proof -
    have "length (drop 2 (contents b)) = unat w" using len that by simp
    then show ?thesis using w assms(2) by (simp add: framed_def)
  qed
  then show ?thesis using sub len by auto
qed

lemma session_decrypt_step:
  fixes psa :: "'p psa"
  assumes o: "own h ((blk, P) # R)" and b: "store h blk = Some b" and cb: "cap b = 531"
    and dec: "\<And>ct. res ct = psa_aead_decrypt psa p (se_key se) (se_algorithm se) (nonce_generate se POUCH_ROLE_SERVER)
      (block_ad se) ct (length ct - 16)"
  obtains (fail) h' where "session_decrypt_block psa (Some blk) se p h = Some (None, se, h')"
      "hstep h ((blk, P) # R) h' ((blk, P) # R)"
      "malloc_oracle h (next_addr h) = None \<or> (\<forall>ct. framed 531 ct b \<longrightarrow> 16 < length ct \<longrightarrow>
         (\<forall>out. res ct = Inr out \<longrightarrow> length out \<noteq> length ct - 16))"
    | (ok) a ct out h' where
      "session_decrypt_block psa (Some blk) se p h = Some (Some a, next_received (drop (length out) ct) se, h')"
      "framed 531 ct b" "16 < length ct" "res ct = Inr out" "length out = length ct - 16"
      "hstep h ((blk, P) # R) h' ((a, framed 515 out) # (blk, P) # R)"
proof (cases rule: buf_alloc_cases [OF own_heap_ok [OF o], of 515])
  case 1
  show ?case by (simp add: SIZE_MOD_num)
next
  case (2 h')
  have "session_decrypt_block psa (Some blk) se p h = Some (None, se, h')"
    using 2(1) by (simp add: session_decrypt_block_def)
  moreover have "hstep h ((blk, P) # R) h' ((blk, P) # R)" by (rule hstep_nop [OF o]) (use 2 in auto)
  ultimately show ?thesis using 2 by (intro fail) auto
next
  case (3 a b0 h1)
  have okb: "buf_ok b" using ownD [OF o, of blk P] b by auto
  have ne: "a \<noteq> blk" using b 3(3) by auto
  have b1: "store h1 blk = Some b" using 3(4) ne b by simp
  have s1: "hstep h ((blk, P) # R) h1 ((a, \<lambda>x. x = b0) # (blk, P) # R)"
    by (rule hstep_alloc [OF o]) (use 3 in auto)
  note o1 = hstep_own [OF s1]
  have a0: "store h1 a = Some b0" using 3(4) by simp
  let ?v = "\<lparr>bv_buf = Some blk, bv_offset = 2\<rparr>"
  let ?w = "get_be16 (take 2 (pb_mem b))" and ?ct = "drop 2 (contents b)"
  have rd: "pouch_bufview_read_be16 (pouch_bufview_init blk) h1 = Some (?w, ?v)"
    using b1 cb by (simp add: pouch_bufview_read_be16_def bufview_read_def pouch_bufview_init_def ptr_read_def
        SIZE_MOD_num mem_read_def cap_def)
  have av: "pouch_bufview_available ?v h1 = Some (szt_sub (pb_bytes b) 2)"
    using b1 by (simp add: pouch_bufview_available_def)
  have fr: "unat ?w = szt_sub (pb_bytes b) 2 \<longleftrightarrow> framed 531 ?ct b \<and> length ?ct = unat ?w"
    by (rule framed_iff [OF okb cb]) simp_all
  have only: "ct = ?ct" if "framed 531 ct b" for ct using that by (simp add: framed_def)
  define fin where "fin h = do { h \<leftarrow> buf_free (Some a) h; Some (None :: addr option, se, h) }" for h
  from out_free [OF o1 3(8)] obtain h2 where f: "buf_free (Some a) h1 = Some h2"
      "hstep h1 ((a, \<lambda>x. x = b0) # (blk, P) # R) h2 ((blk, P) # R)" using upd_same [OF a0] by auto
  show ?thesis
  proof (cases "framed 531 ?ct b \<and> 16 < length ?ct")
    case False
    have bad: "unat ?w \<le> 16 \<or> unat ?w \<noteq> szt_sub (pb_bytes b) 2" using False fr by auto
    have "session_decrypt_block psa (Some blk) se p h = fin h1"
      using bad 3(1) rd av by (auto simp: session_decrypt_block_def fin_def AUTH_TAG_LEN_def Let_def)
    moreover have "\<not> 16 < length ct" if "framed 531 ct b" for ct using only [OF that] that False by metis
    ultimately show ?thesis using f hstep_trans [OF s1] by (intro fail [of h2]) (auto simp: fin_def)
  next
    case True
    define ct where "ct = ?ct"
    have fr1: "framed 531 ct b" "16 < length ct" using True by (simp_all add: ct_def)
    have only1: "x = ct" if "framed 531 x b" for x using only [OF that] by (simp add: ct_def)
    have lay: "pb_bytes b = 2 + length ct" "2 + length ct \<le> 531" "drop 2 (contents b) = ct" "unat ?w = length ct"
      using framed_layout [OF fr1(1) okb] by simp_all
    have av': "pouch_bufview_available ?v h1 = Some (length ct)" using av lay(1) okb by (simp add: buf_ok_def)
    let ?m = "length ct - 16"
    have pre: "buf_ok b0" "cap b0 = 515" "pb_bytes b0 = 0" "2 + ?m \<le> 515" using 3 lay(2) by auto
    have pre0: "length ([] :: u8 list) \<le> ?m" by simp
    note st0 = out_steps [OF pre pre0, where w = "of_nat ?m"]
    let ?h1 = "h1\<lparr>store := (store h1)(a \<mapsto> append_buf b0 (put_be16 (of_nat ?m)))\<rparr>"
    let ?h2 = "h1\<lparr>store := (store h1)(a \<mapsto> out_claimed (of_nat ?m) ?m b0)\<rparr>"
    have b2: "store ?h1 blk = Some b" using b1 ne by simp
    have le: "2 + ?m \<le> pb_bytes b" "2 + length ct \<le> pb_bytes b" using lay(1) by auto
    have rd2: "pouch_bufview_read ?v ?m ?h1 = Some (Some (blk, 2), \<lparr>bv_buf = Some blk, bv_offset = 2 + ?m\<rparr>)"
      "ptr_read (blk, 2) (length ct) ?h1 = Some ct"
      using read_behind_size(1) [OF b2 okb le(1)] read_behind_size(2) [OF b2 okb le(2)] lay(3) by simp_all
    have n16: "\<not> length ct \<le> 16" using fr1(2) by simp
    have eq: "session_decrypt_block psa (Some blk) se p h = (case res ct of Inl status \<Rightarrow> fin ?h2
      | Inr out \<Rightarrow> do {
          h \<leftarrow> upd_buf a (put_at 2 (take ?m out)) ?h2;
          if length out \<noteq> ?m then fin h
          else do { (tag, v) \<leftarrow> pouch_bufview_memcpy \<lparr>bv_buf = Some blk, bv_offset = 2 + ?m\<rparr> 16 h;
                    Some (Some a, next_received tag se, h) } })"
      using 3(1) rd av' a0 st0(1,2) rd2 n16 lay(4)
      unfolding dec session_decrypt_block_def fin_def next_received_def next_block_def
      by (simp add: Let_def AUTH_TAG_LEN_def upd_buf_def with_buf_def del: of_nat_diff cong: if_cong split: sum.split)
    show ?thesis
    proof (cases rule: aead_output [OF o1 pre refl, of "res ct"])
      case (1 e h3)
      then show ?thesis using eq hstep_trans [OF s1] only1 by (intro fail [of h3]) (auto simp: fin_def)
    next
      case (2 out h3 h4)
      then show ?thesis using eq hstep_trans [OF s1] only1 by (intro fail [of h4]) (auto simp: fin_def)
    next
      case full: (3 out h3)
      have b3: "store h3 blk = Some b" using b1 ne full(4) by simp
      have "drop (2 + ?m) (contents b) = drop ?m ct" unfolding ct_def by (simp only: drop_drop add.commute)
      then obtain v' where "pouch_bufview_memcpy \<lparr>bv_buf = Some blk, bv_offset = 2 + ?m\<rparr> 16 h3
          = Some (drop (length out) ct, v')"
        using memcpy_at [OF b3 okb le(1), of 16] fr1(2) full(2) by auto
      then show ?thesis using eq full hstep_trans [OF s1] fr1 by (intro ok [of a out ct h3]) auto
    qed
  qed
qed

end
