(* ===== verification/Saead.thy ===== *)
theory Saead
  imports Session Machine Downlink
begin

text \<open>
  The SAEAD backend: \<^verbatim>\<open>src/saead/uplink.c\<close>, \<^verbatim>\<open>src/saead/downlink.c\<close> and
  \<^verbatim>\<open>src/crypto_saead.c\<close> behind the interface of \<^verbatim>\<open>src/crypto.h\<close>. The static variables of the
  three files, the certificate store and the state of the PSA implementation are one record.
\<close>

section \<open>State\<close>

record ('p, 'x) saead_state =
  sa_uplink :: session
  sa_downlink :: session
  sa_server_seqnum :: u64
  sa_server_pouch_id :: u16
  sa_pkey :: psa_key_id_t
  sa_cert :: "'x cert_state"
  sa_psa :: 'p

definition saead_static :: "nat \<Rightarrow> 'p \<Rightarrow> ('p, 'x) saead_state" where
  "saead_static pubkey_len p = \<lparr>sa_uplink = session_static, sa_downlink = session_static, sa_server_seqnum = 0,
     sa_server_pouch_id = 0, sa_pkey = PSA_KEY_ID_NULL, sa_cert = cert_static pubkey_len, sa_psa = p\<rparr>"

section \<open>Uplink sessions\<close>

text \<open>
  \<^verbatim>\<open>err\<close> is tested again after the key was generated, and is still 0 then: the session becomes
  active whether or not there is a key.
\<close>

definition saead_uplink_session_start ::
    "'p psa \<Rightarrow> psa_algorithm \<Rightarrow> psa_key_id_t \<Rightarrow> ('p, 'x) saead_state \<Rightarrow> ret \<times> ('p, 'x) saead_state" where
  "saead_uplink_session_start psa algorithm private_key s =
     (let up = (sa_uplink s)\<lparr>se_flags := 0, se_id := (se_id (sa_uplink s))\<lparr>sid_type := SESSION_ID_TYPE_RANDOM\<rparr>\<rparr>;
          (err, sid, p) = session_id_generate psa (se_id up) (sa_psa s);
          up = up\<lparr>se_id := sid\<rparr> in
      if is_err err then (err, s\<lparr>sa_uplink := up, sa_psa := p\<rparr>)
      else
        let pubkey = cert_server_key_get (sa_cert s);
            (key, p) = session_key_generate psa sid algorithm (of_nat MAX_BLOCK_PAYLOAD_SIZE_LOG) private_key
              pubkey PSA_KEY_USAGE_ENCRYPT p;
            up = up\<lparr>se_key := key, se_algorithm := algorithm, se_pouch_id := 0,
                    se_flags := set_bit SAEAD_SESSION_ACTIVE (set_bit SESSION_VALID (se_flags up))\<rparr> in
        (OK, s\<lparr>sa_uplink := up, sa_psa := p\<rparr>))"

definition saead_uplink_pouch_start :: "('p, 'x) saead_state \<Rightarrow> ret \<times> ('p, 'x) saead_state" where
  "saead_uplink_pouch_start s =
     (case session_pouch_start (sa_uplink s) (se_pouch_id (sa_uplink s) + 1) of (err, up) \<Rightarrow>
        (err, s\<lparr>sa_uplink := up\<rparr>))"

text \<open>The header keeps its zero-initialised fields when an error is returned; nobody reads them then.\<close>

definition session_info_zero :: session_info where
  "session_info_zero = \<lparr>si_id = Session_id_random [], si_initiator = POUCH_ROLE_DEVICE,
     si_algorithm = Chacha20_poly1305, si_max_block_size_log = 0, si_cert_ref = []\<rparr>"

definition saead_uplink_header_get :: "('p, 'x) saead_state \<Rightarrow> ret \<times> encryption_info" where
  "saead_uplink_header_get s =
     (let up = sa_uplink s in
      if \<not> bit (se_flags up) SAEAD_SESSION_ACTIVE then (Err ENOTCONN, Saead_info session_info_zero 0)
      else
        let info = \<lparr>si_id = (if sid_type (se_id up) = SESSION_ID_TYPE_SEQUENTIAL
                       then Session_id_sequential (sid_tag (se_id up)) (sid_seqnum (se_id up))
                       else Session_id_random (sid_value (se_id up))),
               si_initiator = POUCH_ROLE_DEVICE,
               si_algorithm = (if se_algorithm up = PSA_ALG_CHACHA20_POLY1305 then Chacha20_poly1305 else Aes_gcm),
               si_max_block_size_log = of_nat MAX_BLOCK_PAYLOAD_SIZE_LOG, si_cert_ref = []\<rparr> in
        case cert_ref_get (sa_cert s) of
          None \<Rightarrow> (Err EBUSY, Saead_info info 0)
        | Some cert_ref \<Rightarrow>
            (OK, Saead_info (info\<lparr>si_cert_ref := take CERT_REF_SHORT_LEN cert_ref\<rparr>) (se_pouch_id up)))"

definition saead_uplink_encrypt_block ::
    "'p psa \<Rightarrow> addr \<Rightarrow> ('p, 'x) saead_state \<Rightarrow> heap \<Rightarrow> (addr option \<times> ('p, 'x) saead_state \<times> heap) option" where
  "saead_uplink_encrypt_block psa block s h =
     (if \<not> bit (se_flags (sa_uplink s)) SAEAD_SESSION_ACTIVE
      then do { h \<leftarrow> buf_free (Some block) h; Some (None, s, h) }
      else do {
        (encrypted, up, h) \<leftarrow> session_encrypt_block psa block (sa_uplink s) (sa_psa s) h;
        h \<leftarrow> buf_free (Some block) h;
        Some (encrypted, s\<lparr>sa_uplink := up\<rparr>, h) })"

definition saead_uplink_session_end :: "'p psa \<Rightarrow> ('p, 'x) saead_state \<Rightarrow> ('p, 'x) saead_state" where
  "saead_uplink_session_end psa s =
     (case session_end psa (sa_uplink s) (sa_psa s) of (up, p) \<Rightarrow> s\<lparr>sa_uplink := up, sa_psa := p\<rparr>)"

definition saead_uplink_session_matches :: "session_id \<Rightarrow> u8 \<Rightarrow> psa_algorithm \<Rightarrow> ('p, 'x) saead_state \<Rightarrow> bool" where
  "saead_uplink_session_matches sid max_block_size_log algorithm s =
     (bit (se_flags (sa_uplink s)) SESSION_VALID \<and> session_id_is_equal sid (se_id (sa_uplink s))
      \<and> max_block_size_log = of_nat MAX_BLOCK_PAYLOAD_SIZE_LOG \<and> se_algorithm (sa_uplink s) = algorithm)"

definition saead_uplink_session_key_copy ::
    "'p psa \<Rightarrow> u32 \<Rightarrow> ('p, 'x) saead_state \<Rightarrow> psa_key_id_t \<times> ('p, 'x) saead_state" where
  "saead_uplink_session_key_copy psa usage s =
     (if \<not> bit (se_flags (sa_uplink s)) SESSION_VALID then (PSA_KEY_ID_NULL, s)
      else case psa_copy_key psa (se_key (sa_uplink s)) usage (sa_psa s) of (status, copy, p) \<Rightarrow>
        (if status \<noteq> 0 then PSA_KEY_ID_NULL else copy, s\<lparr>sa_psa := p\<rparr>))"

section \<open>Downlink sessions\<close>

definition DOWNLINK_KEY_USAGE :: u32 where
  "DOWNLINK_KEY_USAGE = PSA_KEY_USAGE_DECRYPT OR PSA_KEY_USAGE_VERIFY_MESSAGE"

definition is_valid_downlink :: "session_id \<Rightarrow> psa_algorithm \<Rightarrow> ('p, 'x) saead_state \<Rightarrow> bool" where
  "is_valid_downlink sid algorithm s =
     (if \<not> bit (se_flags (sa_downlink s)) SESSION_VALID then True
      else if session_id_is_equal (se_id (sa_downlink s)) sid \<and> se_algorithm (sa_downlink s) \<noteq> algorithm then False
      else if sid_initiator sid = POUCH_ROLE_SERVER \<and> sid_type sid = SESSION_ID_TYPE_SEQUENTIAL
        \<and> sid_seqnum sid \<le> sa_server_seqnum s then False
      else True)"

definition downlink_session_key ::
    "'p psa \<Rightarrow> session_id \<Rightarrow> psa_algorithm \<Rightarrow> u8 \<Rightarrow> psa_key_id_t \<Rightarrow> ('p, 'x) saead_state
      \<Rightarrow> (errno + psa_key_id_t) \<times> ('p, 'x) saead_state" where
  "downlink_session_key psa sid algorithm max_block_size_log private_key s =
     (if sid_initiator sid = POUCH_ROLE_DEVICE then
        if sid_type sid \<noteq> SESSION_ID_TYPE_SEQUENTIAL then (Inl EBADMSG, s)
        else if \<not> saead_uplink_session_matches sid max_block_size_log algorithm s then (Inl EBADMSG, s)
        else (case saead_uplink_session_key_copy psa DOWNLINK_KEY_USAGE s of (key, s) \<Rightarrow> (Inr key, s))
      else (case session_key_generate psa sid algorithm max_block_size_log private_key
                   (cert_server_key_get (sa_cert s)) DOWNLINK_KEY_USAGE (sa_psa s) of (key, p) \<Rightarrow>
              (Inr key, s\<lparr>sa_psa := p\<rparr>)))"

definition saead_downlink_session_start ::
    "'p psa \<Rightarrow> session_id \<Rightarrow> psa_algorithm \<Rightarrow> u8 \<Rightarrow> psa_key_id_t \<Rightarrow> ('p, 'x) saead_state
      \<Rightarrow> ret \<times> ('p, 'x) saead_state" where
  "saead_downlink_session_start psa sid algorithm max_block_size_log private_key s =
     (if \<not> is_valid_downlink sid algorithm s then (Err EBADMSG, s)
      else case downlink_session_key psa sid algorithm max_block_size_log private_key s of
        (Inl e, s) \<Rightarrow> (Err e, s)
      | (Inr session_key, s) \<Rightarrow>
          if session_key = PSA_KEY_ID_NULL then (Err EIO, s)
          else (OK, s\<lparr>sa_downlink := (sa_downlink s)\<lparr>se_flags := set_bit SAEAD_SESSION_ACTIVE 0, se_pouch_id := 0,
                  se_algorithm := algorithm, se_key := session_key, se_id := sid\<rparr>\<rparr>))"

definition saead_downlink_session_end :: "'p psa \<Rightarrow> ('p, 'x) saead_state \<Rightarrow> ('p, 'x) saead_state" where
  "saead_downlink_session_end psa s =
     (case session_end psa (sa_downlink s) (sa_psa s) of (dl, p) \<Rightarrow> s\<lparr>sa_downlink := dl, sa_psa := p\<rparr>)"

definition saead_downlink_pouch_start :: "u16 \<Rightarrow> ('p, 'x) saead_state \<Rightarrow> ret \<times> ('p, 'x) saead_state" where
  "saead_downlink_pouch_start pouch_id s =
     (if bit (se_flags (sa_downlink s)) SESSION_HAS_POUCH \<and> pouch_id \<le> sa_server_pouch_id s then (Err EBADMSG, s)
      else case session_pouch_start (sa_downlink s) pouch_id of (err, dl) \<Rightarrow> (err, s\<lparr>sa_downlink := dl\<rparr>))"

definition saead_downlink_block_decrypt ::
    "'p psa \<Rightarrow> addr option \<Rightarrow> ('p, 'x) saead_state \<Rightarrow> heap \<Rightarrow> (addr option \<times> ('p, 'x) saead_state \<times> heap) option" where
  "saead_downlink_block_decrypt psa block s h = do {
     (decrypted, dl, h) \<leftarrow> session_decrypt_block psa block (sa_downlink s) (sa_psa s) h;
     h \<leftarrow> buf_free block h;
     let s = s\<lparr>sa_downlink := dl\<rparr>;
     (case decrypted of
        None \<Rightarrow> Some (None, s, h)
      | Some a \<Rightarrow>
          let dl = dl\<lparr>se_flags := set_bit SESSION_HAS_POUCH (set_bit SESSION_VALID (se_flags dl))\<rparr>;
              s = s\<lparr>sa_downlink := dl, sa_server_pouch_id := se_pouch_id dl\<rparr>;
              s = (if sid_initiator (se_id dl) = POUCH_ROLE_SERVER \<and> sid_type (se_id dl) = SESSION_ID_TYPE_SEQUENTIAL
                   then s\<lparr>sa_server_seqnum := sid_seqnum (se_id dl)\<rparr> else s) in
          Some (Some a, s, h)) }"

section \<open>The backend\<close>

record pouch_config =
  pcfg_certificate :: pouch_cert
  pcfg_private_key :: psa_key_id_t

definition saead_crypto_init ::
    "('x, 'k) x509_env \<Rightarrow> pouch_config \<Rightarrow> ('p, 'x) saead_state \<Rightarrow> (ret \<times> ('p, 'x) saead_state) option" where
  "saead_crypto_init env config s =
     (if pcfg_private_key config = PSA_KEY_ID_NULL then Some (Err EINVAL, s)
      else do {
        (err, cs) \<leftarrow> cert_device_set env (Some (pcfg_certificate config)) (sa_cert s);
        let s = s\<lparr>sa_cert := cs\<rparr>;
        if is_err err then Some (err, s) else Some (OK, s\<lparr>sa_pkey := pcfg_private_key config\<rparr>) })"

definition downlink_session_id :: "session_info \<Rightarrow> errno + session_id" where
  "downlink_session_id session =
     (case si_id session of
        Session_id_random r \<Rightarrow>
          if length r \<noteq> SESSION_ID_LEN then Inl EINVAL
          else Inr \<lparr>sid_type = SESSION_ID_TYPE_RANDOM, sid_initiator = si_initiator session, sid_value = r\<rparr>
      | Session_id_sequential tag seqn \<Rightarrow>
          if length tag \<noteq> SESSION_ID_TAG_LEN then Inl EINVAL
          else Inr \<lparr>sid_type = SESSION_ID_TYPE_SEQUENTIAL, sid_initiator = si_initiator session,
                    sid_value = sequential_value tag seqn\<rparr>)"

definition saead_crypto_downlink_start ::
    "'p psa \<Rightarrow> encryption_info \<Rightarrow> ('p, 'x) saead_state \<Rightarrow> ret \<times> ('p, 'x) saead_state" where
  "saead_crypto_downlink_start psa info s =
     (case info of
        Plaintext_info _ \<Rightarrow> (Err ENOTSUP, s)
      | Saead_info session pouch_id \<Rightarrow>
          (case downlink_session_id session of
             Inl e \<Rightarrow> (Err e, s)
           | Inr sid \<Rightarrow>
               (case saead_downlink_session_start psa sid
                       (if si_algorithm session = Aes_gcm then PSA_ALG_GCM else PSA_ALG_CHACHA20_POLY1305)
                       (si_max_block_size_log session) (sa_pkey s) s of (err, s) \<Rightarrow>
                  if is_err err then (err, s) else saead_downlink_pouch_start pouch_id s)))"

definition saead_crypto_session_start ::
    "'p psa \<Rightarrow> psa_algorithm \<Rightarrow> ('p, 'x) saead_state \<Rightarrow> ret \<times> ('p, 'x) saead_state" where
  "saead_crypto_session_start psa encryption_algorithm s =
     saead_uplink_session_start psa encryption_algorithm (sa_pkey s) s"

definition saead_crypto_session_end :: "'p psa \<Rightarrow> ('p, 'x) saead_state \<Rightarrow> ('p, 'x) saead_state" where
  "saead_crypto_session_end psa s = saead_downlink_session_end psa (saead_uplink_session_end psa s)"

definition POUCH_HEADER_MAX_LEN_SAEAD :: nat where
  "POUCH_HEADER_MAX_LEN_SAEAD = 16 + SESSION_ID_LEN + CERT_REF_SHORT_LEN"

definition crypto_saead :: "'p psa \<Rightarrow> psa_algorithm \<Rightarrow> ('p, 'x) saead_state crypto_ops" where
  "crypto_saead psa encryption_algorithm = \<lparr>co_auth_tag_len = AUTH_TAG_LEN,
     co_header_max_len = POUCH_HEADER_MAX_LEN_SAEAD,
     co_session_start = saead_crypto_session_start psa encryption_algorithm,
     co_session_end = saead_crypto_session_end psa,
     co_downlink_start = saead_crypto_downlink_start psa,
     co_pouch_start = saead_uplink_pouch_start,
     co_header_get = (\<lambda>s. Some (saead_uplink_header_get s)),
     co_decrypt_block = saead_downlink_block_decrypt psa,
     co_encrypt_block = saead_uplink_encrypt_block psa\<rparr>"

section \<open>The contract\<close>

lemma hstep_free_second:
  assumes "own h ((a, P) # (blk, Q) # R)"
  shows "\<exists>h'. buf_free (Some blk) h = Some h' \<and> hstep h ((a, P) # (blk, Q) # R) h' ((a, P) # R)
    \<and> store h' = (store h)(blk := None)"
proof -
  have p: "hstep h ((a, P) # (blk, Q) # R) h ((blk, Q) # (a, P) # R)"
    by (rule hstep_perm [OF assms]) simp
  from hstep_free [OF hstep_own [OF p]] show ?thesis using hstep_trans [OF p] by blast
qed

lemma block_done_body:
  assumes "block_done b"
  obtains body where "contents b = put_be16 (of_nat (length body)) @ body" "length body \<le> 513"
proof -
  from assms obtain bid pl where "is_block b bid pl" "contents b = block_wire bid pl"
    by (auto simp: block_done_def)
  then show ?thesis using is_block_bytes(2) [of b bid pl]
    by (intro that [of "bid # pl"]) (auto simp: block_wire_def)
qed

lemma saead_encrypt_safe:
  assumes "own h ((blk, block_done) # R)"
  shows "\<exists>r c' h'. saead_uplink_encrypt_block psa blk c h = Some (r, c', h')
    \<and> hstep h ((blk, block_done) # R) h' (opt_role r any_role @ R)"
proof (cases "bit (se_flags (sa_uplink c)) SAEAD_SESSION_ACTIVE")
  case False
  then show ?thesis using hstep_free [OF assms] by (fastforce simp: saead_uplink_encrypt_block_def)
next
  case True
  from assms obtain b where b: "store h blk = Some b" "block_done b" by (auto simp: own_Cons_iff)
  obtain body where body: "contents b = put_be16 (of_nat (length body)) @ body" "length body \<le> 513"
    by (rule block_done_body [OF b(2)])
  have c: "contents x = put_be16 (of_nat (length body)) @ body" if "store h blk = Some x" for x
    using that b body by simp
  show ?thesis
  proof (cases rule: session_encrypt_step [OF assms c body(2) refl, where psa = psa and p = "sa_psa c" and se = "sa_uplink c"])
    case 1
    then show ?case by assumption
  next
    case (2 h1)
    from hstep_free [OF hstep_own [OF 2(2)]] obtain h2 where "buf_free (Some blk) h1 = Some h2"
      "hstep h1 ((blk, block_done) # R) h2 R" by blast
    then show ?thesis using True 2(1) hstep_trans [OF 2(2)]
      by (auto simp: saead_uplink_encrypt_block_def)
  next
    case (3 a out h1)
    from hstep_free_second [OF hstep_own [OF 3(4)]] obtain h2 where
      f: "buf_free (Some blk) h1 = Some h2"
        "hstep h1 ((a, framed 531 out) # (blk, block_done) # R) h2 ((a, framed 531 out) # R)" by blast
    have "hstep h2 ((a, framed 531 out) # R) h2 ((a, any_role) # R)"
      by (rule hstep_role [OF hstep_own [OF f(2)]]) (simp add: any_role_def)
    then have "hstep h ((blk, block_done) # R) h2 ((a, any_role) # R)"
      using hstep_trans [OF 3(4) f(2)] by (blast intro: hstep_trans)
    then show ?thesis using True 3(1) f(1) by (auto simp: saead_uplink_encrypt_block_def)
  qed
qed

lemma saead_decrypt_safe:
  assumes "own h ((blk, received_role 16) # R)"
  shows "\<exists>r c' h'. saead_downlink_block_decrypt psa (Some blk) c h = Some (r, c', h')
    \<and> hstep h ((blk, received_role 16) # R) h' (opt_role r any_role @ R)"
proof -
  from assms obtain b where b: "store h blk = Some b" "cap b = 531"
    by (auto simp: own_Cons_iff received_role_def MAX_CIPHERTEXT_BLOCK_SIZE_def)
  show ?thesis
  proof (cases rule: session_decrypt_step [OF assms b refl, where psa = psa and p = "sa_psa c" and se = "sa_downlink c"])
    case (1 h1)
    from hstep_free [OF hstep_own [OF 1(2)]] obtain h2 where "buf_free (Some blk) h1 = Some h2"
      "hstep h1 ((blk, received_role 16) # R) h2 R" by blast
    then show ?thesis using 1(1) hstep_trans [OF 1(2)]
      by (auto simp: saead_downlink_block_decrypt_def Let_def)
  next
    case (2 a ct out h1)
    from hstep_free_second [OF hstep_own [OF 2(6)]] obtain h2 where
      f: "buf_free (Some blk) h1 = Some h2"
        "hstep h1 ((a, framed 515 out) # (blk, received_role 16) # R) h2 ((a, framed 515 out) # R)" by blast
    have "hstep h2 ((a, framed 515 out) # R) h2 ((a, any_role) # R)"
      by (rule hstep_role [OF hstep_own [OF f(2)]]) (simp add: any_role_def)
    then have "hstep h ((blk, received_role 16) # R) h2 ((a, any_role) # R)"
      using hstep_trans [OF 2(6) f(2)] by (blast intro: hstep_trans)
    then show ?thesis using 2(1) f(1) by (auto simp: saead_downlink_block_decrypt_def Let_def)
  qed
qed

lemma crypto_saead_simps [simp]:
  "co_auth_tag_len (crypto_saead psa alg) = 16" "co_header_max_len (crypto_saead psa alg) = 38"
  "co_session_start (crypto_saead psa alg) = saead_crypto_session_start psa alg"
  "co_session_end (crypto_saead psa alg) = saead_crypto_session_end psa"
  "co_downlink_start (crypto_saead psa alg) = saead_crypto_downlink_start psa"
  "co_pouch_start (crypto_saead psa alg) = saead_uplink_pouch_start"
  "co_header_get (crypto_saead psa alg) s = Some (saead_uplink_header_get s)"
  "co_decrypt_block (crypto_saead psa alg) = saead_downlink_block_decrypt psa"
  "co_encrypt_block (crypto_saead psa alg) = saead_uplink_encrypt_block psa"
  by (simp_all add: crypto_saead_def AUTH_TAG_LEN_def POUCH_HEADER_MAX_LEN_SAEAD_def SESSION_ID_LEN_def
      CERT_REF_SHORT_LEN_def)

interpretation saead: crypto_backend "crypto_saead psa alg" for psa :: "'p psa" and alg
  by unfold_locales (simp_all add: SIZE_MOD_num saead_encrypt_safe saead_decrypt_safe)

section \<open>The uplink with SAEAD\<close>

text \<open>
  The encrypted build, whatever the application, the transport and the crypto
  library do: the statement for the plaintext build holds for it as well. In every state API
  calls reach, each buffer is held exactly once, the live buffers are those held, so a block whose
  encryption fails and the plaintext of one that succeeds are both released, and the next allowed
  call returns without undefined behaviour.
\<close>

theorem saead_calls_safe:
  assumes "uplink_reachable (crypto_saead psa alg) enc (pouch_static oracle c) s" and "encoder_ok enc"
  shows "uplink_inv s \<and> live (p_heap s) = fst ` set (uplink_roles s)
    \<and> buf_active_count (p_heap s) = int (length (uplink_roles s))
    \<and> (\<forall>call. call_ok (crypto_saead psa alg) call s \<longrightarrow>
         (\<exists>s'. uplink_exec (crypto_saead psa alg) enc call s = Some s'))"
proof -
  have safe: "uplink_safe (pouch_static oracle c) s"
    by (rule saead.uplink_reachable_safe [OF assms(1) _ assms(2)]) simp
  then show ?thesis
    using uplink_safe_inv [OF safe] static_safe [OF safe]
      saead.uplink_exec_safe [OF uplink_safe_inv [OF safe] assms(2)]
    by (simp add: buf_active_count_def) blast
qed

definition demo_psa :: "unit psa" where
  "demo_psa = \<lparr>psa_generate_random = (\<lambda>n p. (0, replicate n 7, p)), psa_destroy_key = (\<lambda>k p. p),
     psa_copy_key = (\<lambda>k u p. (0, k, p)), psa_key_derivation_setup = (\<lambda>p. (0, p)),
     psa_key_derivation_key_agreement = (\<lambda>k b p. (0, p)), psa_key_derivation_input_info = (\<lambda>b p. (0, p)),
     psa_key_derivation_output_key = (\<lambda>a p. (0, 1, p)), psa_key_derivation_abort = (\<lambda>p. p),
     psa_aead_encrypt = (\<lambda>p k a n ad m z. Inr (m @ replicate 16 9)),
     psa_aead_decrypt = (\<lambda>p k a n ad c z. if length c < 16 then Inl 1 else Inr (take (length c - 16) c)),
     base64_encode = (\<lambda>bs. Some (replicate 24 65))\<rparr>"

lemma saead_calls_safe_witness:
  "\<exists>s. uplink_exec (crypto_saead demo_psa PSA_ALG_GCM) (\<lambda>_ _. Inl 0) Uplink_start
      (pouch_static (\<lambda>_. None) (saead_static 65 () :: (unit, unit) saead_state)) = Some s"
proof -
  let ?enc = "\<lambda>_ _. Inl 0 :: nat + u8 list"
    and ?s0 = "pouch_static (\<lambda>_. None) (saead_static 65 () :: (unit, unit) saead_state)"
    and ?ops = "crypto_saead demo_psa PSA_ALG_GCM"
  have e: "encoder_ok ?enc" by (simp add: encoder_ok_def)
  have r0: "uplink_reachable ?ops ?enc ?s0 ?s0" by (rule uplink_reachable.init)
  have "call_ok ?ops Uplink_start ?s0" by (simp add: uplink_static_def)
  with saead_calls_safe [OF r0 e] show ?thesis by blast
qed

section \<open>Nonces and key separation\<close>







text \<open>What the base64 encoder of 16 bytes promises.\<close>

definition base64_ok :: "'p psa \<Rightarrow> bool" where
  "base64_ok psa \<longleftrightarrow> (\<forall>bs x. base64_encode psa bs = Some x \<longrightarrow> length bs = SESSION_ID_LEN \<longrightarrow>
     length x = BASE64_STRLEN SESSION_ID_LEN)
   \<and> (\<forall>bs bs' x. base64_encode psa bs = Some x \<longrightarrow> base64_encode psa bs' = Some x \<longrightarrow> bs = bs')"

lemma hex_digit_inject:
  assumes "m < 16" and "n < 16"
  shows "hex_digit m = hex_digit n \<longleftrightarrow> m = n"
proof -
  have v: "unat (hex_digit k) = (if k < 10 then 48 + k else 87 + k)" if "k < 16" for k
  proof -
    have "48 + k < 256" "87 + k < 256" using that by simp_all
    then show ?thesis unfolding hex_digit_def
      by (auto simp: unat_of_nat simp del: of_nat_add)
  qed
  have "m = n" if "hex_digit m = hex_digit n"
    using v [OF assms(1)] v [OF assms(2)] assms unfolding that by (simp split: if_splits)
  then show ?thesis by blast
qed

lemma hex2_inject: "hex2 a = hex2 b \<longleftrightarrow> a = b"
proof
  assume h: "hex2 a = hex2 b"
  have lt: "unat a < 256" "unat b < 256" using unsigned_less [of a, where ?'a = nat] unsigned_less [of b, where ?'a = nat]
    by simp_all
  then have d: "unat a div 16 < 16" "unat b div 16 < 16" by (simp_all add: less_mult_imp_div_less)
  have "unat a div 16 = unat b div 16" "unat a mod 16 = unat b mod 16"
    using h hex_digit_inject [OF d] hex_digit_inject [of "unat a mod 16" "unat b mod 16"] by (simp_all add: hex2_def)
  then have "unat a = unat b" by (metis div_mult_mod_eq)
  then show "a = b" by (simp add: word_unat_eq_iff)
qed simp

text \<open>
  Property C25. The info string of the key derivation fits its buffer and separates keys. For a
  session id of 16 bytes the string has 36 characters, so that with its terminator it fills the
  37 bytes of the buffer exactly and is never cut or written past it; and two sessions that differ
  in the initiator, the kind of id, the id itself, the algorithm or the block size derive their
  keys from different strings.
\<close>

theorem session_key_info:
  assumes "base64_ok psa" and "length (sid_value sid) = SESSION_ID_LEN" and "length (sid_value sid') = SESSION_ID_LEN"
    and "session_key_info_build psa sid alg lg = Inr info" and "session_key_info_build psa sid' alg' lg' = Inr info'"
  shows "length info + 1 = INFO_MAX_LEN
    \<and> (info = info' \<longleftrightarrow> session_id_is_equal sid sid' \<and> lg = lg'
         \<and> (alg = PSA_ALG_CHACHA20_POLY1305 \<longleftrightarrow> alg' = PSA_ALG_CHACHA20_POLY1305))"
proof -
  obtain x y where x: "base64_encode psa (sid_value sid) = Some x" and y: "base64_encode psa (sid_value sid') = Some y"
    using assms(4,5) by (auto simp: session_key_info_build_def split: option.splits)
  have l: "length x = 24" "length y = 24"
    using assms(1,2,3) x y by (auto simp: base64_ok_def BASE64_STRLEN_def SESSION_ID_LEN_def)
  have xy: "x = y \<longleftrightarrow> sid_value sid = sid_value sid'" using assms(1) x y by (auto simp: base64_ok_def)
  define ini where "ini r = (if r = POUCH_ROLE_DEVICE then asc ''D'' else asc ''S'')" for r
  define al where "al a = (if a = PSA_ALG_CHACHA20_POLY1305 then asc ''C'' else asc ''A'')" for a
  define ty where "ty t = (if t = SESSION_ID_TYPE_SEQUENTIAL then asc ''S'' else asc ''R'')" for t
  have i: "info = asc ''E0:'' @ ini (sid_initiator sid) @ asc '':'' @ x @ asc '':C'' @ al alg @ ty (sid_type sid) @ asc '':'' @ hex2 lg"
    "info' = asc ''E0:'' @ ini (sid_initiator sid') @ asc '':'' @ y @ asc '':C'' @ al alg' @ ty (sid_type sid') @ asc '':'' @ hex2 lg'"
    using assms(4,5) x y by (auto simp: session_key_info_build_def ini_def al_def ty_def)
  have lens: "length (ini r) = 1" "length (al a) = 1" "length (ty t) = 1" "length (hex2 w) = 2" "length (asc str) = length str"
    for r a t w str by (simp_all add: ini_def al_def ty_def hex2_def asc_def)
  have inj: "ini r = ini r' \<longleftrightarrow> r = r'" "al a = al a' \<longleftrightarrow> (a = PSA_ALG_CHACHA20_POLY1305) = (a' = PSA_ALG_CHACHA20_POLY1305)"
    "ty t = ty t' \<longleftrightarrow> t = t'" for r r' a a' t t'
    subgoal by (cases r; cases r'; simp add: ini_def asc_def)
    subgoal by (simp add: al_def asc_def)
    subgoal by (cases t; cases t'; simp add: ty_def asc_def)
    done
  have "length info = 36" using i l by (simp add: lens)
  then have "length info + 1 = INFO_MAX_LEN"
    by (simp add: INFO_MAX_LEN_def BASE64_STRLEN_def SESSION_ID_LEN_def)
  moreover have "info = info' \<longleftrightarrow> ini (sid_initiator sid) = ini (sid_initiator sid') \<and> x = y \<and> al alg = al alg'
      \<and> ty (sid_type sid) = ty (sid_type sid') \<and> hex2 lg = hex2 lg'"
    unfolding i using l by (simp add: append_eq_append_conv lens)
  ultimately show ?thesis using inj xy hex2_inject by (auto simp: session_id_is_equal_def)
qed

lemma session_key_info_witness:
  "\<exists>info. session_key_info_build (demo_psa\<lparr>base64_encode := \<lambda>bs. if length bs = 16 then Some (bs @ replicate 8 65) else None\<rparr>)
      (se_id session_static) PSA_ALG_GCM 9 = Inr info \<and> length info + 1 = INFO_MAX_LEN"
proof -
  let ?psa = "demo_psa\<lparr>base64_encode := \<lambda>bs. if length bs = 16 then Some (bs @ replicate 8 65) else None\<rparr>"
  have b: "base64_ok ?psa" by (auto simp: base64_ok_def SESSION_ID_LEN_def BASE64_STRLEN_def split: if_splits)
  have l: "length (sid_value (se_id session_static)) = SESSION_ID_LEN" by (simp add: session_static_def)
  obtain info where "session_key_info_build ?psa (se_id session_static) PSA_ALG_GCM 9 = Inr info"
    by (simp add: session_key_info_build_def session_static_def SESSION_ID_LEN_def)
  from session_key_info [OF b l l this this] this show ?thesis by blast
qed

section \<open>Round trips\<close>

text \<open>
  The AEAD law: with a key \<open>k\<close> and the peer's copy \<open>k'\<close>, encryption succeeds, adds the 16 bytes
  of the tag, and decryption with the same nonce and additional data inverts it.
\<close>

definition aead_ok :: "'p psa \<Rightarrow> 'p \<Rightarrow> psa_key_id_t \<Rightarrow> psa_key_id_t \<Rightarrow> psa_algorithm \<Rightarrow> bool" where
  "aead_ok psa p k k' alg \<longleftrightarrow> (\<forall>nonce ad m. \<exists>c. psa_aead_encrypt psa p k alg nonce ad m (length m + 16) = Inr c
     \<and> length c = length m + 16 \<and> psa_aead_decrypt psa p k' alg nonce ad c (length m) = Inr m)"

text \<open>The peer: a sender and a receiver of a pouch, on message contents.\<close>

fun seal :: "'p psa \<Rightarrow> 'p \<Rightarrow> pouch_role \<Rightarrow> session \<Rightarrow> u8 list list \<Rightarrow> u8 list list option" where
  "seal psa p sender se [] = Some []"
| "seal psa p sender se (m # ms) =
     (case psa_aead_encrypt psa p (se_key se) (se_algorithm se) (nonce_generate se sender) (block_ad se) m (length m + 16) of
        Inl e \<Rightarrow> None
      | Inr c \<Rightarrow> map_option ((#) c) (seal psa p sender (next_block (drop (length m) c) se) ms))"

fun unseal :: "'p psa \<Rightarrow> 'p \<Rightarrow> pouch_role \<Rightarrow> session \<Rightarrow> u8 list list \<Rightarrow> u8 list list option" where
  "unseal psa p sender se [] = Some []"
| "unseal psa p sender se (c # cs) =
     (case psa_aead_decrypt psa p (se_key se) (se_algorithm se) (nonce_generate se sender) (block_ad se) c (length c - 16) of
        Inl e \<Rightarrow> None
      | Inr m \<Rightarrow> map_option ((#) m) (unseal psa p sender (next_block (drop (length m) c) se) cs))"

text \<open>The calls that the two pipelines make for a sequence of blocks.\<close>

fun encrypt_all ::
    "'p psa \<Rightarrow> addr list \<Rightarrow> ('p, 'x) saead_state \<Rightarrow> heap \<Rightarrow> (addr list \<times> ('p, 'x) saead_state \<times> heap) option" where
  "encrypt_all psa [] s h = Some ([], s, h)"
| "encrypt_all psa (a # as) s h = do {
     (r, s, h) \<leftarrow> saead_uplink_encrypt_block psa a s h;
     (rs, s, h) \<leftarrow> encrypt_all psa as s h;
     Some ((case r of None \<Rightarrow> rs | Some x \<Rightarrow> x # rs), s, h) }"

fun decrypt_all ::
    "'p psa \<Rightarrow> addr list \<Rightarrow> ('p, 'x) saead_state \<Rightarrow> heap \<Rightarrow> (addr list \<times> ('p, 'x) saead_state \<times> heap) option" where
  "decrypt_all psa [] s h = Some ([], s, h)"
| "decrypt_all psa (a # as) s h = do {
     (r, s, h) \<leftarrow> saead_downlink_block_decrypt psa (Some a) s h;
     (rs, s, h) \<leftarrow> decrypt_all psa as s h;
     Some ((case r of None \<Rightarrow> rs | Some x \<Rightarrow> x # rs), s, h) }"

definition wire :: "u8 list \<Rightarrow> u8 list" where
  "wire m = put_be16 (of_nat (length m)) @ m"

definition wire_role :: "u8 list \<Rightarrow> pouch_buf \<Rightarrow> bool" where
  "wire_role m b \<longleftrightarrow> contents b = wire m"

definition wire_roles :: "addr list \<Rightarrow> u8 list list \<Rightarrow> role list" where
  "wire_roles as ms = map (\<lambda>(a, m). (a, wire_role m)) (zip as ms)"

lemma wire_roles_simps [simp]: "wire_roles [] ms = []" "wire_roles as [] = []"
  "wire_roles (a # as) (m # ms) = (a, wire_role m) # wire_roles as ms"
  by (simp_all add: wire_roles_def)

lemma wire_roles_contents:
  assumes "own h (wire_roles as ms @ R)" and "length as = length ms"
  shows "map (buf_contents h) as = map wire ms"
  using assms(2,1)
  by (induction as ms rule: list_induct2) (auto simp: own_Cons_iff buf_contents_def wire_role_def)

lemma framed_wire: "framed M m b \<Longrightarrow> wire_role m b"
  by (simp add: framed_def wire_role_def wire_def)

lemma encrypt_one:
  assumes o: "own h ((blk, wire_role m) # R)" and l: "length m \<le> 513"
    and act: "bit (se_flags (sa_uplink s)) SAEAD_SESSION_ACTIVE"
    and ok: "aead_ok psa (sa_psa s) (se_key (sa_uplink s)) k' (se_algorithm (sa_uplink s))"
    and mal: "malloc_oracle h (next_addr h) \<noteq> None"
  obtains a c h' where
    "saead_uplink_encrypt_block psa blk s h
       = Some (Some a, s\<lparr>sa_uplink := next_block (drop (length m) c) (sa_uplink s)\<rparr>, h')"
    "hstep h ((blk, wire_role m) # R) h' ((a, wire_role c) # R)" "length c = length m + 16"
    "psa_aead_decrypt psa (sa_psa s) k' (se_algorithm (sa_uplink s)) (nonce_generate (sa_uplink s) POUCH_ROLE_DEVICE)
       (block_ad (sa_uplink s)) c (length m) = Inr m"
proof -
  let ?up = "sa_uplink s"
  obtain c where c: "psa_aead_encrypt psa (sa_psa s) (se_key ?up) (se_algorithm ?up) (nonce_generate ?up POUCH_ROLE_DEVICE)
      (block_ad ?up) m (length m + 16) = Inr c" "length c = length m + 16"
      "psa_aead_decrypt psa (sa_psa s) k' (se_algorithm ?up) (nonce_generate ?up POUCH_ROLE_DEVICE) (block_ad ?up) c (length m) = Inr m"
    using ok unfolding aead_ok_def by blast
  have w: "contents x = put_be16 (of_nat (length m)) @ m" if "store h blk = Some x" for x
    using that o by (auto simp: own_Cons_iff wire_role_def wire_def)
  show ?thesis
  proof (cases rule: session_encrypt_step [OF o w l refl, where psa = psa and p = "sa_psa s" and se = ?up])
    case 1
    then show ?case by assumption
  next
    case (2 h1)
    then show ?thesis using mal c by auto
  next
    case (3 a out h1)
    have out: "out = c" using 3(2) c(1) by simp
    from hstep_free_second [OF hstep_own [OF 3(4)]] obtain h2 where
      f: "buf_free (Some blk) h1 = Some h2"
        "hstep h1 ((a, framed 531 out) # (blk, wire_role m) # R) h2 ((a, framed 531 out) # R)" by blast
    have "hstep h2 ((a, framed 531 out) # R) h2 ((a, wire_role c) # R)"
      using out by (intro hstep_role [OF hstep_own [OF f(2)]]) (auto dest: framed_wire)
    then have "hstep h ((blk, wire_role m) # R) h2 ((a, wire_role c) # R)"
      using hstep_trans [OF 3(4) f(2)] by (blast intro: hstep_trans)
    then show ?thesis using act 3(1) f(1) out c
      by (intro that [of a c h2]) (auto simp: saead_uplink_encrypt_block_def)
  qed
qed

lemma encrypt_all_ok:
  assumes "length blks = length ms" and "own h (wire_roles blks ms @ R)" and "\<forall>m\<in>set ms. length m \<le> 513"
    and "bit (se_flags (sa_uplink s)) SAEAD_SESSION_ACTIVE"
    and "aead_ok psa (sa_psa s) (se_key (sa_uplink s)) k' (se_algorithm (sa_uplink s))"
    and "\<forall>k. malloc_oracle h k \<noteq> None"
  shows "\<exists>as cs s' h'. encrypt_all psa blks s h = Some (as, s', h') \<and> length as = length cs
    \<and> hstep h (wire_roles blks ms @ R) h' (wire_roles as cs @ R)
    \<and> unseal psa (sa_psa s) POUCH_ROLE_DEVICE ((sa_uplink s)\<lparr>se_key := k'\<rparr>) cs = Some ms"
  using assms
proof (induction blks ms arbitrary: h s R rule: list_induct2)
  case Nil
  then show ?case by (auto intro!: exI [of _ "[]"] hstep_refl)
next
  case (Cons blk blks m ms)
  have o: "own h ((blk, wire_role m) # wire_roles blks ms @ R)" using Cons.prems(1) by simp
  obtain a c h1 where one: "saead_uplink_encrypt_block psa blk s h
       = Some (Some a, s\<lparr>sa_uplink := next_block (drop (length m) c) (sa_uplink s)\<rparr>, h1)"
    "hstep h ((blk, wire_role m) # wire_roles blks ms @ R) h1 ((a, wire_role c) # wire_roles blks ms @ R)"
    "length c = length m + 16"
    "psa_aead_decrypt psa (sa_psa s) k' (se_algorithm (sa_uplink s)) (nonce_generate (sa_uplink s) POUCH_ROLE_DEVICE)
       (block_ad (sa_uplink s)) c (length m) = Inr m"
    by (rule encrypt_one [OF o _ Cons.prems(3,4)]) (use Cons.prems in auto)
  let ?s1 = "s\<lparr>sa_uplink := next_block (drop (length m) c) (sa_uplink s)\<rparr>"
  have p: "hstep h1 ((a, wire_role c) # wire_roles blks ms @ R) h1 (wire_roles blks ms @ (a, wire_role c) # R)"
    by (rule hstep_perm [OF hstep_own [OF one(2)]]) simp
  obtain as cs s' h' where ih: "encrypt_all psa blks ?s1 h1 = Some (as, s', h')" "length as = length cs"
      "hstep h1 (wire_roles blks ms @ (a, wire_role c) # R) h' (wire_roles as cs @ (a, wire_role c) # R)"
      "unseal psa (sa_psa ?s1) POUCH_ROLE_DEVICE ((sa_uplink ?s1)\<lparr>se_key := k'\<rparr>) cs = Some ms"
    using Cons.IH [OF hstep_own [OF p], of ?s1] Cons.prems(2-5) hstep_env(1) [OF one(2)]
    by (auto simp: next_block_def)
  have q: "hstep h' (wire_roles as cs @ (a, wire_role c) # R) h' ((a, wire_role c) # wire_roles as cs @ R)"
    by (rule hstep_perm [OF hstep_own [OF ih(3)]]) simp
  have "hstep h (wire_roles (blk # blks) (m # ms) @ R) h' (wire_roles (a # as) (c # cs) @ R)"
    using hstep_trans [OF hstep_trans [OF hstep_trans [OF one(2) p] ih(3)] q] by simp
  moreover have "nonce_generate (se\<lparr>se_key := k'\<rparr>) r = nonce_generate se r" "block_ad (se\<lparr>se_key := k'\<rparr>) = block_ad se"
    "(next_block t se)\<lparr>se_key := k'\<rparr> = next_block t (se\<lparr>se_key := k'\<rparr>)" for se r t
    by (simp_all add: nonce_generate_def block_ad_def next_block_def)
  then have "unseal psa (sa_psa s) POUCH_ROLE_DEVICE ((sa_uplink s)\<lparr>se_key := k'\<rparr>) (c # cs) = Some (m # ms)"
    using one(3,4) ih(4) by simp
  ultimately show ?case using one(1) ih(1,2)
    by (intro exI [of _ "a # as"] exI [of _ "c # cs"] exI [of _ s'] exI [of _ h']) simp
qed

text \<open>
  Property C9. Uplink round trip. When the device encrypts a sequence of finished blocks in an
  active session (and no allocation fails), every block comes out, in order, as a frame with its
  own size field; the server, which follows the session with its copy of the key, the nonces of
  the device and each tag as the additional data of the next block, gets back exactly the
  plaintext of the blocks. The plaintext buffers are all released.
\<close>

theorem saead_uplink_roundtrip:
  assumes "length blks = length ms" and "own h (wire_roles blks ms @ R)" and "\<forall>m\<in>set ms. length m \<le> 513"
    and "bit (se_flags (sa_uplink s)) SAEAD_SESSION_ACTIVE"
    and "aead_ok psa (sa_psa s) (se_key (sa_uplink s)) k' (se_algorithm (sa_uplink s))"
    and "\<forall>k. malloc_oracle h k \<noteq> None"
  shows "\<exists>as cs s' h'. encrypt_all psa blks s h = Some (as, s', h')
    \<and> map (buf_contents h') as = map wire cs
    \<and> unseal psa (sa_psa s) POUCH_ROLE_DEVICE ((sa_uplink s)\<lparr>se_key := k'\<rparr>) cs = Some ms
    \<and> foreign h' (wire_roles as cs @ R) = foreign h (wire_roles blks ms @ R)"
proof -
  from encrypt_all_ok [OF assms] obtain as cs s' h' where e: "encrypt_all psa blks s h = Some (as, s', h')"
    "length as = length cs" "hstep h (wire_roles blks ms @ R) h' (wire_roles as cs @ R)"
    "unseal psa (sa_psa s) POUCH_ROLE_DEVICE ((sa_uplink s)\<lparr>se_key := k'\<rparr>) cs = Some ms" by blast
  moreover have "map (buf_contents h') as = map wire cs" by (rule wire_roles_contents [OF hstep_own [OF e(3)] e(2)])
  moreover have "foreign h' (wire_roles as cs @ R) = foreign h (wire_roles blks ms @ R)"
    using e(3) by (simp add: hstep_def)
  ultimately show ?thesis by blast
qed

lemma demo_psa_aead: "aead_ok demo_psa () k k' alg"
  by (simp add: aead_ok_def demo_psa_def)

definition demo_wire :: "u8 list \<Rightarrow> nat \<Rightarrow> heap" where
  "demo_wire m M = \<lparr>store = [0 \<mapsto> \<lparr>pb_bytes = 2 + length m, pb_mem = wire m @ replicate (M - 2 - length m) 0\<rparr>],
     next_addr = 1, malloc_oracle = (\<lambda>_. Some (\<lambda>_. 0)), bufs = 1\<rparr>"

lemma demo_wire_own:
  assumes "2 + length m \<le> M" and "M < SIZE_MOD"
  shows "own (demo_wire m M) (wire_roles [0] [m] @ [])"
  using assms
  by (auto simp: own_def demo_wire_def heap_ok_def buf_ok_def cap_def wire_role_def wire_def contents_def)

lemma saead_uplink_roundtrip_witness:
  "\<exists>as cs s' h'. encrypt_all demo_psa [0]
      ((saead_static 65 () :: (unit, unit) saead_state)\<lparr>sa_uplink := session_static\<lparr>se_flags := 2\<rparr>\<rparr>)
      (demo_wire [0xc0, 1, 2] 515) = Some (as, s', h')
    \<and> unseal demo_psa () POUCH_ROLE_DEVICE (session_static\<lparr>se_flags := 2, se_key := 5\<rparr>) cs = Some [[0xc0, 1, 2]]"
proof -
  let ?s = "(saead_static 65 () :: (unit, unit) saead_state)\<lparr>sa_uplink := session_static\<lparr>se_flags := 2\<rparr>\<rparr>"
  have o: "own (demo_wire [0xc0, 1, 2] 515) (wire_roles [0] [[0xc0, 1, 2]] @ [])"
    by (rule demo_wire_own) (simp_all add: SIZE_MOD_num)
  have "bit (se_flags (sa_uplink ?s)) SAEAD_SESSION_ACTIVE" by (simp add: SAEAD_SESSION_ACTIVE_def bit_numeral_rec)
  moreover have "aead_ok demo_psa (sa_psa ?s) (se_key (sa_uplink ?s)) 5 (se_algorithm (sa_uplink ?s))"
    by (simp add: demo_psa_aead saead_static_def)
  moreover have "\<forall>k. malloc_oracle (demo_wire [0xc0, 1, 2] 515) k \<noteq> None" by (simp add: demo_wire_def)
  ultimately show ?thesis
    using saead_uplink_roundtrip [OF _ o, of ?s demo_psa 5] by (auto simp: saead_static_def)
qed

lemma decrypt_one:
  assumes o: "own h ((blk, framed 531 c) # R)"
    and c: "length c = length m + 16" "m \<noteq> []" "length (se_ad (sa_downlink s)) = 16"
    and dec: "psa_aead_decrypt psa (sa_psa s) (se_key (sa_downlink s)) (se_algorithm (sa_downlink s))
      (nonce_generate (sa_downlink s) POUCH_ROLE_SERVER) (block_ad (sa_downlink s)) c (length m) = Inr m"
    and mal: "malloc_oracle h (next_addr h) \<noteq> None"
  obtains a s' h' where "saead_downlink_block_decrypt psa (Some blk) s h = Some (Some a, s', h')"
    "hstep h ((blk, framed 531 c) # R) h' ((a, wire_role m) # R)"
    "sa_psa s' = sa_psa s" "se_key (sa_downlink s') = se_key (sa_downlink s)"
    "se_algorithm (sa_downlink s') = se_algorithm (sa_downlink s)" "se_pouch_id (sa_downlink s') = se_pouch_id (sa_downlink s)"
    "se_block_index (sa_downlink s') = se_block_index (sa_downlink s) + 1" "se_ad (sa_downlink s') = drop (length m) c"
proof -
  from o obtain b where b: "store h blk = Some b" "framed 531 c b" by (auto simp: own_Cons_iff)
  have cap: "cap b = 531" using b(2) by (simp add: framed_def)
  have len: "16 < length c" using c(1,2) by (cases m) auto
  show ?thesis
  proof (cases rule: session_decrypt_step [OF o b(1) cap refl, where psa = psa and p = "sa_psa s" and se = "sa_downlink s"])
    case (1 h1)
    then show ?thesis using mal b(2) len dec c(1) by auto
  next
    case (2 a ct out h1)
    have ct: "ct = c" using 2(2) b(2) by (simp add: framed_def)
    then have out: "out = m" using 2(4) dec c(1) by simp
    from hstep_free_second [OF hstep_own [OF 2(6)]] obtain h2 where
      f: "buf_free (Some blk) h1 = Some h2"
        "hstep h1 ((a, framed 515 out) # (blk, framed 531 c) # R) h2 ((a, framed 515 out) # R)" by blast
    have "hstep h2 ((a, framed 515 out) # R) h2 ((a, wire_role m) # R)"
      using out by (intro hstep_role [OF hstep_own [OF f(2)]]) (auto dest: framed_wire)
    then have st: "hstep h ((blk, framed 531 c) # R) h2 ((a, wire_role m) # R)"
      using hstep_trans [OF 2(6) f(2)] by (blast intro: hstep_trans)
    have tag: "out_write (se_ad (sa_downlink s)) 16 (drop (length m) c) = drop (length m) c"
      by (rule out_write_full) (use c in simp_all)
    obtain s' where r: "saead_downlink_block_decrypt psa (Some blk) s h = Some (Some a, s', h2)"
        "sa_psa s' = sa_psa s" "sa_downlink s' = (next_received (drop (length m) c) (sa_downlink s))
           \<lparr>se_flags := set_bit SESSION_HAS_POUCH (set_bit SESSION_VALID (se_flags (next_received (drop (length m) c) (sa_downlink s))))\<rparr>"
      using 2(1) f(1) ct out by (simp add: saead_downlink_block_decrypt_def Let_def)
    show ?thesis by (rule that [OF r(1) st]) (use r tag in \<open>simp_all add: next_received_def next_block_def\<close>)
  qed
qed

definition framed_roles :: "addr list \<Rightarrow> u8 list list \<Rightarrow> role list" where
  "framed_roles as cs = map (\<lambda>(a, c). (a, framed 531 c)) (zip as cs)"

lemma framed_roles_simps [simp]: "framed_roles [] cs = []" "framed_roles as [] = []"
  "framed_roles (a # as) (c # cs) = (a, framed 531 c) # framed_roles as cs"
  by (simp_all add: framed_roles_def)

text \<open>Two ends of a session: they agree on everything but the key handle.\<close>

definition in_step :: "session \<Rightarrow> session \<Rightarrow> bool" where
  "in_step se se' \<longleftrightarrow> se_algorithm se = se_algorithm se' \<and> se_pouch_id se = se_pouch_id se'
     \<and> se_block_index se = se_block_index se' \<and> se_ad se = se_ad se' \<and> length (se_ad se) = 16"

lemma in_step_eqs: "in_step se se' \<Longrightarrow> nonce_generate se r = nonce_generate se' r \<and> block_ad se = block_ad se'
    \<and> se_algorithm se = se_algorithm se'"
  by (simp add: in_step_def nonce_generate_def block_ad_def)

lemma decrypt_all_ok:
  assumes "length ms = length blks" and "own h (framed_roles blks cs @ R)" and "\<forall>m\<in>set ms. m \<noteq> []"
    and "seal psa (sa_psa s) POUCH_ROLE_SERVER srv ms = Some cs" and "in_step srv (sa_downlink s)"
    and "aead_ok psa (sa_psa s) (se_key srv) (se_key (sa_downlink s)) (se_algorithm srv)"
    and "\<forall>k. malloc_oracle h k \<noteq> None"
  shows "\<exists>as s' h'. decrypt_all psa blks s h = Some (as, s', h') \<and> length as = length ms
    \<and> hstep h (framed_roles blks cs @ R) h' (wire_roles as ms @ R)"
  using assms
proof (induction ms blks arbitrary: h s srv cs R rule: list_induct2)
  case Nil
  then show ?case by (auto intro!: hstep_refl)
next
  case (Cons m ms blk blks)
  let ?dl = "sa_downlink s"
  obtain c where c: "psa_aead_encrypt psa (sa_psa s) (se_key srv) (se_algorithm srv) (nonce_generate srv POUCH_ROLE_SERVER)
      (block_ad srv) m (length m + 16) = Inr c" "length c = length m + 16"
      "psa_aead_decrypt psa (sa_psa s) (se_key ?dl) (se_algorithm srv) (nonce_generate srv POUCH_ROLE_SERVER) (block_ad srv) c (length m) = Inr m"
    using Cons.prems(5) unfolding aead_ok_def by blast
  obtain cs' where cs: "cs = c # cs'" "seal psa (sa_psa s) POUCH_ROLE_SERVER (next_block (drop (length m) c) srv) ms = Some cs'"
    using Cons.prems(3) c(1) by auto
  have o: "own h ((blk, framed 531 c) # framed_roles blks cs' @ R)" using Cons.prems(1) cs(1) by simp
  obtain a s1 h1 where one: "saead_downlink_block_decrypt psa (Some blk) s h = Some (Some a, s1, h1)"
    "hstep h ((blk, framed 531 c) # framed_roles blks cs' @ R) h1 ((a, wire_role m) # framed_roles blks cs' @ R)"
    "sa_psa s1 = sa_psa s" "se_key (sa_downlink s1) = se_key ?dl" "se_algorithm (sa_downlink s1) = se_algorithm ?dl"
    "se_pouch_id (sa_downlink s1) = se_pouch_id ?dl" "se_block_index (sa_downlink s1) = se_block_index ?dl + 1"
    "se_ad (sa_downlink s1) = drop (length m) c"
    by (rule decrypt_one [OF o c(2)])
       (use Cons.prems c in_step_eqs [OF Cons.prems(4)] in \<open>auto simp: in_step_def\<close>)
  have p: "hstep h1 ((a, wire_role m) # framed_roles blks cs' @ R) h1 (framed_roles blks cs' @ (a, wire_role m) # R)"
    by (rule hstep_perm [OF hstep_own [OF one(2)]]) simp
  have st: "in_step (next_block (drop (length m) c) srv) (sa_downlink s1)"
    using Cons.prems(4) one c(2) by (simp add: in_step_def next_block_def)
  have "\<exists>as s' h'. decrypt_all psa blks s1 h1 = Some (as, s', h') \<and> length as = length ms
      \<and> hstep h1 (framed_roles blks cs' @ (a, wire_role m) # R) h' (wire_roles as ms @ (a, wire_role m) # R)"
    by (rule Cons.IH [OF hstep_own [OF p] _ _ st])
       (use Cons.prems cs(2) one hstep_env(1) [OF one(2)] in \<open>auto simp: next_block_def\<close>)
  then obtain as s' h' where ih: "decrypt_all psa blks s1 h1 = Some (as, s', h')" "length as = length ms"
      "hstep h1 (framed_roles blks cs' @ (a, wire_role m) # R) h' (wire_roles as ms @ (a, wire_role m) # R)" by blast
  have q: "hstep h' (wire_roles as ms @ (a, wire_role m) # R) h' ((a, wire_role m) # wire_roles as ms @ R)"
    by (rule hstep_perm [OF hstep_own [OF ih(3)]]) simp
  have "hstep h (framed_roles (blk # blks) cs @ R) h' (wire_roles (a # as) (m # ms) @ R)"
    using hstep_trans [OF hstep_trans [OF hstep_trans [OF one(2) p] ih(3)] q] cs(1) by simp
  then show ?case using one(1) ih(1,2) by (intro exI [of _ "a # as"] exI [of _ s'] exI [of _ h']) simp
qed

text \<open>
  Property C10. Downlink round trip. When the server seals a sequence of non-empty blocks in a
  session that the device is in step with, the device decrypts the received frames one after
  the other, and its output buffers hold exactly the server's blocks, in order, each with its
  size field; the ciphertext buffers are all released.
\<close>

theorem saead_downlink_roundtrip:
  assumes "length ms = length blks" and "own h (framed_roles blks cs @ R)" and "\<forall>m\<in>set ms. m \<noteq> []"
    and "seal psa (sa_psa s) POUCH_ROLE_SERVER srv ms = Some cs" and "in_step srv (sa_downlink s)"
    and "aead_ok psa (sa_psa s) (se_key srv) (se_key (sa_downlink s)) (se_algorithm srv)"
    and "\<forall>k. malloc_oracle h k \<noteq> None"
  shows "\<exists>as s' h'. decrypt_all psa blks s h = Some (as, s', h') \<and> map (buf_contents h') as = map wire ms
    \<and> foreign h' (wire_roles as ms @ R) = foreign h (framed_roles blks cs @ R)"
proof -
  from decrypt_all_ok [OF assms] obtain as s' h' where e: "decrypt_all psa blks s h = Some (as, s', h')"
    "length as = length ms" "hstep h (framed_roles blks cs @ R) h' (wire_roles as ms @ R)" by blast
  moreover have "map (buf_contents h') as = map wire ms" by (rule wire_roles_contents [OF hstep_own [OF e(3)] e(2)])
  moreover have "foreign h' (wire_roles as ms @ R) = foreign h (framed_roles blks cs @ R)"
    using e(3) by (simp add: hstep_def)
  ultimately show ?thesis by blast
qed

lemma saead_downlink_roundtrip_witness:
  "\<exists>as s' h'. decrypt_all demo_psa [0] (saead_static 65 () :: (unit, unit) saead_state)
      (demo_wire ([0xc0, 1, 2] @ replicate 16 9) 531) = Some (as, s', h')
    \<and> map (buf_contents h') as = [[0, 3, 0xc0, 1, 2]]"
proof -
  let ?s = "saead_static 65 () :: (unit, unit) saead_state" and ?c = "[0xc0, 1, 2] @ replicate 16 9 :: u8 list"
  have "own (demo_wire ?c 531) (framed_roles [0] [?c] @ [])"
    by (auto simp: own_def demo_wire_def heap_ok_def buf_ok_def cap_def framed_def wire_def contents_def SIZE_MOD_num)
  moreover have "seal demo_psa (sa_psa ?s) POUCH_ROLE_SERVER session_static [[0xc0, 1, 2]] = Some [?c]"
    by (simp add: demo_psa_def)
  moreover have "in_step session_static (sa_downlink ?s)"
    by (simp add: in_step_def saead_static_def session_static_def AD_LEN_def AUTH_TAG_LEN_def)
  moreover have "aead_ok demo_psa (sa_psa ?s) (se_key session_static) (se_key (sa_downlink ?s)) (se_algorithm session_static)"
    by (simp add: saead_static_def demo_psa_aead)
  moreover have "\<forall>k. malloc_oracle (demo_wire ?c 531) k \<noteq> None" by (simp add: demo_wire_def)
  moreover have "wire [0xc0, 1, 2] = [0, 3, 0xc0, 1, 2]" by (simp add: wire_def put_be16_def)
  ultimately show ?thesis
    using saead_downlink_roundtrip [of "[[0xc0, 1, 2]]" "[0]" "demo_wire ?c 531" "[?c]" "[]" demo_psa ?s session_static]
    by auto
qed

section \<open>Starting sessions\<close>

lemma downlink_start_ok:
  assumes "saead_downlink_session_start psa sid alg lg key s = (OK, s1)"
  shows "se_flags (sa_downlink s1) = 2" and "se_id (sa_downlink s1) = sid" and "se_key (sa_downlink s1) \<noteq> PSA_KEY_ID_NULL"
    and "saead_downlink_pouch_start pid s1 = (OK, s1\<lparr>sa_downlink := (sa_downlink s1)\<lparr>se_pouch_id := pid, se_block_index := 0\<rparr>\<rparr>)"
proof -
  show fl: "se_flags (sa_downlink s1) = 2" "se_id (sa_downlink s1) = sid" "se_key (sa_downlink s1) \<noteq> PSA_KEY_ID_NULL"
    using assms by (auto simp: saead_downlink_session_start_def SAEAD_SESSION_ACTIVE_def split: if_splits prod.splits sum.splits)
  then show "saead_downlink_pouch_start pid s1 = (OK, s1\<lparr>sa_downlink := (sa_downlink s1)\<lparr>se_pouch_id := pid, se_block_index := 0\<rparr>\<rparr>)"
    by (simp add: saead_downlink_pouch_start_def session_pouch_start_def SESSION_HAS_POUCH_def SAEAD_SESSION_ACTIVE_def bit_numeral_rec)
qed




text \<open>
  Property C39. The replay check on pouch ids never rejects a pouch: \<^verbatim>\<open>crypto_downlink_start()\<close>
  starts the session first, which clears the flag that the check depends on, so its result is the
  same whatever the pouch id. A pouch that was decrypted before is accepted again.
\<close>

theorem pouch_replay_not_rejected:
  "fst (saead_crypto_downlink_start psa (Saead_info session pid) s)
    = fst (saead_crypto_downlink_start psa (Saead_info session pid') s)"
proof (cases "downlink_session_id session")
  case (Inr sid)
  let ?alg = "if si_algorithm session = Aes_gcm then PSA_ALG_GCM else PSA_ALG_CHACHA20_POLY1305"
  obtain err s1 where st: "saead_downlink_session_start psa sid ?alg (si_max_block_size_log session) (sa_pkey s) s = (err, s1)"
    by fastforce
  show ?thesis
  proof (cases err)
    case OK
    from downlink_start_ok(4) [OF st [unfolded OK]] show ?thesis
      using Inr st OK by (simp add: saead_crypto_downlink_start_def)
  qed (use Inr st in \<open>simp add: saead_crypto_downlink_start_def\<close>)
qed (simp add: saead_crypto_downlink_start_def)

text \<open>
  The check of sequence numbers can be switched off from outside: once a downlink
  was started, and before one of its blocks was decrypted, every session id passes, also that of
  an old session. A pouch header alone, which anybody can send, is enough.
\<close>

theorem seqnum_check_reset:
  assumes "saead_crypto_downlink_start psa info s = (OK, s')"
  shows "is_valid_downlink sid alg s'"
proof -
  obtain session pid where i: "info = Saead_info session pid"
    using assms by (cases info) (auto simp: saead_crypto_downlink_start_def)
  obtain sid' where d: "downlink_session_id session = Inr sid'"
    using assms i by (cases "downlink_session_id session") (auto simp: saead_crypto_downlink_start_def)
  let ?alg = "if si_algorithm session = Aes_gcm then PSA_ALG_GCM else PSA_ALG_CHACHA20_POLY1305"
  obtain err s1 where st: "saead_downlink_session_start psa sid' ?alg (si_max_block_size_log session) (sa_pkey s) s = (err, s1)"
    by fastforce
  have err: "err = OK" using assms i d st by (cases err) (auto simp: saead_crypto_downlink_start_def)
  note ok = downlink_start_ok [OF st [unfolded err]]
  have "se_flags (sa_downlink s') = 2"
    using assms i d st err ok(4) [of pid] ok(1) by (auto simp: saead_crypto_downlink_start_def)
  then show ?thesis by (simp add: is_valid_downlink_def SESSION_VALID_def)
qed

definition demo_server :: "(unit, unit) saead_state" where
  "demo_server = (saead_static 65 ())\<lparr>sa_cert := (cert_static 65)\<lparr>server_pubkey := \<lparr>pk_data = [4], pk_len = 1\<rparr>\<rparr>\<rparr>"

lemma seqnum_check_reset_witness:
  "\<exists>s'. saead_crypto_downlink_start demo_psa
     (Saead_info \<lparr>si_id = Session_id_sequential (replicate 8 0) 7, si_initiator = POUCH_ROLE_SERVER,
        si_algorithm = Aes_gcm, si_max_block_size_log = 9, si_cert_ref = []\<rparr> 1) demo_server = (OK, s')
    \<and> is_valid_downlink \<lparr>sid_type = SESSION_ID_TYPE_SEQUENTIAL, sid_initiator = POUCH_ROLE_SERVER,
        sid_value = replicate 16 0\<rparr> PSA_ALG_GCM s'"
proof -
  have "\<exists>s'. saead_crypto_downlink_start demo_psa
     (Saead_info \<lparr>si_id = Session_id_sequential (replicate 8 0) 7, si_initiator = POUCH_ROLE_SERVER,
        si_algorithm = Aes_gcm, si_max_block_size_log = 9, si_cert_ref = []\<rparr> 1) demo_server = (OK, s')"
    by (simp add: saead_crypto_downlink_start_def downlink_session_id_def SESSION_ID_TAG_LEN_def SESSION_ID_LEN_def
        saead_downlink_session_start_def is_valid_downlink_def demo_server_def saead_static_def session_static_def
        downlink_session_key_def session_key_generate_def demo_psa_def cert_server_key_get_def
        session_key_info_build_def PSA_KEY_ID_NULL_def saead_downlink_pouch_start_def session_pouch_start_def
        SESSION_VALID_def SESSION_HAS_POUCH_def SAEAD_SESSION_ACTIVE_def set_bit_eq_or bit_numeral_rec)
  then obtain s' where s': "saead_crypto_downlink_start demo_psa
     (Saead_info \<lparr>si_id = Session_id_sequential (replicate 8 0) 7, si_initiator = POUCH_ROLE_SERVER,
        si_algorithm = Aes_gcm, si_max_block_size_log = 9, si_cert_ref = []\<rparr> 1) demo_server = (OK, s')" ..
  from s' seqnum_check_reset [OF s'] show ?thesis by blast
qed





text \<open>
  Property C40. A session without a key is reported as started. When the device has no server
  certificate yet, no session key can be derived, but \<^verbatim>\<open>saead_uplink_session_start()\<close> tests the
  old error code instead of the key: it returns 0 and the session is active with the null key.
\<close>

theorem session_without_key:
  assumes "pk_len (server_pubkey (sa_cert s)) = 0" and "\<And>n p. fst (psa_generate_random psa n p) = 0"
  shows "\<exists>s1. saead_uplink_session_start psa alg key s = (OK, s1) \<and> se_key (sa_uplink s1) = PSA_KEY_ID_NULL
    \<and> bit (se_flags (sa_uplink s1)) SAEAD_SESSION_ACTIVE"
proof -
  obtain st bs p where g: "psa_generate_random psa SESSION_ID_LEN (sa_psa s) = (st, bs, p)" by (metis prod_cases3)
  with assms(2) [of SESSION_ID_LEN "sa_psa s"] have "st = 0" by simp
  with g assms(1) show ?thesis
    by (simp add: saead_uplink_session_start_def session_id_generate_def session_key_generate_def cert_server_key_get_def
        SAEAD_SESSION_ACTIVE_def bit_set_bit_iff)
qed

lemma session_without_key_witness:
  "\<exists>s1. saead_uplink_session_start demo_psa PSA_ALG_GCM 1 (saead_static 65 () :: (unit, unit) saead_state) = (OK, s1)
    \<and> se_key (sa_uplink s1) = PSA_KEY_ID_NULL"
proof -
  have "pk_len (server_pubkey (sa_cert (saead_static 65 () :: (unit, unit) saead_state))) = 0"
    by (simp add: saead_static_def cert_static_def)
  moreover have "\<And>n p. fst (psa_generate_random demo_psa n p) = 0" by (simp add: demo_psa_def)
  ultimately show ?thesis using session_without_key by blast
qed

end
