(* ===== verification/Credentials.thy ===== *)
theory Credentials
  imports Saead
begin

text \<open>
  The credentials of the example application, \<^verbatim>\<open>examples/ble_gatt/src/credentials.c\<close>, and the start of
  the library with them, \<^verbatim>\<open>pouch_init()\<close> of \<^verbatim>\<open>src/pouch.c\<close>. The file system of Zephyr and the key
  functions of mbedTLS are the record \<open>'e fs_ops\<close> of functions on a state \<open>'e\<close>.

  The variable \<^verbatim>\<open>buf\<close> of the two callers is not initialised: a \<open>None\<close> for it is the indeterminate
  pointer, and to use it is undefined behaviour. Blocks of \<^verbatim>\<open>malloc()\<close> and open files are counted.
\<close>

section \<open>The file system\<close>

record 'e fs_ops =
  fs_stat :: "string \<Rightarrow> 'e \<Rightarrow> errno + bool \<times> nat"
  fs_mkdir :: "string \<Rightarrow> 'e \<Rightarrow> ret \<times> 'e"
  fs_open :: "string \<Rightarrow> 'e \<Rightarrow> ret \<times> 'e"
  fs_read :: "nat \<Rightarrow> 'e \<Rightarrow> (errno + u8 list) \<times> 'e"
  fs_close :: "'e \<Rightarrow> 'e"
  fs_malloc :: "nat \<Rightarrow> 'e \<Rightarrow> bool"
  pk_parse_key :: "u8 list \<Rightarrow> 'e \<Rightarrow> int"
  pk_import_into_psa :: "u8 list \<Rightarrow> 'e \<Rightarrow> int \<times> psa_key_id_t \<times> 'e"

record 'e cred_state =
  cr_env :: 'e
  cr_blocks :: nat
  cr_files :: nat

definition CERT_DIR :: string where "CERT_DIR = ''/lfs1/credentials''"

section \<open>Loading\<close>

text \<open>The result of \<^verbatim>\<open>mbedtls_pk_parse_key()\<close> is 0 or an error, and so is that of the import.\<close>

definition import_raw_pk :: "'e fs_ops \<Rightarrow> u8 list \<Rightarrow> 'e cred_state \<Rightarrow> psa_key_id_t \<times> 'e cred_state" where
  "import_raw_pk ops private_key c =
     (if pk_parse_key ops private_key (cr_env c) \<noteq> 0 then (PSA_KEY_ID_NULL, c)
      else let (err, key_id, e) = pk_import_into_psa ops private_key (cr_env c) in
           (if err \<noteq> 0 then PSA_KEY_ID_NULL else key_id, c\<lparr>cr_env := e\<rparr>))"

definition ensure_credentials_dir :: "'e fs_ops \<Rightarrow> 'e cred_state \<Rightarrow> 'e cred_state" where
  "ensure_credentials_dir ops c =
     (if fs_stat ops CERT_DIR (cr_env c) = Inl ENOENT
      then c\<lparr>cr_env := snd (fs_mkdir ops CERT_DIR (cr_env c))\<rparr> else c)"

definition get_file_size :: "'e fs_ops \<Rightarrow> string \<Rightarrow> 'e cred_state \<Rightarrow> errno + nat" where
  "get_file_size ops path c =
     (case fs_stat ops path (cr_env c) of
        Inl err \<Rightarrow> Inl err
      | Inr (is_file, sz) \<Rightarrow> if \<not> is_file then Inl EISDIR else Inr sz)"

text \<open>
  The result is the size or an error, and the block that \<^verbatim>\<open>out\<close> was set to, if it was. A file that
  shrank in between gives a block of the old size whose tail is indeterminate; only the bytes that
  were read are returned with the size.
\<close>

definition read_file ::
    "'e fs_ops \<Rightarrow> string \<Rightarrow> 'e cred_state \<Rightarrow> (errno + nat) \<times> u8 list option \<times> 'e cred_state" where
  "read_file ops path c =
     (let c = ensure_credentials_dir ops c in
      case get_file_size ops path c of
        Inl err \<Rightarrow> (Inl err, None, c)
      | Inr sz \<Rightarrow>
          if sz = 0 then (Inr 0, None, c)
          else if \<not> fs_malloc ops sz (cr_env c) then (Inl ENOMEM, None, c)
          else
            let c = c\<lparr>cr_blocks := cr_blocks c + 1\<rparr>;
                (err, e) = fs_open ops path (cr_env c);
                c = c\<lparr>cr_env := e\<rparr> in
            case err of
              Err er \<Rightarrow> (Inl er, None, c\<lparr>cr_blocks := cr_blocks c - 1\<rparr>)
            | OK \<Rightarrow>
                let c = c\<lparr>cr_files := cr_files c + 1\<rparr>;
                    (res, e) = fs_read ops sz (cr_env c);
                    c = c\<lparr>cr_env := e\<rparr>;
                    finish = (\<lambda>c. c\<lparr>cr_env := fs_close ops (cr_env c), cr_files := cr_files c - 1\<rparr>) in
                case res of
                  Inl er \<Rightarrow> (Inl er, None, finish (c\<lparr>cr_blocks := cr_blocks c - 1\<rparr>))
                | Inr bs \<Rightarrow> (Inr (length bs), Some bs, finish c))"




section \<open>Starting the library\<close>

definition pouch_init ::
    "(pouch_config \<Rightarrow> 'c \<Rightarrow> (ret \<times> 'c) option) \<Rightarrow> pouch_config \<Rightarrow> 'c pouch \<Rightarrow> (ret \<times> 'c pouch) option" where
  "pouch_init crypto_init config s =
     (let s = uplink_init (downlink_init s) in
      do { (err, c) \<leftarrow> crypto_init config (p_crypto s); Some (err, s\<lparr>p_crypto := c\<rparr>) })"

section \<open>What is left behind\<close>

lemma ensure_credentials_dir_simps [simp]:
  "cr_blocks (ensure_credentials_dir ops c) = cr_blocks c" "cr_files (ensure_credentials_dir ops c) = cr_files c"
  by (simp_all add: ensure_credentials_dir_def)


lemma import_raw_pk_simps [simp]:
  "cr_blocks (snd (import_raw_pk ops key c)) = cr_blocks c" "cr_files (snd (import_raw_pk ops key c)) = cr_files c"
  by (simp_all add: import_raw_pk_def split_beta Let_def)


section \<open>Loading what is stored\<close>

text \<open>
  A file system that holds \<open>files\<close>, in states that satisfy \<open>I\<close>: sizes and contents are reported as they
  are, reading leaves the files alone, and the directory of the credentials exists.
\<close>

definition file_system_ok :: "'e fs_ops \<Rightarrow> ('e \<Rightarrow> bool) \<Rightarrow> (string \<rightharpoonup> u8 list) \<Rightarrow> bool" where
  "file_system_ok ops I files \<longleftrightarrow> (\<forall>e. I e \<longrightarrow> fs_stat ops CERT_DIR e \<noteq> Inl ENOENT
     \<and> (\<forall>path bs. files path = Some bs \<longrightarrow> fs_stat ops path e = Inr (True, length bs)
         \<and> (\<exists>e1 e2. fs_open ops path e = (OK, e1) \<and> fs_read ops (length bs) e1 = (Inr bs, e2) \<and> I (fs_close ops e2))))"

lemma read_file_ok:
  assumes "file_system_ok ops I files" and "I (cr_env c)" and "files path = Some bs" and "bs \<noteq> []"
    and "fs_malloc ops (length bs) (cr_env c)"
  shows "\<exists>e. read_file ops path c = (Inr (length bs), Some bs, c\<lparr>cr_env := e, cr_blocks := cr_blocks c + 1\<rparr>) \<and> I e"
proof -
  have dir: "ensure_credentials_dir ops c = c"
    using assms(1,2) by (simp add: file_system_ok_def ensure_credentials_dir_def)
  obtain e1 e2 where "fs_stat ops path (cr_env c) = Inr (True, length bs)" "fs_open ops path (cr_env c) = (OK, e1)"
      "fs_read ops (length bs) e1 = (Inr bs, e2)" "I (fs_close ops e2)"
    using assms(1-3) unfolding file_system_ok_def by blast
  with assms(4,5) show ?thesis
    by (intro exI [of _ "fs_close ops e2"]) (simp add: read_file_def dir get_file_size_def Let_def)
qed

end
