(* ===== verification/App.thy ===== *)
theory App
  imports Pipeline Credentials
begin

text \<open>
  The example application, \<^verbatim>\<open>examples/ble_gatt/src/main.c\<close> and \<^verbatim>\<open>fw_update.c\<close>, on top of the library and
  the SDK. Its state \<open>'f app\<close> is the advertised service data, the delayed work items, the flash image
  context \<open>'f\<close> and what it did to the outside world, in order. The flash image and boot functions of
  Zephyr are the record \<open>'f flash_ops\<close>.
\<close>

section \<open>State\<close>

datatype app_output = Adv_start | Adv_update u8 | Led bool | Reboot

record 'f app =
  ap_flags :: u8
  ap_sync_request_work :: bool
  ap_disconnect_work :: bool
  ap_flash :: 'f
  ap_out :: "app_output list"

record 'f flash_ops =
  flash_img_init :: "'f \<Rightarrow> ret \<times> 'f"
  flash_img_buffered_write :: "u8 list option \<Rightarrow> nat \<Rightarrow> bool \<Rightarrow> 'f \<Rightarrow> ret \<times> 'f"
  boot_request_upgrade :: "'f \<Rightarrow> ret \<times> 'f"

section \<open>Firmware update\<close>

text \<open>\<^verbatim>\<open>sys_reboot()\<close> does not return; the state behind it is the one in which the device restarts.\<close>

definition ota_main_receive :: "'f flash_ops \<Rightarrow> 'f app app_cb" where
  "ota_main_receive ops data offset len is_last a =
     (let (err, f) = (if offset = 0 then flash_img_init ops (ap_flash a) else (OK, ap_flash a));
          a = a\<lparr>ap_flash := f\<rparr> in
      if is_err err then a
      else
        let (err, f) = flash_img_buffered_write ops data len is_last (ap_flash a);
            a = a\<lparr>ap_flash := f\<rparr> in
        if is_err err then a
        else if is_last then
          (let (err, f) = boot_request_upgrade ops (ap_flash a);
               a = a\<lparr>ap_flash := f\<rparr> in
           if is_err err then a else a\<lparr>ap_out := ap_out a @ [Reboot]\<rparr>)
        else a)"

fun ota_manifest_receive ::
    "'a golioth_ota_registered_component list \<Rightarrow> 'a golioth_ota_manifest_handler" where
  "ota_manifest_receive comps [] g = g"
| "ota_manifest_receive comps (component # components) g =
     ota_manifest_receive comps components
       (if mc_current component \<noteq> mc_target component
        then snd (golioth_ota_mark_for_download comps (mc_name component) g) else g)"

definition ota_component_main :: "'f flash_ops \<Rightarrow> u8 list \<Rightarrow> u8 list \<times> u8 list \<times> 'f app app_cb" where
  "ota_component_main ops APP_VERSION_STRING = (lit ''main'', APP_VERSION_STRING, ota_main_receive ops)"

section \<open>Events, settings and the connection\<close>

definition POUCH_CONTENT_TYPE_JSON :: u16 where "POUCH_CONTENT_TYPE_JSON = 50"

definition sensor_path :: "u8 list" where "sensor_path = lit ''.s/sensor''"
definition sensor_data :: "u8 list" where "sensor_data = lit ''{\"temp\":22}''"

definition pouch_event_handler ::
    "('f app golioth, 'c) golioth_uplink_service list \<Rightarrow> pouch_event \<Rightarrow> 'f app golioth \<times> 'c pouch \<Rightarrow>
      ('f app golioth \<times> 'c pouch) option" where
  "pouch_event_handler services event = (\<lambda>(g, s).
     do { (g, s) \<leftarrow> (if event = POUCH_EVENT_SESSION_START then do {
            (_, s) \<leftarrow> pouch_uplink_entry_write OK (Some sensor_path) POUCH_CONTENT_TYPE_JSON
                       (Some (sensor_data @ [0])) (length sensor_data) s;
            (_, g, s) \<leftarrow> golioth_sync_to_cloud services OK g s;
            Some (g, s) }
          else Some (g, s));
          Some (if event = POUCH_EVENT_SESSION_END
                then (g\<lparr>g_app := (g_app g)\<lparr>ap_flags := 0, ap_out := ap_out (g_app g) @ [Adv_update 0],
                        ap_sync_request_work := True\<rparr>\<rparr>, s)
                else (g, s)) })"

definition led_setting_cb :: "bool \<Rightarrow> bool \<Rightarrow> 'f app \<Rightarrow> ret \<times> 'f app" where
  "led_setting_cb has_led new_value a =
     (OK, if has_led then a\<lparr>ap_out := ap_out a @ [Led new_value]\<rparr> else a)"

definition led_handler :: "bool \<Rightarrow> 'f app golioth_settings_handler" where
  "led_handler has_led = \<lparr>sh_key = lit ''LED'', sh_cb = Bool_cb (led_setting_cb has_led)\<rparr>"

definition sync_request_work_handler :: "'f app \<Rightarrow> 'f app" where
  "sync_request_work_handler a = a\<lparr>ap_flags := 1, ap_out := ap_out a @ [Adv_update 1]\<rparr>"

definition disconnect_work_handler :: "'f app \<Rightarrow> 'f app" where
  "disconnect_work_handler a = a\<lparr>ap_out := ap_out a @ [Adv_start]\<rparr>"

definition disconnected :: "'f app \<Rightarrow> 'f app" where
  "disconnected a = a\<lparr>ap_disconnect_work := True\<rparr>"


section \<open>The event work item\<close>

text \<open>Other entries of the state do not matter to the invariants of the writers.\<close>

lemma events_irrelevant [simp]:
  "uplink_inv (s\<lparr>p_events := es\<rparr>) = uplink_inv s" "open_entries (s\<lparr>p_events := es\<rparr>) l = open_entries s l"
  "entry_log (s\<lparr>p_events := es\<rparr>) = entry_log s" "mallocs (s\<lparr>p_events := es\<rparr>) = mallocs s"
  "uplink_safe (s\<lparr>p_events := es\<rparr>) s' = uplink_safe s s'" "uplink_safe s (s'\<lparr>p_events := es\<rparr>) = uplink_safe s s'"
  by (simp_all add: uplink_inv_def streams_ok_def uplink_roles_def open_entries_def block_holds_def entry_log_def
      mallocs_def uplink_safe_def cong: option.case_cong)

text \<open>What an event means to the state of the application.\<close>

definition app_event :: "'f app \<Rightarrow> pouch_event \<Rightarrow> 'f app" where
  "app_event a event = (if event = POUCH_EVENT_SESSION_END
     then a\<lparr>ap_flags := 0, ap_out := ap_out a @ [Adv_update 0], ap_sync_request_work := True\<rparr> else a)"

text \<open>
  The condition between two events: from the SDK state \<open>g0\<close> and the library state \<open>s0\<close>, the
  application has handled \<open>es\<close>, the library was used safely and logged entries are only added.
\<close>

definition events_ok ::
    "'f app golioth \<Rightarrow> 'c pouch \<Rightarrow> pouch_event list \<Rightarrow> 'f app golioth \<times> 'c pouch \<Rightarrow> bool" where
  "events_ok g0 s0 es = (\<lambda>(g, s). g = g0\<lparr>g_app := foldl app_event (g_app g0) es\<rparr> \<and> uplink_safe s0 s
     \<and> (\<exists>open'. open_entries s open') \<and> prefix (entry_log s0) (entry_log s))"

lemma sensor_fits:
  "0 < length sensor_data" "length sensor_data \<le> length (sensor_data @ [0])" "length sensor_data \<le> 64"
  "length sensor_path < 256"
  by (simp_all add: sensor_data_def sensor_path_def lit_def)

lemma sync_keeps_state:
  "golioth_sync_to_cloud (sdk_uplink_services enc comps) lock g s = Some (r, g', s') \<Longrightarrow> g' = g"
  by (auto simp: golioth_sync_to_cloud_def sdk_uplink_services_def settings_uplink_def ota_uplink_def bind_eq_Some_conv
      split: option.splits)

text \<open>
  The application around the services of the SDK: its handler keeps the contract of the event
  dispatcher. The component and the encoder of the example are an instance.
\<close>

locale sdk_application = sdk_reports enc bytes E comps
  for enc bytes E and comps :: "'f app golioth_ota_registered_component list"
begin

lemma event_handled:
  assumes "length (ota_data g0) = length comps" and "events_ok g0 s0 es (g, s)"
  shows "\<exists>g' s'. pouch_event_handler (sdk_uplink_services enc comps) event (g, s) = Some (g', s')
    \<and> events_ok g0 s0 (es @ [event]) (g', s') \<and> p_events s' = p_events s"
proof (cases "event = POUCH_EVENT_SESSION_START")
  case False
  then show ?thesis using assms(2) by (auto simp: pouch_event_handler_def events_ok_def app_event_def)
next
  case True
  from assms(2) obtain es0 where inv: "uplink_inv s" "open_entries s es0" "uplink_safe s0 s" "prefix (entry_log s0) (entry_log s)"
    by (auto simp: events_ok_def dest: uplink_safe_inv)
  obtain r s1 es1 where
    w: "pouch_uplink_entry_write OK (Some sensor_path) POUCH_CONTENT_TYPE_JSON (Some (sensor_data @ [0])) (length sensor_data) s
        = Some (r, s1)"
      "entry_log s1 = entry_log s @ (if r = OK then [(sensor_path, POUCH_CONTENT_TYPE_JSON, take (length sensor_data) (sensor_data @ [0]))] else [])"
      "open_entries s1 es1" "uplink_safe s s1" "writer_frame s s1"
    by (rule write_step [OF inv(1,2) sensor_fits])
  have "length (ota_data g) = length comps" using assms by (simp add: events_ok_def)
  from sdk.sync_returns [OF this uplink_safe_inv [OF w(4)] w(3)] obtain g' s2 es2 new where
    s2: "golioth_sync_to_cloud (sdk_uplink_services enc comps) OK g s1 = Some (OK, g', s2)" "uplink_safe s1 s2"
      "open_entries s2 es2" "transport_frame s1 s2" "entry_log s2 = entry_log s1 @ new" by blast
  have "events_ok g0 s0 (es @ [event]) (g, s2)"
    using True assms(2) s2(3,5) w(2) inv(4) uplink_safe_trans [OF inv(3) uplink_safe_trans [OF w(4) s2(2)]]
    by (auto simp: events_ok_def app_event_def)
  moreover have "p_events s2 = p_events s" using w(5) s2(4) by (simp add: writer_frame_def transport_frame_def)
  ultimately show ?thesis using True w(1) s2(1) sync_keeps_state [OF s2(1)] by (simp add: pouch_event_handler_def)
qed

end

sublocale sdk_application \<subseteq> events: event_handlers "[pouch_event_handler (sdk_uplink_services enc comps)]"
    "\<lambda>es x. length (ota_data g0) = length comps \<and> events_ok g0 s0 es x" for g0 s0
proof unfold_locales
  fix es w s q
  assume "length (ota_data g0) = length comps \<and> events_ok g0 s0 es (w, s)"
  then show "length (ota_data g0) = length comps \<and> events_ok g0 s0 es (w, s\<lparr>p_events := q\<rparr>)" by (auto simp: events_ok_def)
next
  fix es w s event
  assume "length (ota_data g0) = length comps \<and> events_ok g0 s0 es (w, s)"
  then show "\<exists>w' s'. call_handlers [pouch_event_handler (sdk_uplink_services enc comps)] event (w, s) = Some (w', s')
      \<and> (length (ota_data g0) = length comps \<and> events_ok g0 s0 (es @ [event]) (w', s')) \<and> p_events s' = p_events s"
    using event_handled [of g0 s0 es w s event] by fastforce
qed

context sdk_application
begin

lemma event_work:
  assumes "length (ota_data g) = length comps" and "uplink_inv s" and "open_entries s es"
  shows "\<exists>g' s'. dispatch_events [pouch_event_handler (sdk_uplink_services enc comps)] g s = Some (g', s')
    \<and> events_ok g s (p_events s) (g', s') \<and> p_events s' = []"
proof -
  have "events_ok g s [] (g, s)" using assms(3) uplink_safe_refl [OF assms(2)] by (auto simp: events_ok_def)
  with events.dispatch_returns [where es = "[]" and w = g and s = s and ?g0.0 = g and ?s0.0 = s] assms(1)
  show ?thesis by (auto simp: dispatch_events_def)
qed

end

interpretation example: sdk_application "zcbor_rec bytes" bytes "rec_rel bytes" "map app_component [ota_component_main ops version]"
  for bytes and ops :: "'f flash_ops" and version
  by unfold_locales (simp add: app_component_def ota_component_main_def lit_def)

section \<open>A session\<close>

definition session_entries where
  "session_entries bytes comps g = (sensor_path, POUCH_CONTENT_TYPE_JSON, sensor_data)
     # map (report_entry bytes) (statuses comps g)
     @ [(SETTINGS_UPLINK_PATH, POUCH_CONTENT_TYPE_CBOR, bytes (settings_report g))]"

lemma session_start_step:
  assumes "encoder_lib_ok enc bytes E" and "\<forall>c\<in>set comps. 0 \<notin> set (rc_name c)" and "length (ota_data g) = length comps"
    and "uplink_inv s" and "open_entries s es" and "\<not> pouch_is_closing (p_uplink s)" and "p_events s = [POUCH_EVENT_SESSION_START]"
    and "mallocs s" and "list_all (status_fits enc) (statuses comps g)" and "encodes enc 3 2 (settings_puts enc g)"
  shows "\<exists>s'. dispatch_events [pouch_event_handler (sdk_uplink_services enc comps)] g s = Some (g, s')
    \<and> uplink_safe s s' \<and> entry_log s' = entry_log s @ session_entries bytes comps g \<and> p_block s' = None
    \<and> transport_frame (s\<lparr>p_events := []\<rparr>) s' \<and> up_flags (p_uplink s') = set_bit POUCH_CLOSING (up_flags (p_uplink s))
    \<and> up_processing_work (p_uplink s')"
proof -
  let ?s0 = "s\<lparr>p_events := []\<rparr>"
  have inv0: "uplink_inv ?s0" "open_entries ?s0 es" using assms(4,5) by simp_all
  obtain r s1 es1 where
    w: "pouch_uplink_entry_write OK (Some sensor_path) POUCH_CONTENT_TYPE_JSON (Some (sensor_data @ [0])) (length sensor_data) ?s0
        = Some (r, s1)"
      "entry_log s1 = entry_log ?s0 @ (if r = OK then [(sensor_path, POUCH_CONTENT_TYPE_JSON, take (length sensor_data) (sensor_data @ [0]))] else [])"
      "open_entries s1 es1" "uplink_safe ?s0 s1" "r = OK \<or> \<not> mallocs ?s0" "writer_frame ?s0 s1"
    by (rule write_step [OF inv0 sensor_fits])
  have log1: "entry_log s1 = entry_log s @ [(sensor_path, POUCH_CONTENT_TYPE_JSON, sensor_data)]"
    using w(2,5) assms(8) by simp
  have "\<not> pouch_is_closing (p_uplink s1)" using w(6) assms(6) by (simp add: writer_frame_def pouch_is_closing_def)
  from sync_step [OF assms(1-3) uplink_safe_inv [OF w(4)] w(3) this] obtain s2 ota cfg where
    s2: "golioth_sync_to_cloud (sdk_uplink_services enc comps) OK g s1 = Some (OK, g, s2)" "uplink_safe s1 s2"
      "transport_frame s1 s2" "up_flags (p_uplink s2) = set_bit POUCH_CLOSING (up_flags (p_uplink s1))"
      "entry_log s2 = entry_log s1 @ map (report_entry bytes) ota @ cfg" "p_block s2 = None" "up_processing_work (p_uplink s2)"
    and full: "mallocs s1 \<and> list_all (status_fits enc) (statuses comps g) \<longrightarrow> ota = statuses comps g"
      "mallocs s1 \<and> encodes enc 3 2 (settings_puts enc g)
        \<longrightarrow> cfg = [(SETTINGS_UPLINK_PATH, POUCH_CONTENT_TYPE_CBOR, bytes (settings_report g))]" by blast
  have "mallocs s1" using uplink_safe_mallocs [OF w(4)] assms(8) by simp
  then have "entry_log s2 = entry_log s @ session_entries bytes comps g"
    using full assms(9,10) by (simp add: s2(5) log1 session_entries_def)
  moreover have tf: "transport_frame ?s0 s2" using w(6) s2(3) by (auto simp: writer_frame_def intro: transport_frame_trans)
  moreover have "uplink_safe s s2" using uplink_safe_trans [OF w(4) s2(2)] by simp
  moreover have "dispatch_events [pouch_event_handler (sdk_uplink_services enc comps)] g s = Some (g, s2)"
  proof -
    have "p_events s2 = []" using tf by (simp add: transport_frame_def)
    then have last: "dispatch_loop [pouch_event_handler (sdk_uplink_services enc comps)] (g, s2) = Some (g, s2)"
      by (subst dispatch_loop.simps) simp
    show ?thesis unfolding dispatch_events_def
      by (subst dispatch_loop.simps) (simp add: assms(7) pouch_event_handler_def w(1) s2(1) last)
  qed
  ultimately show ?thesis using s2(4,6,7) w(6) by (auto simp: writer_frame_def)
qed

text \<open>
  Property C12. A session from start to wire. With the plaintext backend, an idle library and the example
  application, a successful \<^verbatim>\<open>pouch_uplink_start()\<close> leads, through the dispatch of its event, one
  synchronisation and one run of the processing work, to pending bytes that are the old ones, the
  header, and blocks that parse to exactly: the entries logged before, the sensor reading, one report
  per OTA component and the settings report, in this order. Nothing is left in the processing queue,
  the pouch is closed so that the transport will end the session, and no buffer leaks.
\<close>

theorem session_upload:
  assumes "encoder_lib_ok enc bytes E" and "\<forall>c\<in>set comps. 0 \<notin> set (rc_name c)" and "length (ota_data g) = length comps"
    and "uplink_inv s" and "open_entries s es" and "encoder_ok henc" and "up_header (p_uplink s) = None"
    and "up_flags (p_uplink s) = 0" and "p_events s = []" and "device_id (p_crypto s) = Some did"
    and "mallocs s" and "list_all (status_fits enc) (statuses comps g)" and "encodes enc 3 2 (settings_puts enc g)"
    and "pouch_uplink_start crypto_none henc s = Some (Some (), s0)"
  shows "\<exists>s1 s2 header blocks. dispatch_events [pouch_event_handler (sdk_uplink_services enc comps)] g s0 = Some (g, s1)
    \<and> up_processing_work (p_uplink s1) \<and> process_blocks crypto_none s1 = Some s2 \<and> uplink_safe s s2
    \<and> henc POUCH_HEADER_MAX_LEN_NONE \<lparr>ph_version = POUCH_HEADER_VERSION, ph_encryption_info = Plaintext_info did\<rparr> = Inr header
    \<and> pending (p_uplink s2) (p_heap s2) = pending (p_uplink s) (p_heap s) @ header @ blocks
    \<and> concat (map block_entries (parse_blocks blocks)) = entry_log s @ session_entries bytes comps g
    \<and> up_processing_queue (p_uplink s2) = [] \<and> \<not> pouch_is_open (p_uplink s2)"
proof -
  have hdr: "co_header_get crypto_none (snd (co_pouch_start crypto_none (snd (co_session_start crypto_none (p_crypto s)))))
      = Some (OK, Plaintext_info did)"
    using assms(10) by (simp add: crypto_none_def none_crypto_pouch_start_def none_crypto_session_start_def none_crypto_header_get_def)
  have maxlen: "co_header_max_len crypto_none < SIZE_MOD" by (rule none.header_max_len)
  from none.uplink_start_step [OF assms(4,6,7) hdr] assms(14) obtain a where
    st: "uplink_safe s s0" "up_processing_queue (p_uplink s0) = up_processing_queue (p_uplink s)" "p_block s0 = p_block s"
      "session_is_active (p_uplink s0)" "up_header (p_uplink s0) = Some a"
      "henc (co_header_max_len crypto_none) \<lparr>ph_version = POUCH_HEADER_VERSION, ph_encryption_info = Plaintext_info did\<rparr>
        = Inr (buf_contents (p_heap s0) a)" by auto
  note fr = uplink_start_frame [OF assms(4,6) maxlen hdr assms(14)]
  note kept = kept_heap [OF assms(4) fr(5) st(2,3)]
  have flags: "\<not> pouch_is_closing (p_uplink s0)" "pouch_is_open (p_uplink s0)"
    by (simp_all add: pouch_is_closing_def pouch_is_open_def fr(1) assms(8) flag_defs)
  have ev: "p_events s0 = [POUCH_EVENT_SESSION_START]"
    by (simp add: fr(2) pouch_event_emit_def assms(9) CONFIG_POUCH_EVENT_QUEUE_DEPTH_def)
  have "mallocs s0" using uplink_safe_mallocs [OF st(1)] assms(11) by simp
  from session_start_step [OF assms(1-3) uplink_safe_inv [OF st(1)] kept(2) [OF assms(5)] flags(1) ev this assms(12,13)]
  obtain s1 where
    s1: "dispatch_events [pouch_event_handler (sdk_uplink_services enc comps)] g s0 = Some (g, s1)" "uplink_safe s0 s1"
      "entry_log s1 = entry_log s0 @ session_entries bytes comps g" "p_block s1 = None"
      "transport_frame (s0\<lparr>p_events := []\<rparr>) s1" "up_flags (p_uplink s1) = set_bit POUCH_CLOSING (up_flags (p_uplink s0))"
      "up_processing_work (p_uplink s1)" by blast
  have q: "up_processing_queue (p_uplink s1) \<noteq> []" using s1(3,4) by (auto simp: entry_log_def session_entries_def)
  have active: "session_is_active (p_uplink s1)" "pouch_is_open (p_uplink s1)" "pouch_is_closing (p_uplink s1)"
    using st(4) flags(2) by (simp_all add: session_is_active_def pouch_is_open_def pouch_is_closing_def s1(6) flag_defs)
  have h1: "up_header (p_uplink s1) = Some a" "buf_contents (p_heap s1) a = buf_contents (p_heap s0) a"
    "pending (p_uplink s1) (p_heap s1) = pending (p_uplink s0) (p_heap s0)"
    using s1(5) st(5) transport_frame_pending [OF s1(5)] by (simp_all add: transport_frame_def)
  obtain s2 blocks where
    s2: "process_blocks crypto_none s1 = Some s2" "up_processing_queue (p_uplink s2) = []"
      "pending (p_uplink s2) (p_heap s2) = pending (p_uplink s1) (p_heap s1) @ buf_contents (p_heap s1) a @ blocks"
      "concat (map block_entries (parse_blocks blocks)) = entry_log s1"
    using plaintext_step [OF uplink_safe_inv [OF s1(2)] active(1,2) s1(4) h1(1) q] by blast
  have safe: "uplink_safe s1 s2" "\<not> pouch_is_open (p_uplink s2)"
    using none.process_blocks_step [OF uplink_safe_inv [OF s1(2)]] s2(1) active(3) by auto
  have "co_header_max_len crypto_none = POUCH_HEADER_MAX_LEN_NONE" by (simp add: crypto_none_def)
  then show ?thesis
    using s1(1,7) s2 st(6) h1(2,3) s1(3) kept(1) kept(3) [OF fr(3,4)] safe(2)
      uplink_safe_trans [OF uplink_safe_trans [OF st(1) s1(2)] safe(1)]
    by (intro exI [of _ s1] exI [of _ s2] exI [of _ "buf_contents (p_heap s0) a"] exI [of _ blocks]) simp
qed

text \<open>A flash image kept as the list of bytes written, the application and the SDK around it.\<close>

definition demo_flash :: "u8 list flash_ops" where
  "demo_flash = \<lparr>flash_img_init = (\<lambda>f. (OK, [])),
     flash_img_buffered_write = (\<lambda>data len is_last f. case data of None \<Rightarrow> (Err EINVAL, f) | Some bs \<Rightarrow> (OK, f @ take len bs)),
     boot_request_upgrade = (\<lambda>f. (OK, f))\<rparr>"

definition demo_app :: "u8 list app" where
  "demo_app = \<lparr>ap_flags = 0, ap_sync_request_work = False, ap_disconnect_work = False, ap_flash = [], ap_out = []\<rparr>"

definition demo_sdk :: "u8 list app golioth" where
  "demo_sdk = (demo_golioth demo_app)\<lparr>ota_data := [demo_ota_data]\<rparr>"

definition demo_main :: "u8 list app golioth_ota_registered_component list" where
  "demo_main = map app_component [ota_component_main demo_flash (lit ''1'')]"

definition demo_henc :: header_encoder where
  "demo_henc n header = (if n = 0 then Inl 1 else Inr [0x99])"

lemma session_upload_witness:
  "let s = pouch_static (\<lambda>_. Some (\<lambda>_. 0)) \<lparr>device_id = Some [0x64]\<rparr> in
   \<exists>s0 s1 s2 blocks. pouch_uplink_start crypto_none demo_henc s = Some (Some (), s0)
    \<and> dispatch_events [pouch_event_handler (sdk_uplink_services (zcbor_rec (\<lambda>_. [7])) demo_main)] demo_sdk s0 = Some (demo_sdk, s1)
    \<and> process_blocks crypto_none s1 = Some s2 \<and> pending (p_uplink s2) (p_heap s2) = 0x99 # blocks
    \<and> concat (map block_entries (parse_blocks blocks))
        = [(lit ''.s/sensor'', 50, lit ''{\"temp\":22}''), (lit ''.u/c/main'', 60, [7]), (lit ''.c/status'', 60, [7])]"
proof -
  let ?s = "pouch_static (\<lambda>_. Some (\<lambda>_. 0)) \<lparr>device_id = Some [0x64]\<rparr>"
  let ?enc = "zcbor_rec (\<lambda>_. [7])"
  have start: "\<exists>s0. pouch_uplink_start crypto_none demo_henc ?s = Some (Some (), s0)"
    by (simp add: pouch_uplink_start_def pouch_static_def uplink_static_def crypto_none_def none_crypto_session_start_def
        none_crypto_pouch_start_def pouch_header_create_def buf_alloc_def heap_static_def with_buf_def write_header_def
        none_crypto_header_get_def put_at_def buf_claim_def buf_next_def set_flag_def set_uplink_def flag_defs
        POUCH_HEADER_MAX_LEN_NONE_def POUCH_DEVICE_ID_MAX_LEN_def demo_henc_def mem_write_def Let_def)
  then obtain s0 where s0: "pouch_uplink_start crypto_none demo_henc ?s = Some (Some (), s0)" by blast
  have main: "\<forall>c\<in>set demo_main. 0 \<notin> set (rc_name c)" "length (ota_data demo_sdk) = length demo_main"
    by (simp_all add: demo_main_def app_component_def ota_component_main_def lit_def demo_sdk_def)
  have "status_fits ?enc st" for st
    by (cases st) (simp add: status_fits_def encodes_def zcbor_rec_def enc_put_def enc_end_def status_puts_def)
  then have fits: "list_all (status_fits ?enc) (statuses demo_main demo_sdk)" by (simp add: list_all_iff)
  have room: "encodes ?enc 3 2 (settings_puts ?enc demo_sdk)"
    by (simp add: encodes_def zcbor_rec_def enc_put_def enc_end_def settings_puts_def)
  have log: "entry_log ?s @ session_entries (\<lambda>_. [7]) demo_main demo_sdk
      = [(lit ''.s/sensor'', 50, lit ''{\"temp\":22}''), (lit ''.u/c/main'', 60, [7]), (lit ''.c/status'', 60, [7])]"
    by (simp add: session_entries_def sensor_path_def sensor_data_def POUCH_CONTENT_TYPE_JSON_def POUCH_CONTENT_TYPE_CBOR_def
        SETTINGS_UPLINK_PATH_def report_entry_def statuses_def golioth_ota_get_status_def demo_main_def app_component_def
        ota_component_main_def lit_def upt_rec Let_def)
  have s: "uplink_inv ?s" "open_entries ?s []" "up_header (p_uplink ?s) = None" "up_flags (p_uplink ?s) = 0"
      "device_id (p_crypto ?s) = Some [0x64]" "mallocs ?s"
    by (simp_all add: mallocs_def uplink_static_def)
  have ev: "p_events ?s = []" by (simp add: pouch_static_def)
  have henc: "encoder_ok demo_henc" by (auto simp: encoder_ok_def demo_henc_def)
  have none: "pending (p_uplink ?s) (p_heap ?s) = []" by (simp add: pouch_static_def uplink_static_def pending_def reader_rest_def)
  have head: "demo_henc POUCH_HEADER_MAX_LEN_NONE info = Inr header \<Longrightarrow> header = [0x99]" for info header
    by (simp add: demo_henc_def split: if_splits)
  from session_upload [OF encoder_lib_ok_rec [of "\<lambda>_. [7]"] main s(1,2) henc s(3,4) ev s(5,6) fits room s0, unfolded none log]
  obtain s1 s2 header blocks where
    u: "dispatch_events [pouch_event_handler (sdk_uplink_services ?enc demo_main)] demo_sdk s0 = Some (demo_sdk, s1)"
      "process_blocks crypto_none s1 = Some s2" "pending (p_uplink s2) (p_heap s2) = [] @ header @ blocks"
      "concat (map block_entries (parse_blocks blocks))
        = [(lit ''.s/sensor'', 50, lit ''{\"temp\":22}''), (lit ''.u/c/main'', 60, [7]), (lit ''.c/status'', 60, [7])]"
    and hd: "demo_henc POUCH_HEADER_MAX_LEN_NONE \<lparr>ph_version = POUCH_HEADER_VERSION, ph_encryption_info = Plaintext_info [0x64]\<rparr> = Inr header"
    by blast
  have "pending (p_uplink s2) (p_heap s2) = 0x99 # blocks" using u(3) head [OF hd] by simp
  with s0 u(1,2,4) show ?thesis unfolding Let_def by blast
qed

text \<open>
  Property C15. The event work item of the example application returns. Whatever events are queued, and
  whether or not allocations fail, \<^verbatim>\<open>dispatch_events()\<close> ends with an empty queue: the services and the
  writes of the handler emit no event that would keep it going. Every queued event has had its effect
  on the application in order, no logged entry was lost, and the library is in a safe state.
\<close>

theorem event_work_returns:
  assumes "encoder_lib_ok enc bytes E" and "\<forall>c\<in>set comps. 0 \<notin> set (rc_name c)" and "length (ota_data g) = length comps"
    and "uplink_inv s" and "open_entries s es"
  shows "\<exists>s'. dispatch_events [pouch_event_handler (sdk_uplink_services enc comps)] g s
      = Some (g\<lparr>g_app := foldl app_event (g_app g) (p_events s)\<rparr>, s')
    \<and> p_events s' = [] \<and> uplink_safe s s' \<and> prefix (entry_log s) (entry_log s')"
proof -
  have "sdk_application enc bytes E comps" by unfold_locales (fact assms)+
  from sdk_application.event_work [OF this assms(3-5)] show ?thesis by (auto simp: events_ok_def)
qed

lemma event_work_returns_witness:
  "let s = (pouch_static (\<lambda>_. None) ())\<lparr>p_events := [POUCH_EVENT_SESSION_START, POUCH_EVENT_SESSION_END]\<rparr> in
   \<exists>s'. dispatch_events [pouch_event_handler (sdk_uplink_services (zcbor_rec (\<lambda>_. [7])) demo_main)] demo_sdk s
      = Some (demo_sdk\<lparr>g_app := demo_app\<lparr>ap_out := [Adv_update 0], ap_sync_request_work := True\<rparr>\<rparr>, s') \<and> p_events s' = []"
proof -
  have main: "\<forall>c\<in>set demo_main. 0 \<notin> set (rc_name c)" "length (ota_data demo_sdk) = length demo_main"
    by (simp_all add: demo_main_def app_component_def ota_component_main_def lit_def demo_sdk_def)
  let ?s = "(pouch_static (\<lambda>_. None) ())\<lparr>p_events := [POUCH_EVENT_SESSION_START, POUCH_EVENT_SESSION_END]\<rparr>"
  have "uplink_inv ?s" "open_entries ?s []" by simp_all
  from event_work_returns [OF encoder_lib_ok_rec [of "\<lambda>_. [7]"] main this] show ?thesis
    by (auto simp: app_event_def demo_sdk_def demo_golioth_def demo_app_def)
qed

section \<open>A firmware update\<close>

text \<open>Marking: exactly the components whose target differs are set to be downloaded.\<close>

lemma mark_for_download_data:
  assumes "distinct (map rc_name comps)" and "length (ota_data g) = length comps"
  shows "snd (golioth_ota_mark_for_download comps name g) = g\<lparr>ota_data := map2 (\<lambda>c d.
      if rc_name c = name then d\<lparr>od_state := GOLIOTH_OTA_STATE_DOWNLOADING\<rparr> else d) comps (ota_data g)\<rparr>"
proof (cases "component_search comps 0 name")
  case None
  then have "name \<notin> rc_name ` set comps" by (simp add: component_search_None)
  then have "map2 (\<lambda>c d. if rc_name c = name then d\<lparr>od_state := GOLIOTH_OTA_STATE_DOWNLOADING\<rparr> else d) comps (ota_data g)
      = ota_data g"
    using assms(2) by (intro nth_equalityI) (auto simp: image_iff)
  then show ?thesis by (simp add: golioth_ota_mark_for_download_def golioth_ota_set_status_def None)
next
  case (Some i)
  then have i: "i < length comps" "rc_name (comps ! i) = name"
    using component_search_Some [of comps 0 name i] by auto
  have "(ota_data g)[i := (ota_data g ! i)\<lparr>od_state := GOLIOTH_OTA_STATE_DOWNLOADING\<rparr>]
      = map2 (\<lambda>c d. if rc_name c = name then d\<lparr>od_state := GOLIOTH_OTA_STATE_DOWNLOADING\<rparr> else d) comps (ota_data g)"
    using assms i by (intro nth_equalityI) (auto simp: nth_list_update distinct_conv_nth)
  then show ?thesis by (simp add: golioth_ota_mark_for_download_def golioth_ota_set_status_def Some)
qed

lemma manifest_receive_step:
  assumes "distinct (map rc_name comps)" and "length (ota_data g) = length comps"
  shows "ota_manifest_receive comps ms g = g\<lparr>ota_data := map2 (\<lambda>c d.
      if \<exists>m\<in>set ms. mc_current m \<noteq> mc_target m \<and> mc_name m = rc_name c
      then d\<lparr>od_state := GOLIOTH_OTA_STATE_DOWNLOADING\<rparr> else d) comps (ota_data g)\<rparr>"
  using assms(2)
proof (induction ms arbitrary: g)
  case Nil
  then have "map2 (\<lambda>c d. d) comps (ota_data g) = ota_data g" by (intro nth_equalityI) simp_all
  then show ?case by simp
next
  case (Cons m ms)
  let ?g = "if mc_current m \<noteq> mc_target m then snd (golioth_ota_mark_for_download comps (mc_name m) g) else g"
  have len: "length (ota_data ?g) = length comps"
    using Cons.prems by (simp add: mark_for_download_data [OF assms(1)])
  have frame: "?g = g\<lparr>ota_data := ota_data ?g\<rparr>"
    using Cons.prems by (simp add: mark_for_download_data [OF assms(1)])
  let ?D = "map2 (\<lambda>c d. if \<exists>m\<in>set ms. mc_current m \<noteq> mc_target m \<and> mc_name m = rc_name c
      then d\<lparr>od_state := GOLIOTH_OTA_STATE_DOWNLOADING\<rparr> else d) comps (ota_data ?g)"
  have "?D = map2 (\<lambda>c d. if \<exists>m\<in>set (m # ms). mc_current m \<noteq> mc_target m \<and> mc_name m = rc_name c
      then d\<lparr>od_state := GOLIOTH_OTA_STATE_DOWNLOADING\<rparr> else d) comps (ota_data g)"
    using len Cons.prems by (intro nth_equalityI) (auto simp: mark_for_download_data [OF assms(1)])
  moreover have "ota_manifest_receive comps (m # ms) g = ?g\<lparr>ota_data := ?D\<rparr>"
    using Cons.IH [OF len] by simp
  moreover have "?g\<lparr>ota_data := ?D\<rparr> = g\<lparr>ota_data := ?D\<rparr>" by (subst (1) frame) simp
  ultimately show ?case by simp
qed

lemma manifest_marks:
  assumes "distinct (map rc_name comps)" and "length (ota_data g) = length comps" and "i < length comps"
  shows "(\<exists>m\<in>set (manifest_components comps g). mc_current m \<noteq> mc_target m \<and> mc_name m = rc_name (comps ! i))
    \<longleftrightarrow> rc_version (comps ! i) \<noteq> c_str (od_target (ota_data g ! i))"
proof -
  have nth: "manifest_components comps g ! j = \<lparr>mc_name = rc_name (comps ! j), mc_current = rc_version (comps ! j),
      mc_target = c_str (od_target (ota_data g ! j)), mc_target_hash = od_target_hash (ota_data g ! j),
      mc_size = unat (od_size (ota_data g ! j))\<rparr>" if "j < length comps" for j
    using that assms(2) by (simp add: manifest_components_def)
  have len: "length (manifest_components comps g) = length comps"
    using assms(2) by (simp add: manifest_components_def)
  have "rc_name (comps ! j) = rc_name (comps ! i) \<longleftrightarrow> j = i" if "j < length comps" for j
    using assms(1,3) that by (auto simp: distinct_conv_nth)
  then show ?thesis using assms(3) nth len by (auto simp: in_set_conv_nth Bex_def)
qed

text \<open>
  The flash image behind its functions: \<open>F f img\<close> says what was written since the last
  initialisation. This is the case in which no flash operation fails.
\<close>

definition flash_ok :: "'f flash_ops \<Rightarrow> ('f \<Rightarrow> u8 list \<Rightarrow> bool) \<Rightarrow> bool" where
  "flash_ok ops F \<longleftrightarrow> (\<forall>f. \<exists>f'. flash_img_init ops f = (OK, f') \<and> F f' [])
     \<and> (\<forall>f img d l. F f img \<longrightarrow>
          (\<exists>f'. flash_img_buffered_write ops (Some d) (length d) l f = (OK, f') \<and> F f' (img @ d)))
     \<and> (\<forall>f img. F f img \<longrightarrow> (\<exists>f'. boot_request_upgrade ops f = (OK, f') \<and> F f' img))"

lemma main_receive_step:
  assumes "flash_ok ops F" and "0 < off \<longrightarrow> F (ap_flash a) img" and "length img = off"
  shows "\<exists>f. ota_main_receive ops (Some d) off (length d) l a
      = a\<lparr>ap_flash := f, ap_out := ap_out a @ (if l then [Reboot] else [])\<rparr> \<and> F f (img @ d)"
proof -
  obtain f0 where f0: "(if off = 0 then flash_img_init ops (ap_flash a) else (OK, ap_flash a)) = (OK, f0)" "F f0 img"
    using assms unfolding flash_ok_def by (metis gr0I length_0_conv)
  obtain f1 where f1: "flash_img_buffered_write ops (Some d) (length d) l f0 = (OK, f1)" "F f1 (img @ d)"
    using assms(1) f0(2) unfolding flash_ok_def by blast
  obtain f2 where f2: "boot_request_upgrade ops f1 = (OK, f2)" "F f2 (img @ d)"
    using assms(1) f1(2) unfolding flash_ok_def by blast
  show ?thesis
    using f0(1) f1 f2 by (intro exI [of _ "if l then f2 else f1"]) (simp add: ota_main_receive_def)
qed

lemma image_written:
  assumes "flash_ok ops F" and "0 < off \<longrightarrow> F (ap_flash a) img" and "length img = off"
  shows "\<exists>f. chunk_calls (ota_main_receive ops) off (map (\<lambda>d. (d, False)) ds @ [(d, True)]) a
      = a\<lparr>ap_flash := f, ap_out := ap_out a @ [Reboot]\<rparr> \<and> F f (img @ concat ds @ d)"
  using assms(2,3)
proof (induction ds arbitrary: off a img)
  case Nil
  from main_receive_step [OF assms(1) Nil, of d True] show ?case by simp
next
  case (Cons x ds)
  obtain f where f: "ota_main_receive ops (Some x) off (length x) False a = a\<lparr>ap_flash := f\<rparr>" "F f (img @ x)"
    using main_receive_step [OF assms(1) Cons.prems, of x False] by auto
  have "0 < off + length x \<longrightarrow> F (ap_flash (a\<lparr>ap_flash := f\<rparr>)) (img @ x)" "length (img @ x) = off + length x"
    using f(2) Cons.prems(2) by simp_all
  from Cons.IH [OF this] f(1) show ?case by simp
qed

text \<open>The manifest: the component is marked when its target version differs from the running one.\<close>

lemma update_marked:
  assumes "decoder_ok (oe_zcbor env) 3 R" and "definite (oe_zcbor env) R" and "length (oe_junk env) = 65"
    and "list_all (\<lambda>c. component_fits env c \<and> no_nul c) ms" and "list_all other_key pre"
    and "R (zd_new (oe_zcbor env) 3 bs) [[C_map (pre @ (C_int 3, C_list (map component_cbor ms)) # post)]]"
    and "length (ota_data g) = length cs" and "distinct (map fst cs)" and "i < length cs"
    and "cs ! i = (name, running, f)"
    and "List.find (\<lambda>c. fst c = name) (rev ms) = Some (name, version, hex, sz)"
  shows "0 \<notin> set name" and "length name \<le> 32"
    and "\<exists>g1. ota_receive_manifest env (map app_component cs) [ota_manifest_receive (map app_component cs)]
        msid (Some bs) (length bs) is_last g = Some g1
      \<and> g_app g1 = g_app g \<and> component_download g1 = component_download g
      \<and> (od_state (ota_data g1 ! i) = GOLIOTH_OTA_STATE_DOWNLOADING
          \<longleftrightarrow> take 31 version \<noteq> running \<or> od_state (ota_data g ! i) = GOLIOTH_OTA_STATE_DOWNLOADING)"
proof -
  let ?comps = "map app_component cs"
  let ?c = "(name, version, hex, sz)"
  have comps: "length (ota_data g) = length ?comps" "distinct (map rc_name ?comps)"
    using assms(7,8) by (simp_all add: app_component_def comp_def split_beta)
  have ci: "rc_name (?comps ! i) = name" "rc_version (?comps ! i) = running"
    using assms(9,10) by (simp_all add: app_component_def)
  from manifest_received_step [OF assms(1-6) comps(1), of "[ota_manifest_receive ?comps]" msid is_last] obtain g0 where
    g0: "ota_receive_manifest env ?comps [ota_manifest_receive ?comps] msid (Some bs) (length bs) is_last g
        = Some (ota_manifest_receive ?comps (manifest_components ?comps g0) g0)"
      "g_app g0 = g_app g" "component_download g0 = component_download g" "length (ota_data g0) = length ?comps"
      "\<forall>i<length ?comps. ota_data g0 ! i = (case List.find (\<lambda>c. fst c = rc_name (?comps ! i)) (rev ms) of
         None \<Rightarrow> ota_data g ! i | Some c \<Rightarrow> manifest_data env c (ota_data g ! i))" by auto
  have di: "ota_data g0 ! i = manifest_data env ?c (ota_data g ! i)"
    using g0(5) assms(9,11) ci(1) by simp
  have "?c \<in> set ms" using assms(11) by (metis find_Some_iff nth_mem set_rev)
  then have nul: "0 \<notin> set name" "0 \<notin> set version" "length name \<le> 32"
    using assms(4) by (auto simp: list_all_iff no_nul_def component_fits_def)
  have "0 \<notin> set (take 31 version)" using nul(2) by (auto dest: in_set_takeD)
  then have target: "c_str (od_target (ota_data g0 ! i)) = take 31 version"
    using c_str_zeros [of "take 31 version" "Suc (31 - length version)"]
    by (simp add: di manifest_data_def replicate_append_same del: replicate_Suc) (simp add: replicate_append_same [symmetric])
  define g1 where "g1 = ota_manifest_receive ?comps (manifest_components ?comps g0) g0"
  have g1: "g_app g1 = g_app g" "component_download g1 = component_download g"
    using g0(2-4) by (simp_all add: g1_def manifest_receive_step [OF comps(2)])
  have mark: "(\<exists>m\<in>set (manifest_components ?comps g0). mc_current m \<noteq> mc_target m \<and> mc_name m = rc_name (?comps ! i))
      \<longleftrightarrow> take 31 version \<noteq> running"
    using manifest_marks [OF comps(2) g0(4), of i] assms(9) ci target by auto
  have state: "od_state (ota_data g1 ! i) = GOLIOTH_OTA_STATE_DOWNLOADING
      \<longleftrightarrow> take 31 version \<noteq> running \<or> od_state (ota_data g ! i) = GOLIOTH_OTA_STATE_DOWNLOADING"
    using mark assms(9) g0(4) by (auto simp: g1_def manifest_receive_step [OF comps(2)] di manifest_data_def)
  show "0 \<notin> set name" "length name \<le> 32" by (fact nul)+
  show "\<exists>g1. ota_receive_manifest env ?comps [ota_manifest_receive ?comps] msid (Some bs) (length bs) is_last g = Some g1
      \<and> g_app g1 = g_app g \<and> component_download g1 = component_download g
      \<and> (od_state (ota_data g1 ! i) = GOLIOTH_OTA_STATE_DOWNLOADING
          \<longleftrightarrow> take 31 version \<noteq> running \<or> od_state (ota_data g ! i) = GOLIOTH_OTA_STATE_DOWNLOADING)"
    using g0(1) g1 state unfolding g1_def [symmetric] by blast
qed

text \<open>
  Property C13. A firmware update from manifest to reboot. A manifest that names a registered component of the
  application, followed by a download of that component in pieces, ends like this: if the target
  version (its first 31 bytes, which is all that is kept) differs from the running one, or the
  component was marked before, the flash image is exactly the concatenation of the pieces, and a reboot
  into it is requested once, behind the last piece; otherwise flash and application are untouched.
  No flash operation is assumed to fail.
\<close>

theorem firmware_update:
  assumes "decoder_ok (oe_zcbor env) 3 R" and "definite (oe_zcbor env) R" and "length (oe_junk env) = 65"
    and "list_all (\<lambda>c. component_fits env c \<and> no_nul c) ms" and "list_all other_key pre"
    and "R (zd_new (oe_zcbor env) 3 bs) [[C_map (pre @ (C_int 3, C_list (map component_cbor ms)) # post)]]"
    and "length (ota_data g) = length cs" and "distinct (map fst cs)" and "i < length cs"
    and "cs ! i = (name, running, ota_main_receive ops)"
    and "List.find (\<lambda>c. fst c = name) (rev ms) = Some (name, version, hex, sz)"
    and "0x40 \<notin> set name" and "length (cd_name (component_download g)) = 33" and "sid \<noteq> DOWNLINK_ID_INVALID"
    and "sum_list (map length (ds @ [d])) < SIZE_MOD" and "flash_ok ops F"
  shows "\<exists>g1 g2 g3. ota_receive_manifest env (map app_component cs) [ota_manifest_receive (map app_component cs)]
        msid (Some bs) (length bs) is_last g = Some g1
    \<and> ota_receive_component_start sid (Some (name @ 0x40 # version)) g1 = Some g2
    \<and> data_run (map app_component cs) sid (map (\<lambda>d. (d, False)) ds @ [(d, True)]) g2 = Some g3
    \<and> (if take 31 version \<noteq> running \<or> od_state (ota_data g ! i) = GOLIOTH_OTA_STATE_DOWNLOADING
       then F (ap_flash (g_app g3)) (concat ds @ d) \<and> ap_out (g_app g3) = ap_out (g_app g) @ [Reboot]
       else g_app g3 = g_app g)"
proof -
  let ?comps = "map app_component cs"
  note marked = update_marked [OF assms(1-11)]
  obtain g1 where
    g1: "ota_receive_manifest env ?comps [ota_manifest_receive ?comps] msid (Some bs) (length bs) is_last g = Some g1"
      "g_app g1 = g_app g" "component_download g1 = component_download g"
      "od_state (ota_data g1 ! i) = GOLIOTH_OTA_STATE_DOWNLOADING
        \<longleftrightarrow> take 31 version \<noteq> running \<or> od_state (ota_data g ! i) = GOLIOTH_OTA_STATE_DOWNLOADING"
    using marked(3) by blast
  obtain cd where
    cd: "ota_receive_component_start sid (Some (name @ 0x40 # version)) g1 = Some (g1\<lparr>component_download := cd\<rparr>)"
      "cd_downlink_id cd = sid" "cd_offset cd = 0" "c_str (cd_name cd) = name"
    using component_start_step [OF assms(12) marked(1,2), of g1 sid version] assms(13) g1(3) by auto
  let ?g2 = "g1\<lparr>component_download := cd\<rparr>" and ?chunks = "map (\<lambda>d. (d, False)) ds @ [(d, True)]"
  have len: "cd_offset (component_download ?g2) + sum_list (map (length \<circ> fst) ?chunks) < SIZE_MOD"
    using assms(15) cd(3) by (simp add: comp_def)
  have "cd_downlink_id (component_download ?g2) \<noteq> DOWNLINK_ID_INVALID" "c_str (cd_name (component_download ?g2)) = name"
    using cd(2,4) assms(14) by simp_all
  from data_run_step [OF assms(8,9,10) this len, of sid] obtain g3 where
    g3: "data_run ?comps sid ?chunks ?g2 = Some g3"
      "g_app g3 = (if od_state (ota_data ?g2 ! i) = GOLIOTH_OTA_STATE_DOWNLOADING
         then chunk_calls (ota_main_receive ops) 0 ?chunks (g_app g) else g_app g)"
    using cd(3) g1(2) by auto
  obtain f where "chunk_calls (ota_main_receive ops) 0 ?chunks (g_app g)
      = (g_app g)\<lparr>ap_flash := f, ap_out := ap_out (g_app g) @ [Reboot]\<rparr>" "F f (concat ds @ d)"
    using image_written [OF assms(16), of 0 "g_app g" "[]"] by auto
  with g3 g1(1,4) cd(1) show ?thesis by auto
qed

lemma firmware_update_witness:
  "let x = C_map [(C_int 3, C_list [component_cbor (lit ''main'', lit ''2'', replicate 64 0x30, 3)])] in
   \<exists>g1 g2 g3. ota_receive_manifest (demo_ota_env x) demo_main [ota_manifest_receive demo_main] 0 (Some [1]) (length [1 :: u8]) True demo_sdk
        = Some g1
    \<and> ota_receive_component_start 3 (Some (lit ''main'' @ 0x40 # lit ''2'')) g1 = Some g2
    \<and> data_run demo_main 3 (map (\<lambda>d. (d, False)) [[7, 8]] @ [([9], True)]) g2 = Some g3
    \<and> ap_flash (g_app g3) = [7, 8, 9] \<and> ap_out (g_app g3) = [Reboot]"
proof -
  let ?m = "(lit ''main'', lit ''2'', replicate 64 0x30, 3) :: manifest_entry"
  let ?x = "C_map ([] @ (C_int 3, C_list (map component_cbor [?m])) # [])"
  have fl: "flash_ok demo_flash (=)" by (simp add: flash_ok_def demo_flash_def)
  have dec: "decoder_ok (oe_zcbor (demo_ota_env ?x)) 3 (=)" "definite (oe_zcbor (demo_ota_env ?x)) (=)"
    "length (oe_junk (demo_ota_env ?x)) = 65"
    by (simp_all add: demo_ota_env_def decoder_ok_pos definite_pos)
  have msg: "zd_new (oe_zcbor (demo_ota_env ?x)) 3 [1] = [[?x]]" by (simp add: demo_ota_env_def zcbor_pos_def)
  have "\<exists>g1 g2 g3. ota_receive_manifest (demo_ota_env ?x) (map app_component [ota_component_main demo_flash (lit ''1'')])
          [ota_manifest_receive (map app_component [ota_component_main demo_flash (lit ''1'')])] 0 (Some [1]) (length [1 :: u8]) True demo_sdk
        = Some g1
    \<and> ota_receive_component_start 3 (Some (lit ''main'' @ 0x40 # lit ''2'')) g1 = Some g2
    \<and> data_run (map app_component [ota_component_main demo_flash (lit ''1'')]) 3 (map (\<lambda>d. (d, False)) [[7, 8]] @ [([9], True)]) g2 = Some g3
    \<and> (if take 31 (lit ''2'') \<noteq> lit ''1'' \<or> od_state (ota_data demo_sdk ! 0) = GOLIOTH_OTA_STATE_DOWNLOADING
       then ap_flash (g_app g3) = concat [[7, 8]] @ [9] \<and> ap_out (g_app g3) = ap_out (g_app demo_sdk) @ [Reboot]
       else g_app g3 = g_app demo_sdk)"
    by (rule firmware_update [OF dec _ _ msg _ _ _ _ _ _ _ _ _ fl, where i = 0])
       (simp_all add: component_fits_def no_nul_def demo_ota_env_def lit_def demo_sdk_def demo_golioth_def
          ota_component_main_def DOWNLINK_ID_INVALID_def SIZE_MOD_num)
  then show ?thesis by (simp add: Let_def demo_main_def lit_def demo_sdk_def demo_app_def demo_golioth_def)
qed

section \<open>Starting\<close>





section \<open>The advertised flag\<close>

text \<open>What the callbacks and work items of the application do, in any order.\<close>

inductive app_step for enc comps ops has_led where
  event: "pouch_event_handler (sdk_uplink_services enc comps) ev (g, s) = Some (g', s') \<Longrightarrow>
    app_step enc comps ops has_led (g, s) (g', s')"
| led: "app_step enc comps ops has_led (g, s) (g\<lparr>g_app := snd (led_setting_cb has_led v (g_app g))\<rparr>, s)"
| flash: "app_step enc comps ops has_led (g, s) (g\<lparr>g_app := ota_main_receive ops d off len l (g_app g)\<rparr>, s)"
| sync_request: "app_step enc comps ops has_led (g, s)
    (g\<lparr>g_app := sync_request_work_handler ((g_app g)\<lparr>ap_sync_request_work := False\<rparr>)\<rparr>, s)"
  if "ap_sync_request_work (g_app g)"
| disconnect: "app_step enc comps ops has_led (g, s) (g\<lparr>g_app := disconnected (g_app g)\<rparr>, s)"
| advertise: "app_step enc comps ops has_led (g, s)
    (g\<lparr>g_app := disconnect_work_handler ((g_app g)\<lparr>ap_disconnect_work := False\<rparr>)\<rparr>, s)"
  if "ap_disconnect_work (g_app g)"

text \<open>The flag that a scanner sees: the one of the last update, 0 before the first.\<close>

definition advertised :: "app_output list \<Rightarrow> u8" where
  "advertised out = foldl (\<lambda>f x. case x of Adv_update f' \<Rightarrow> f' | _ \<Rightarrow> f) 0 out"

lemma advertised_snoc [simp]:
  "advertised (out @ [Adv_update f]) = f" "advertised (out @ [Adv_start]) = advertised out"
  "advertised (out @ [Led v]) = advertised out" "advertised (out @ [Reboot]) = advertised out"
  by (simp_all add: advertised_def)

definition flag_shown :: "'f app \<Rightarrow> bool" where
  "flag_shown a \<longleftrightarrow> advertised (ap_out a) = ap_flags a \<and> ap_flags a \<in> {0, 1} \<and> (ap_flags a = 0 \<longrightarrow> ap_sync_request_work a)"

lemma event_app:
  "pouch_event_handler (sdk_uplink_services enc comps) ev (g, s) = Some (g', s') \<Longrightarrow>
    g_app g' = (if ev = POUCH_EVENT_SESSION_END then (g_app g)\<lparr>ap_flags := 0,
      ap_out := ap_out (g_app g) @ [Adv_update 0], ap_sync_request_work := True\<rparr> else g_app g)"
  by (auto simp: pouch_event_handler_def bind_eq_Some_conv split: if_splits dest: sync_keeps_state)

lemma main_receive_app:
  "ap_flags (ota_main_receive ops d off len l a) = ap_flags a"
  "ap_sync_request_work (ota_main_receive ops d off len l a) = ap_sync_request_work a"
  "advertised (ap_out (ota_main_receive ops d off len l a)) = advertised (ap_out a)"
  by (simp_all add: ota_main_receive_def Let_def split: prod.splits)

text \<open>
  Property C35. The advertised flag is the one the application means. From the state in which \<^verbatim>\<open>main()\<close> enters its loop,
  whatever sequence of events, settings, firmware pieces, disconnects and delayed work follows, the
  flag last handed to the Bluetooth stack is the one in the service data, it is 0 or 1, and while it
  is 0 the work that requests the next synchronisation is scheduled: the device cannot stop asking.
\<close>

theorem advertised_flag:
  assumes "(app_step enc comps ops has_led)\<^sup>*\<^sup>* (g0, s0) (g, s)" and "flag_shown (g_app g0)"
  shows "flag_shown (g_app g)"
  using assms(1)
proof (induction rule: rtranclp_induct2)
  case (step g s g' s')
  from step.hyps(2) step.IH show ?case
  proof cases
    case (event ev)
    with step.IH show ?thesis by (auto simp: event_app flag_shown_def)
  next
    case (flash d off len l)
    with step.IH show ?thesis by (simp add: flag_shown_def main_receive_app)
  qed (auto simp: flag_shown_def led_setting_cb_def sync_request_work_handler_def disconnected_def disconnect_work_handler_def)
qed (rule assms(2))

lemma advertised_flag_witness:
  "flag_shown (g_app (demo_sdk\<lparr>g_app := sync_request_work_handler (demo_app\<lparr>ap_sync_request_work := False\<rparr>)\<rparr>))"
proof -
  let ?g = "demo_sdk\<lparr>g_app := demo_app\<lparr>ap_sync_request_work := True\<rparr>\<rparr>"
  have "app_step (zcbor_rec (\<lambda>_. [7])) demo_main demo_flash True (?g, pouch_static (\<lambda>_. None) ())
      (?g\<lparr>g_app := sync_request_work_handler ((g_app ?g)\<lparr>ap_sync_request_work := False\<rparr>)\<rparr>, pouch_static (\<lambda>_. None) ())"
    by (rule app_step.sync_request) simp
  from advertised_flag [OF r_into_rtranclp [of "app_step (zcbor_rec (\<lambda>_. [7])) demo_main demo_flash True", OF this]]
  show ?thesis by (simp add: flag_shown_def demo_app_def advertised_def)
qed

end
