(* ===== verification/System.thy ===== *)
theory System
  imports Saead
begin

text \<open>
  The library as one state machine: the uplink calls of the application and the transport, the
  downlink calls of the transport with arbitrary bytes, and the runs of the three work items, in any order. Uplink
  and downlink share the heap and the crypto backend; the invariant says who holds which buffer on
  both sides.
\<close>

section \<open>Calls\<close>

datatype library_call =
    Uplink_call uplink_call
  | Downlink_start
  | Downlink_push "u8 list"
  | Downlink_finish
  | Decrypt
  | Consume

fun library_exec ::
    "'c crypto_ops \<Rightarrow> header_encoder \<Rightarrow> header_decoder \<Rightarrow> 'w pouch_downlink_handler list \<Rightarrow> library_call \<Rightarrow>
      'w \<times> 'c pouch \<Rightarrow> ('w \<times> 'c pouch) option" where
  "library_exec ops enc dec hs (Uplink_call c) (w, s) = map_option (Pair w) (uplink_exec ops enc c s)"
| "library_exec ops enc dec hs Downlink_start (w, s) = Some (w, pouch_downlink_start ops s)"
| "library_exec ops enc dec hs (Downlink_push data) (w, s) = map_option (Pair w) (pouch_downlink_push ops dec data s)"
| "library_exec ops enc dec hs Downlink_finish (w, s) = Some (w, pouch_downlink_finish s)"
| "library_exec ops enc dec hs Decrypt (w, s) = map_option (Pair w) (run_decrypt_work ops s)"
| "library_exec ops enc dec hs Consume (w, s) = run_consume_work hs w s"

section \<open>The uplink leaves the downlink alone\<close>

lemma uplink_enqueue_downlink [simp]: "p_downlink (uplink_enqueue a s) = p_downlink s"
  by (simp add: uplink_enqueue_def)

lemma stream_state_downlink [simp]:
  "p_downlink (stream_put sp st s) = p_downlink s" "p_downlink (stream_drop sp s) = p_downlink s"
  "p_downlink (dec_open_streams s) = p_downlink s" "p_downlink (set_flag n s) = p_downlink s"
  "p_downlink (clear_flag n s) = p_downlink s" "p_downlink (end_session ops s) = p_downlink s"
  "p_downlink (submit_processing_work s) = p_downlink s"
  by (simp_all add: stream_put_def stream_drop_def dec_open_streams_def set_flag_def clear_flag_def end_session_def
      submit_processing_work_def)

lemma entry_write_downlink:
  "pouch_uplink_entry_write lock path ct data len s = Some (r, s') \<Longrightarrow> p_downlink s' = p_downlink s"
  by (auto simp: pouch_uplink_entry_write_def bind_eq_Some_conv Let_def split: if_splits option.splits)

lemma entry_block_close_downlink: "entry_block_close lock s = Some (r, s') \<Longrightarrow> p_downlink s' = p_downlink s"
  by (auto simp: entry_block_close_def bind_eq_Some_conv split: if_splits option.splits)

lemma stream_open_downlink:
  "pouch_uplink_stream_open path ct s = Some (r, s') \<Longrightarrow> p_downlink s' = p_downlink s"
  by (auto simp: pouch_uplink_stream_open_def bind_eq_Some_conv Let_def split: if_splits option.splits prod.splits)

lemma stream_make_room_downlink: "stream_make_room sp s = Some (r, s') \<Longrightarrow> p_downlink s' = p_downlink s"
  by (auto simp: stream_make_room_def bind_eq_Some_conv Let_def split: if_splits option.splits)

lemma stream_write_loop_downlink:
  "stream_write_loop sp bytes len written s = Some r \<Longrightarrow> p_downlink (snd r) = p_downlink s"
  by (rule stream_write_loop.raw_induct [where P = "\<lambda>sp bytes len written s r. p_downlink (snd r) = p_downlink s"])
     (fastforce simp: Let_def bind_eq_Some_conv split: if_splits option.splits dest: stream_make_room_downlink)+

lemma stream_write_downlink: "pouch_stream_write stream data len s = Some (r, s') \<Longrightarrow> p_downlink s' = p_downlink s"
  by (auto simp: pouch_stream_write_def bind_eq_Some_conv split: if_splits dest: stream_write_loop_downlink)

lemma stream_close_downlink: "pouch_stream_close stream s = Some (r, s') \<Longrightarrow> p_downlink s' = p_downlink s"
  by (auto simp: pouch_stream_close_def bind_eq_Some_conv split: if_splits option.splits)

lemma process_block_downlink: "process_block ops s = Some s' \<Longrightarrow> p_downlink s' = p_downlink s"
  by (auto simp: process_block_def bind_eq_Some_conv Let_def split: prod.splits option.splits)

lemma process_loop_downlink: "process_loop ops s = Some s' \<Longrightarrow> p_downlink s' = p_downlink s"
  by (rule process_loop.raw_induct [where P = "\<lambda>ops s s'. p_downlink s' = p_downlink s"])
     (auto simp: bind_eq_Some_conv split: if_splits dest: process_block_downlink)

lemma processing_work_downlink: "run_processing_work ops s = Some s' \<Longrightarrow> p_downlink s' = p_downlink s"
  by (auto simp: run_processing_work_def process_blocks_def bind_eq_Some_conv split: if_splits dest!: process_loop_downlink)

lemma uplink_close_downlink: "pouch_uplink_close lock s = Some (r, s') \<Longrightarrow> p_downlink s' = p_downlink s"
  by (auto simp: pouch_uplink_close_def bind_eq_Some_conv split: if_splits dest!: entry_block_close_downlink)

lemma uplink_start_downlink: "pouch_uplink_start ops enc s = Some (r, s') \<Longrightarrow> p_downlink s' = p_downlink s"
  by (auto simp: pouch_uplink_start_def bind_eq_Some_conv Let_def split: if_splits option.splits prod.splits)

lemma uplink_fill_downlink: "pouch_uplink_fill ops up n s = Some (r, s') \<Longrightarrow> p_downlink s' = p_downlink s"
  by (auto simp: pouch_uplink_fill_def bind_eq_Some_conv Let_def split: if_splits)

lemma uplink_finish_downlink: "pouch_uplink_finish ops up s = Some s' \<Longrightarrow> p_downlink s' = p_downlink s"
  by (auto simp: pouch_uplink_finish_def bind_eq_Some_conv Let_def split: if_splits)

lemma uplink_exec_downlink: "uplink_exec ops enc c s = Some s' \<Longrightarrow> p_downlink s' = p_downlink s"
  by (cases c)
     (auto dest: entry_write_downlink stream_open_downlink stream_write_downlink stream_close_downlink uplink_close_downlink
        processing_work_downlink uplink_start_downlink uplink_fill_downlink uplink_finish_downlink)

section \<open>Ownership on both sides\<close>

text \<open>
  On the downlink side the collecting buffer may be full, with bytes that are not a valid block: all
  that is known of it is its size.
\<close>

definition rx_roles :: "'c crypto_ops \<Rightarrow> pouch_downlink \<Rightarrow> role list" where
  "rx_roles ops d = opt_role (dl_pouch_buf d) (received_role (co_auth_tag_len ops))
     @ list_role (dl_decrypt_queue d) (received_role (co_auth_tag_len ops)) @ list_role (dl_consume_queue d) any_role"

definition library_roles :: "'c crypto_ops \<Rightarrow> 'c pouch \<Rightarrow> role list" where
  "library_roles ops s = uplink_roles s @ rx_roles ops (p_downlink s)"

text \<open>The decryption work is only pending while a block waits.\<close>

definition rx_work :: "'c pouch \<Rightarrow> bool" where
  "rx_work s \<longleftrightarrow> (dl_decrypt_work (p_downlink s) \<longrightarrow> dl_decrypt_queue (p_downlink s) \<noteq> [])"

definition library_inv :: "'c crypto_ops \<Rightarrow> 'c pouch \<Rightarrow> bool" where
  "library_inv ops s \<longleftrightarrow> own (p_heap s) (library_roles ops s) \<and> streams_ok s \<and> rx_work s"

definition library_safe :: "'c crypto_ops \<Rightarrow> 'c pouch \<Rightarrow> 'c pouch \<Rightarrow> bool" where
  "library_safe ops s s' \<longleftrightarrow> library_inv ops s'
     \<and> hstep (p_heap s) (library_roles ops s) (p_heap s') (library_roles ops s')"

text \<open>A step of the downlink: the buffers of the downlink change hands, the uplink is as it was.\<close>

definition rx_step :: "'c crypto_ops \<Rightarrow> 'c pouch \<Rightarrow> 'c pouch \<Rightarrow> bool" where
  "rx_step ops s s' \<longleftrightarrow> hstep (p_heap s) (rx_roles ops (p_downlink s)) (p_heap s') (rx_roles ops (p_downlink s'))
     \<and> p_uplink s' = p_uplink s \<and> p_block s' = p_block s \<and> p_streams s' = p_streams s
     \<and> p_open_streams s' = p_open_streams s \<and> (rx_work s \<longrightarrow> rx_work s')"

lemma rx_step_refl: "own (p_heap s) (rx_roles ops (p_downlink s)) \<Longrightarrow> rx_step ops s s"
  by (simp add: rx_step_def hstep_refl)

lemma rx_step_trans: "rx_step ops s s' \<Longrightarrow> rx_step ops s' s'' \<Longrightarrow> rx_step ops s s''"
  by (auto simp: rx_step_def intro: hstep_trans)

lemma rx_step_own: "rx_step ops s s' \<Longrightarrow> own (p_heap s') (rx_roles ops (p_downlink s'))"
  by (auto simp: rx_step_def dest: hstep_own)

lemma library_inv_parts:
  assumes "library_inv ops s"
  shows "uplink_inv s" and "own (p_heap s) (rx_roles ops (p_downlink s))"
proof -
  have o: "own (p_heap s) (uplink_roles s @ rx_roles ops (p_downlink s))"
    using assms by (simp add: library_inv_def library_roles_def)
  then show "own (p_heap s) (rx_roles ops (p_downlink s))" by (rule own_subset) simp
  show "uplink_inv s" using own_subset [OF o refl] assms by (simp add: uplink_inv_def library_inv_def)
qed

lemma library_uplink_step:
  assumes "library_inv ops s" and "uplink_safe s s'" and "p_downlink s' = p_downlink s"
  shows "library_safe ops s s'"
proof -
  have h: "hstep (p_heap s) (uplink_roles s) (p_heap s') (uplink_roles s')" and ok: "streams_ok s'"
    using assms(2) by (simp_all add: uplink_safe_def uplink_inv_def)
  have o: "own (p_heap s) (uplink_roles s @ rx_roles ops (p_downlink s))"
    using assms(1) by (simp add: library_inv_def library_roles_def)
  have "hstep (p_heap s) (library_roles ops s) (p_heap s') (library_roles ops s')"
    using hstep_app [OF h o] by (simp add: library_roles_def assms(3))
  then show ?thesis
    using ok assms(1,3) hstep_own by (simp add: library_safe_def library_inv_def rx_work_def)
qed

lemma library_rx_step:
  assumes "library_inv ops s" and "rx_step ops s s'"
  shows "library_safe ops s s'"
proof -
  have roles: "uplink_roles s' = uplink_roles s" using assms(2) by (simp add: rx_step_def uplink_roles_def)
  have h: "hstep (p_heap s) (rx_roles ops (p_downlink s)) (p_heap s') (rx_roles ops (p_downlink s'))"
    using assms(2) by (simp add: rx_step_def)
  have "hstep (p_heap s) (library_roles ops s) (p_heap s') (library_roles ops s')"
    by (rule hstep_in_context [OF _ _ h, where S = "uplink_roles s"])
       (use assms(1) roles in \<open>simp_all add: library_inv_def library_roles_def\<close>)
  moreover have "streams_ok s'"
    by (rule streams_ok_mono [of s]) (use assms hstep_env(2) [OF h] in \<open>simp_all add: library_inv_def rx_step_def\<close>)
  ultimately show ?thesis
    using assms hstep_own by (simp add: library_safe_def library_inv_def rx_step_def)
qed

section \<open>Receiving arbitrary bytes\<close>

lemma received_holding:
  assumes "own h ((a, received_role (co_auth_tag_len ops)) # R)"
  obtains xs where "own h [(a, holding (dl_max ops) xs)]" and "length xs \<le> dl_max ops"
proof -
  from ownD [OF assms, of a] obtain b where b: "store h a = Some b" "received_role (co_auth_tag_len ops) b" "buf_ok b" by auto
  then have "own h [(a, holding (dl_max ops) (contents b))]"
    using assms by (simp add: own_Cons_iff holding_def received_role_def dl_max_def) (simp add: own_def)
  moreover have "length (contents b) \<le> dl_max ops"
    using b by (simp add: received_role_def dl_max_def buf_ok_def)
  ultimately show ?thesis by (rule that)
qed

lemma holding_received: "role_le [(a, holding (dl_max ops) xs)] [(a, received_role (co_auth_tag_len ops))]"
  by (simp add: role_le_def holding_def received_role_def dl_max_def)

text \<open>What is behind the header, whatever it is: the buffer is kept, or handed over for decryption.\<close>

lemma push_block_any:
  assumes own: "own (p_heap s) [(a, holding (dl_max ops) ys)]" and "co_auth_tag_len ops \<le> 16"
    and "length ys \<le> dl_max ops" and "dl_pouch_buf (p_downlink s) = Some a"
  shows "\<exists>go h p fl. push_block ops a (pouch_bufview_init a) s = Some (go, dl_state s h p fl)
    \<and> hstep (p_heap s) [(a, holding (dl_max ops) ys)] h (opt_role p (received_role (co_auth_tag_len ops))
         @ list_role fl (received_role (co_auth_tag_len ops)))"
proof -
  let ?P = "received_role (co_auth_tag_len ops)"
  have M: "dl_max ops < SIZE_MOD" using assms(2) by (simp add: dl_max_def SIZE_MOD_num)
  have same: "dl_state s (p_heap s) (Some a) [] = s" using assms(4) by (simp add: dl_state_def)
  have weak: "hstep (p_heap s) [(a, holding (dl_max ops) ys)] h R'"
    if "hstep (p_heap s) [(a, holding (dl_max ops) ys)] h R" "role_le R R'" for h R R'
    using hstep_trans [OF that(1) hstep_role_le [OF hstep_own [OF that(1)] that(2)]] .
  have keep: "hstep (p_heap s) [(a, holding (dl_max ops) ys)] (p_heap s) (opt_role (Some a) ?P @ list_role [] ?P)"
    by (rule weak [OF hstep_refl [OF own]]) (simp add: holding_received)
  show ?thesis
  proof (cases rule: push_block_cases [OF own refl M assms(3)])
    case 1
    then show ?thesis using same keep by (intro exI [of _ False] exI [of _ "p_heap s"] exI [of _ "Some a"] exI [of _ "[]"]) simp
  next
    case 2
    then show ?thesis using same keep by (intro exI [of _ True] exI [of _ "p_heap s"] exI [of _ "Some a"] exI [of _ "[]"]) simp
  next
    case (3 h)
    have "hstep (p_heap s) [(a, holding (dl_max ops) ys)] h (opt_role None ?P @ list_role [a] ?P)"
      by (rule weak [OF 3(4)]) (simp add: holding_received)
    with 3(3) show ?thesis by blast
  next
    case (4 h a')
    have "hstep (p_heap s) [(a, holding (dl_max ops) ys)] h (opt_role (Some a') ?P @ list_role [a] ?P)"
      by (rule weak [OF 4(5)]) (simp add: role_le_def holding_def received_role_def dl_max_def)
    with 4(4) show ?thesis by blast
  qed
qed

text \<open>The state a pass leaves: header seen or not, backend state, heap, collecting buffer and new blocks.\<close>

definition rx_state where
  "rx_state s c hdr h p fl = dl_state (s\<lparr>p_crypto := c, p_downlink := (p_downlink s)\<lparr>dl_pouch_header := hdr\<rparr>\<rparr>) h p fl"

lemma rx_state_step:
  assumes own: "own (p_heap s) (rx_roles ops (p_downlink s))" and a: "dl_pouch_buf (p_downlink s) = Some a"
    and o1: "own (p_heap s) [(a, holding (dl_max ops) xs)]"
    and h: "hstep (p_heap s) [(a, holding (dl_max ops) xs)] h (opt_role p (received_role (co_auth_tag_len ops))
      @ list_role fl (received_role (co_auth_tag_len ops)))"
  shows "rx_step ops s (rx_state s c hdr h p fl)"
proof -
  let ?P = "received_role (co_auth_tag_len ops)" and ?d = "p_downlink s"
  let ?S = "list_role (dl_decrypt_queue ?d) ?P @ list_role (dl_consume_queue ?d) any_role"
  have o: "own (p_heap s) ((a, ?P) # ?S)" using own a by (simp add: rx_roles_def)
  have oS: "own (p_heap s) ([(a, holding (dl_max ops) xs)] @ ?S)"
    by (rule own_swap [of _ "[(a, ?P)]"]) (use o o1 in simp_all)
  have 1: "hstep (p_heap s) ((a, ?P) # ?S) (p_heap s) ([(a, holding (dl_max ops) xs)] @ ?S)"
    using o oS by (simp add: hstep_def foreign_def)
  have 2: "hstep (p_heap s) ([(a, holding (dl_max ops) xs)] @ ?S) h ((opt_role p ?P @ list_role fl ?P) @ ?S)"
    by (rule hstep_app [OF h oS])
  have "hstep h ((opt_role p ?P @ list_role fl ?P) @ ?S) h (rx_roles ops (p_downlink (rx_state s c hdr h p fl)))"
    by (rule hstep_perm [OF hstep_own [OF 2]]) (simp add: rx_state_def rx_roles_def)
  then have "hstep (p_heap s) (rx_roles ops ?d) h (rx_roles ops (p_downlink (rx_state s c hdr h p fl)))"
    using hstep_trans [OF hstep_trans [OF 1 2]] a by (simp add: rx_roles_def)
  then show ?thesis by (auto simp: rx_step_def rx_state_def dl_state_def rx_work_def)
qed

text \<open>The header part of a pass: nothing to do, refused, or cut off.\<close>

lemma push_header_any:
  assumes "own (p_heap s) [(a, holding M ys)]"
  shows "\<exists>err c hdr h zs. (if dl_pouch_header (p_downlink s) then Some (OK, s) else push_header ops dec a (pouch_bufview_init a) s)
     = Some (err, s\<lparr>p_heap := h, p_crypto := c, p_downlink := (p_downlink s)\<lparr>dl_pouch_header := hdr\<rparr>\<rparr>)
    \<and> hstep (p_heap s) [(a, holding M ys)] h [(a, holding M zs)] \<and> length zs \<le> length ys"
proof (cases "dl_pouch_header (p_downlink s)")
  case True
  then show ?thesis using hstep_refl [OF assms]
    by (intro exI [of _ OK] exI [of _ "p_crypto s"] exI [of _ True] exI [of _ "p_heap s"] exI [of _ ys]) simp
next
  case False
  note ph = parse_header_eq [OF assms, of ops dec "p_crypto s"] push_header_def [of ops dec a "pouch_bufview_init a" s]
  show ?thesis
  proof (cases "dec ys")
    case (Inl e)
    then show ?thesis using False ph hstep_refl [OF assms]
      by (intro exI [of _ "Err EIO"] exI [of _ "p_crypto s"] exI [of _ False] exI [of _ "p_heap s"] exI [of _ ys]) simp
  next
    case (Inr r)
    obtain header n where r: "r = (header, n)" by (cases r)
    obtain err c where st: "co_downlink_start ops (ph_encryption_info header) (p_crypto s) = (err, c)" by fastforce
    obtain k h where t: "with_buf a (\<lambda>b. buf_trim_start b n) (p_heap s) = Some (k, h)"
        "hstep (p_heap s) [(a, holding M ys)] h [(a, holding M (drop n ys))]"
      by (rule holding_trim_start [OF assms, where n = n])
    show ?thesis
    proof (cases "is_err err")
      case True
      then show ?thesis using False ph Inr r st hstep_refl [OF assms]
        by (intro exI [of _ err] exI [of _ c] exI [of _ False] exI [of _ "p_heap s"] exI [of _ ys]) simp
    next
      case ok: False
      then show ?thesis using False ph Inr r st t
        by (intro exI [of _ OK] exI [of _ c] exI [of _ True] exI [of _ h] exI [of _ "drop n ys"]) (simp add: set_downlink_def)
    qed
  qed
qed

lemma push_pass_any:
  assumes own: "own (p_heap s) (rx_roles ops (p_downlink s))" and tag: "co_auth_tag_len ops \<le> 16" and "data \<noteq> []"
  shows "\<exists>r s'. push_pass ops dec data s = Some (r, s') \<and> rx_step ops s s' \<and> (\<forall>d. r = Some d \<longrightarrow> length d < length data)"
proof (cases "dl_pouch_buf (p_downlink s)")
  case None
  then show ?thesis using rx_step_refl [OF own] by (simp add: push_pass_def)
next
  case (Some a)
  let ?M = "dl_max ops"
  have "own (p_heap s) ((a, received_role (co_auth_tag_len ops)) # list_role (dl_decrypt_queue (p_downlink s))
      (received_role (co_auth_tag_len ops)) @ list_role (dl_consume_queue (p_downlink s)) any_role)"
    using own Some by (simp add: rx_roles_def)
  from received_holding [OF this] obtain xs where o: "own (p_heap s) [(a, holding ?M xs)]" "length xs \<le> ?M" .
  obtain b where b: "store (p_heap s) a = Some b" "pb_bytes b = length xs" by (rule holding_view [OF o(1)])
  have sz: "read_buf a buf_size_get (p_heap s) = Some (length xs)" using b by (simp add: read_buf_def buf_size_get_def)
  show ?thesis
  proof (cases "?M \<le> length xs")
    case True
    then show ?thesis using Some sz rx_step_refl [OF own] by (simp add: push_pass_def)
  next
    case False
    define n where "n = min (length data) (?M - length xs)"
    have n: "0 < n" "length xs + length (take n data) \<le> ?M" using False assms(3) by (auto simp: n_def)
    obtain h1 where w: "upd_buf a (\<lambda>b. buf_write b (take n data)) (p_heap s) = Some h1"
        "hstep (p_heap s) [(a, holding ?M xs)] h1 [(a, holding ?M (xs @ take n data))]"
      by (rule holding_write [OF o(1) n(2)])
    let ?s1 = "s\<lparr>p_heap := h1\<rparr>"
    have o1: "own (p_heap ?s1) [(a, holding ?M (xs @ take n data))]" using hstep_own [OF w(2)] by simp
    from push_header_any [OF o1, of ops dec] obtain err c hdr h2 zs where
      hd: "(if dl_pouch_header (p_downlink ?s1) then Some (OK, ?s1) else push_header ops dec a (pouch_bufview_init a) ?s1)
         = Some (err, ?s1\<lparr>p_heap := h2, p_crypto := c, p_downlink := (p_downlink ?s1)\<lparr>dl_pouch_header := hdr\<rparr>\<rparr>)"
        "hstep h1 [(a, holding ?M (xs @ take n data))] h2 [(a, holding ?M zs)]" "length zs \<le> length (xs @ take n data)"
      by auto
    let ?s2 = "s\<lparr>p_heap := h2, p_crypto := c, p_downlink := (p_downlink s)\<lparr>dl_pouch_header := hdr\<rparr>\<rparr>"
    have h2: "hstep (p_heap s) [(a, holding ?M xs)] h2 [(a, holding ?M zs)]" by (rule hstep_trans [OF w(2) hd(2)])
    have o2: "own (p_heap ?s2) [(a, holding ?M zs)]" using hstep_own [OF h2] by simp
    have lz: "length zs \<le> ?M" using hd(3) n(2) by simp
    from push_block_any [OF o2 tag lz] Some obtain go h3 p fl where
      pb: "push_block ops a (pouch_bufview_init a) ?s2 = Some (go, dl_state ?s2 h3 p fl)"
        "hstep h2 [(a, holding ?M zs)] h3 (opt_role p (received_role (co_auth_tag_len ops))
          @ list_role fl (received_role (co_auth_tag_len ops)))" by auto
    have st: "dl_state ?s2 h3 p fl = rx_state s c hdr h3 p fl" by (simp add: rx_state_def dl_state_def)
    have s2: "?s2 = rx_state s c hdr h2 (Some a) []" using Some by (simp add: rx_state_def dl_state_def)
    have step2: "rx_step ops s ?s2" unfolding s2
      by (rule rx_state_step [OF own Some o(1)])
         (use hstep_trans [OF h2 hstep_role_le [OF hstep_own [OF h2] holding_received]] in simp)
    have step3: "rx_step ops s (rx_state s c hdr h3 p fl)"
      by (rule rx_state_step [OF own Some o(1) hstep_trans [OF h2 pb(2)]])
    have "push_pass ops dec data s = (if is_err err then Some (None, ?s2)
        else Some (if go then Some (drop n data) else None, rx_state s c hdr h3 p fl))"
      using Some sz False w(1) hd(1) pb(1) st
      by (simp add: push_pass_def Let_def flip: n_def)
    then show ?thesis using step2 step3 n(1) assms(3) by (cases "is_err err") auto
  qed
qed

lemma downlink_push_any:
  assumes "own (p_heap s) (rx_roles ops (p_downlink s))" and "co_auth_tag_len ops \<le> 16"
  shows "\<exists>s'. pouch_downlink_push ops dec data s = Some s' \<and> rx_step ops s s'"
  using assms(1)
proof (induction "length data" arbitrary: data s rule: less_induct)
  case less
  show ?case
  proof (cases "data = []")
    case True
    then show ?thesis using rx_step_refl [OF less.prems] by (subst pouch_downlink_push.simps) simp
  next
    case False
    from push_pass_any [OF less.prems assms(2) False, of dec] obtain r s1 where
      1: "push_pass ops dec data s = Some (r, s1)" "rx_step ops s s1" "\<forall>d. r = Some d \<longrightarrow> length d < length data" by blast
    show ?thesis
    proof (cases r)
      case None
      then show ?thesis using 1(1,2) False by (subst pouch_downlink_push.simps) simp
    next
      case (Some d)
      with 1(3) less.hyps [OF _ rx_step_own [OF 1(2)], of d] obtain s' where
        "pouch_downlink_push ops dec d s1 = Some s'" "rx_step ops s1 s'" by auto
      then show ?thesis using 1(1) Some False rx_step_trans [OF 1(2)] by (subst pouch_downlink_push.simps) auto
    qed
  qed
qed

section \<open>The work items of the downlink\<close>

context crypto_backend
begin

lemma decrypt_work_step:
  assumes own: "own (p_heap s) (rx_roles ops (p_downlink s))" and work: "rx_work s"
  shows "\<exists>s'. run_decrypt_work ops s = Some s' \<and> rx_step ops s s'"
proof (cases "dl_decrypt_work (p_downlink s)")
  case False
  then show ?thesis using rx_step_refl [OF own] by (simp add: run_decrypt_work_def)
next
  case True
  then obtain a q where q: "dl_decrypt_queue (p_downlink s) = a # q"
    using work by (cases "dl_decrypt_queue (p_downlink s)") (auto simp: rx_work_def)
  let ?P = "received_role (co_auth_tag_len ops)" and ?d = "p_downlink s"
  let ?S = "opt_role (dl_pouch_buf ?d) ?P @ list_role q ?P @ list_role (dl_consume_queue ?d) any_role"
  have roles: "mset (rx_roles ops ?d) = mset ([(a, ?P)] @ ?S)" by (simp add: rx_roles_def q)
  from decrypt_step [OF own_subset [OF own roles], of "p_crypto s"] obtain r c h where
    e: "co_decrypt_block ops (Some a) (p_crypto s) (p_heap s) = Some (r, c, h)"
      "hstep (p_heap s) [(a, ?P)] h (opt_role r any_role @ [])" by blast
  define s' where "s' = s\<lparr>p_crypto := c, p_heap := h, p_downlink := ?d\<lparr>dl_decrypt_queue := q,
      dl_consume_queue := dl_consume_queue ?d @ (case r of None \<Rightarrow> [] | Some a' \<Rightarrow> [a']),
      dl_consume_work := (dl_consume_work ?d \<or> r \<noteq> None), dl_decrypt_work := (r \<noteq> None \<and> q \<noteq> [])\<rparr>\<rparr>"
  have "run_decrypt_work ops s = Some s'"
    using True q e(1) by (cases r; cases q)
      (simp_all add: run_decrypt_work_def decrypt_blocks_def set_downlink_def s'_def buf_queue_get_def buf_queue_submit_def
        buf_queue_is_empty_def buf_queue_peek_def)
  moreover have "hstep (p_heap s) (rx_roles ops ?d) h (rx_roles ops (p_downlink s'))"
    by (rule hstep_in_context [OF own roles e(2)]) (simp add: s'_def rx_roles_def split: option.splits)
  ultimately show ?thesis by (auto simp: rx_step_def s'_def rx_work_def)
qed

end

text \<open>Blocks as the protocol has them: entries, or a piece of a stream.\<close>

definition block_wellformed :: "pouch_buf \<Rightarrow> bool" where
  "block_wellformed b \<longleftrightarrow>
     (\<exists>es. list_all entry_valid es \<and> contents b = block_wire 0xc0 (entries_wire es))
   \<or> (\<exists>bid path ct data. bid AND BLOCK_ID_MASK \<noteq> 0 \<and> length path < 256 \<and> length data < 65536
        \<and> contents b = block_wire bid ((if bid AND FIRST_DATA_MASK \<noteq> 0 then stream_header_wire path ct else []) @ data))"

lemma block_push_wellformed:
  assumes "heap_ok h" and "store h a = Some b" and "block_wellformed b"
  shows "\<exists>w'. pouch_downlink_block_push hs a h w = Some w'"
  using assms(3) block_push_entries_step [OF assms(1,2)] block_push_stream_step [OF assms(1,2) refl]
  unfolding block_wellformed_def by metis

lemma consume_work_step:
  assumes own: "own (p_heap s) (rx_roles ops (p_downlink s))"
    and wf: "\<forall>a q b. dl_consume_queue (p_downlink s) = a # q \<longrightarrow> store (p_heap s) a = Some b \<longrightarrow> block_wellformed b"
  shows "\<exists>w' s'. run_consume_work hs w s = Some (w', s') \<and> rx_step ops s s'"
proof (cases "dl_consume_work (p_downlink s)")
  case False
  then show ?thesis using rx_step_refl [OF own] by (simp add: run_consume_work_def)
next
  case True
  let ?P = "received_role (co_auth_tag_len ops)" and ?d = "p_downlink s"
  show ?thesis
  proof (cases "dl_consume_queue ?d")
    case Nil
    then show ?thesis using True own
      by (simp add: run_consume_work_def consume_blocks_def buf_queue_get_def rx_step_def set_downlink_def rx_roles_def
          rx_work_def hstep_refl)
  next
    case (Cons a q)
    let ?S = "opt_role (dl_pouch_buf ?d) ?P @ list_role (dl_decrypt_queue ?d) ?P @ list_role q any_role"
    have roles: "mset (rx_roles ops ?d) = mset ([(a, any_role)] @ ?S)" by (simp add: rx_roles_def Cons)
    have o: "own (p_heap s) ((a, any_role) # [])" using own_subset [OF own roles] by simp
    then obtain b where b: "store (p_heap s) a = Some b" by (auto simp: own_Cons_iff)
    obtain w' where w': "pouch_downlink_block_push hs a (p_heap s) w = Some w'"
      using block_push_wellformed [OF own_heap_ok [OF own] b, of hs w] wf Cons b by blast
    obtain h where h: "buf_free (Some a) (p_heap s) = Some h" "hstep (p_heap s) ((a, any_role) # []) h []"
      using hstep_free [OF o] by blast
    define s' where "s' = s\<lparr>p_heap := h, p_downlink := ?d\<lparr>dl_consume_queue := q, dl_consume_work := (q \<noteq> [])\<rparr>\<rparr>"
    have "run_consume_work hs w s = Some (w', s')"
      using True Cons w' h(1) by (cases q)
        (simp_all add: run_consume_work_def consume_blocks_def set_downlink_def s'_def buf_queue_get_def
          buf_queue_is_empty_def buf_queue_peek_def)
    moreover have "hstep (p_heap s) (rx_roles ops ?d) h (rx_roles ops (p_downlink s'))"
      by (rule hstep_in_context [OF own roles, where R' = "[]"]) (use h(2) in \<open>simp_all add: s'_def rx_roles_def\<close>)
    ultimately show ?thesis by (auto simp: rx_step_def s'_def rx_work_def)
  qed
qed

section \<open>Reachable states\<close>

text \<open>
  What the library asks of its callers and of the server: uplink calls as the API allows them, and
  blocks of entries or streams. Bytes that arrive may be anything.
\<close>

fun library_ok :: "'c crypto_ops \<Rightarrow> library_call \<Rightarrow> 'c pouch \<Rightarrow> bool" where
  "library_ok ops (Uplink_call c) s = call_ok ops c s"
| "library_ok ops Consume s = (case dl_consume_queue (p_downlink s) of [] \<Rightarrow> True
     | a # q \<Rightarrow> (case store (p_heap s) a of None \<Rightarrow> True | Some b \<Rightarrow> block_wellformed b))"
| "library_ok ops _ s = True"

text \<open>A start of the downlink takes a new collecting buffer without releasing the old one.\<close>

definition leaks :: "library_call \<Rightarrow> 'c pouch \<Rightarrow> nat" where
  "leaks call s = (if call = Downlink_start \<and> dl_pouch_buf (p_downlink s) \<noteq> None then 1 else 0)"

inductive library_reachable for ops enc dec hs x0 where
  init: "library_reachable ops enc dec hs x0 0 x0"
| call: "library_reachable ops enc dec hs x0 n (w, s) \<Longrightarrow> library_ok ops c s \<Longrightarrow>
    library_exec ops enc dec hs c (w, s) = Some x' \<Longrightarrow> library_reachable ops enc dec hs x0 (n + leaks c s) x'"

text \<open>Between two states \<open>n\<close> buffers are lost: they stay allocated and nobody holds them.\<close>

definition lost :: "'c crypto_ops \<Rightarrow> nat \<Rightarrow> 'c pouch \<Rightarrow> bool" where
  "lost ops n s \<longleftrightarrow> library_inv ops s \<and> card (foreign (p_heap s) (library_roles ops s)) = n"

lemma library_safe_lost: "lost ops n s \<Longrightarrow> library_safe ops s s' \<Longrightarrow> lost ops n s'"
  by (auto simp: lost_def library_safe_def hstep_def)

lemma own_count:
  assumes "own h R"
  shows "bufs h = int (length R) + int (card (foreign h R))" and "finite (foreign h R)"
proof -
  have fin: "finite (live h)" and n: "bufs h = int (card (live h))"
    using own_heap_ok [OF assms] by (simp_all add: heap_ok_def live_def)
  have sub: "set (map fst R) \<subseteq> live h" using assms by (force simp: own_def live_def)
  then have "card (live h) = card (set (map fst R)) + card (foreign h R)"
    using fin card_Diff_subset [of "set (map fst R)" "live h"] card_mono [OF fin sub] by (simp add: foreign_def)
  moreover have "card (set (map fst R)) = length R" using assms distinct_card [of "map fst R"] by (simp add: own_def)
  ultimately show "bufs h = int (length R) + int (card (foreign h R))" using n by simp
  show "finite (foreign h R)" using fin by (simp add: foreign_def)
qed

lemma downlink_start_step:
  assumes "lost ops n s" and "co_auth_tag_len ops \<le> 16"
  shows "lost ops (n + leaks Downlink_start s) (pouch_downlink_start ops s)"
proof -
  let ?P = "received_role (co_auth_tag_len ops)" and ?d = "p_downlink s" and ?s' = "pouch_downlink_start ops s"
  let ?S = "uplink_roles s @ list_role (dl_decrypt_queue ?d) ?P @ list_role (dl_consume_queue ?d) any_role"
  have inv: "own (p_heap s) (library_roles ops s)" "streams_ok s" "rx_work s"
    and n: "card (foreign (p_heap s) (library_roles ops s)) = n" using assms(1) by (simp_all add: lost_def library_inv_def)
  have before: "mset (library_roles ops s) = mset (opt_role (dl_pouch_buf ?d) ?P @ ?S)"
    by (simp add: library_roles_def rx_roles_def)
  have oS: "own (p_heap s) ?S" by (rule own_subset [OF inv(1)]) (simp add: before)
  have M: "dl_max ops < SIZE_MOD" using assms(2) by (simp add: dl_max_def SIZE_MOD_num)
  obtain p h where al: "buf_alloc (dl_max ops) (p_heap s) = (p, h)"
      "hstep (p_heap s) ?S h (opt_role p (holding (dl_max ops) []) @ ?S)"
    by (rule alloc_holding [OF oS M])
  have "role_le (opt_role p (holding (dl_max ops) []) @ ?S) (opt_role p ?P @ ?S)"
    by (intro role_le_app role_le_opt role_le_refl) (simp add: holding_def received_role_def dl_max_def)
  then have h1: "hstep (p_heap s) ?S h (opt_role p ?P @ ?S)"
    using hstep_trans [OF al(2) hstep_role_le [OF hstep_own [OF al(2)]]] by blast
  have s': "?s' = s\<lparr>p_heap := h, p_downlink := ?d\<lparr>dl_pouch_header := False, dl_pouch_buf := p\<rparr>\<rparr>"
    using al(1) by (simp add: pouch_downlink_start_def set_downlink_def)
  have h2: "hstep (p_heap s) ?S h (library_roles ops ?s')"
    by (rule hstep_trans [OF h1 hstep_perm [OF hstep_own [OF h1]]]) (simp add: s' library_roles_def rx_roles_def uplink_roles_def)
  have "streams_ok ?s'"
    by (rule streams_ok_mono [OF inv(2)]) (use hstep_env(2) [OF h2] in \<open>simp_all add: s'\<close>)
  then have "library_inv ops ?s'" using hstep_own [OF h2] inv(3) by (simp add: library_inv_def s' rx_work_def)
  moreover have "card (foreign (p_heap s) ?S) = n + leaks Downlink_start s"
  proof -
    have len: "length (library_roles ops s) = length (opt_role (dl_pouch_buf ?d) ?P) + length ?S"
      using arg_cong [OF before, of size] by simp
    have "length (opt_role (dl_pouch_buf ?d) ?P) = leaks Downlink_start s" by (cases "dl_pouch_buf ?d") (simp_all add: leaks_def)
    then show ?thesis using own_count(1) [OF inv(1)] own_count(1) [OF oS] n len by simp
  qed
  ultimately show ?thesis using h2 by (simp add: lost_def hstep_def s')
qed

context crypto_backend
begin

lemma library_exec_step:
  assumes "lost ops n s" and "encoder_ok enc" and "library_ok ops c s"
  shows "\<exists>w' s'. library_exec ops enc dec hs c (w, s) = Some (w', s') \<and> lost ops (n + leaks c s) s'"
proof -
  have inv: "library_inv ops s" using assms(1) by (simp add: lost_def)
  note parts = library_inv_parts [OF inv]
  have safe: "\<exists>w' s'. library_exec ops enc dec hs c (w, s) = Some (w', s') \<and> lost ops (n + leaks c s) s'"
    if "library_exec ops enc dec hs c (w, s) = Some (w', s')" "library_safe ops s s'" "leaks c s = 0" for w' s'
    using that library_safe_lost [OF assms(1) that(2)] by simp
  show ?thesis
  proof (cases c)
    case (Uplink_call c')
    with uplink_exec_safe [OF parts(1) assms(2), of c'] assms(3) obtain s' where
      s': "uplink_exec ops enc c' s = Some s'" "uplink_safe s s'" by auto
    show ?thesis
      by (rule safe [of w s']) (use Uplink_call s' library_uplink_step [OF inv s'(2) uplink_exec_downlink [OF s'(1)]]
          in \<open>simp_all add: leaks_def\<close>)
  next
    case Downlink_start
    then show ?thesis using downlink_start_step [OF assms(1) auth_tag_len] by simp
  next
    case (Downlink_push data)
    from downlink_push_any [OF parts(2) auth_tag_len, of dec data] obtain s' where
      "pouch_downlink_push ops dec data s = Some s'" "rx_step ops s s'" by blast
    then show ?thesis using Downlink_push library_rx_step [OF inv] by (intro safe [of w s']) (simp_all add: leaks_def)
  next
    case Downlink_finish
    then show ?thesis using assms(1) by (simp add: pouch_downlink_finish_def leaks_def)
  next
    case Decrypt
    from decrypt_work_step [OF parts(2)] inv obtain s' where
      "run_decrypt_work ops s = Some s'" "rx_step ops s s'" by (auto simp: library_inv_def)
    then show ?thesis using Decrypt library_rx_step [OF inv] by (intro safe [of w s']) (simp_all add: leaks_def)
  next
    case Consume
    have wf: "\<forall>a q b. dl_consume_queue (p_downlink s) = a # q \<longrightarrow> store (p_heap s) a = Some b \<longrightarrow> block_wellformed b"
      using assms(3) Consume by auto
    from consume_work_step [OF parts(2) wf, of hs w] obtain w' s' where
      "run_consume_work hs w s = Some (w', s')" "rx_step ops s s'" by blast
    then show ?thesis using Consume library_rx_step [OF inv] by (intro safe [of w' s']) (simp_all add: leaks_def)
  qed
qed

lemma library_reachable_lost:
  assumes "library_reachable ops enc dec hs (w0, s0) n x" and "lost ops 0 s0" and "encoder_ok enc"
  shows "lost ops n (snd x)"
  using assms(1)
proof (induction rule: library_reachable.induct)
  case init
  show ?case using assms(2) by simp
next
  case (call n w s c x')
  from library_exec_step [OF _ assms(3) call.hyps(2), of n dec hs w] call.IH call.hyps(3) show ?case by auto
qed

lemma library_calls:
  assumes "library_reachable ops enc dec hs (w0, pouch_static oracle c) n (w, s)" and "encoder_ok enc"
  shows "library_inv ops s \<and> buf_active_count (p_heap s) = int (length (library_roles ops s)) + int n
    \<and> (\<forall>call. library_ok ops call s \<longrightarrow> (\<exists>x'. library_exec ops enc dec hs call (w, s) = Some x'))"
proof -
  have "library_roles ops (pouch_static oracle c) = []"
    by (simp add: library_roles_def uplink_roles_def rx_roles_def transport_roles_def stream_roles_def uplink_static_def
        downlink_static_def)
  then have "lost ops 0 (pouch_static oracle c)"
    using uplink_inv_static [of "oracle" c]
    by (simp add: lost_def library_inv_def uplink_inv_def own_def rx_work_def downlink_static_def foreign_def live_def
        pouch_static_def heap_static_def)
  from library_reachable_lost [OF assms(1) this assms(2)] have l: "lost ops n s" by simp
  then have "library_inv ops s" by (simp add: lost_def)
  moreover from this have "buf_active_count (p_heap s) = int (length (library_roles ops s)) + int n"
    using own_count(1) [of "p_heap s" "library_roles ops s"] l by (simp add: buf_active_count_def lost_def library_inv_def)
  ultimately show ?thesis using library_exec_step [OF l assms(2), of _ dec hs w] by blast
qed

end

section \<open>Both builds\<close>





end
