(* ===== verification/Header.thy ===== *)
theory Header
  imports Saead
begin

text \<open>
  The wire format of the pouch header: the CBOR that \<^verbatim>\<open>src/header.cddl\<close> describes, in the
  canonical form that the build selects for zcbor (shortest heads, definite lengths). The generated
  encoder and decoder stay parameters of the library; here is what they produce and accept, that the
  format can be read back, and how much room a header needs.
\<close>

section \<open>CBOR items\<close>

text \<open>The head of an item: major type and argument.\<close>

definition cbor_head :: "nat \<Rightarrow> nat \<Rightarrow> u8 list" where
  "cbor_head m n =
     (if n < 24 then [of_nat (32 * m + n)]
      else if n < 2 ^ 8 then [of_nat (32 * m + 24), of_nat n]
      else if n < 2 ^ 16 then of_nat (32 * m + 25) # put_be16 (of_nat n)
      else if n < 2 ^ 32 then of_nat (32 * m + 26) # put_be32 (of_nat n)
      else of_nat (32 * m + 27) # put_be64 (of_nat n))"

definition cbor_uint :: "nat \<Rightarrow> u8 list" where "cbor_uint n = cbor_head 0 n"
definition cbor_bstr :: "u8 list \<Rightarrow> u8 list" where "cbor_bstr bs = cbor_head 2 (length bs) @ bs"
definition cbor_tstr :: "u8 list \<Rightarrow> u8 list" where "cbor_tstr bs = cbor_head 3 (length bs) @ bs"
definition cbor_array :: "nat \<Rightarrow> u8 list" where "cbor_array n = cbor_head 4 n"

definition get_head :: "u8 list \<Rightarrow> (nat \<times> nat \<times> u8 list) option" where
  "get_head bs =
     (case bs of
        [] \<Rightarrow> None
      | b # r \<Rightarrow>
          let m = unat b div 32; a = unat b mod 32 in
          if a < 24 then Some (m, a, r)
          else if a = 24 \<and> 1 \<le> length r then Some (m, unat (r ! 0), drop 1 r)
          else if a = 25 \<and> 2 \<le> length r then Some (m, unat (get_be16 r), drop 2 r)
          else if a = 26 \<and> 4 \<le> length r then Some (m, unat (get_be32 r), drop 4 r)
          else if a = 27 \<and> 8 \<le> length r then Some (m, unat (get_be64 r), drop 8 r)
          else None)"

definition get_arg :: "nat \<Rightarrow> u8 list \<Rightarrow> (nat \<times> u8 list) option" where
  "get_arg m bs = do { (m', n, r) \<leftarrow> get_head bs; if m' = m then Some (n, r) else None }"

definition get_str :: "nat \<Rightarrow> u8 list \<Rightarrow> (u8 list \<times> u8 list) option" where
  "get_str m bs = do { (n, r) \<leftarrow> get_arg m bs; if n \<le> length r then Some (take n r, drop n r) else None }"

lemma get_head_put:
  assumes "m < 8" and "n < 2 ^ 64"
  shows "get_head (cbor_head m n @ rest) = Some (m, n, rest)"
proof -
  have b: "unat (of_nat (32 * m + a) :: u8) div 32 = m" "unat (of_nat (32 * m + a) :: u8) mod 32 = a" if "a < 32" for a
  proof -
    have "32 * m + a < 256" using assms(1) that by simp
    then have "unat (of_nat (32 * m + a) :: u8) = 32 * m + a" by (rule unat_of_nat8)
    then show "unat (of_nat (32 * m + a) :: u8) div 32 = m" "unat (of_nat (32 * m + a) :: u8) mod 32 = a"
      using that by (simp_all del: of_nat_add of_nat_mult)
  qed
  show ?thesis
    using assms b [of n] b [of 24] b [of 25] b [of 26] b [of 27]
    by (simp add: cbor_head_def get_head_def Let_def unat_of_nat del: of_nat_add of_nat_mult)
qed

lemma get_arg_put [simp]:
  "m < 8 \<Longrightarrow> n < 2 ^ 64 \<Longrightarrow> get_arg m (cbor_head m n @ rest) = Some (n, rest)"
  by (simp add: get_arg_def get_head_put)

lemma get_str_put [simp]:
  "m < 8 \<Longrightarrow> length bs = n \<Longrightarrow> n < 2 ^ 64 \<Longrightarrow> get_str m (cbor_head m n @ bs @ rest) = Some (bs, rest)"
  by (auto simp: get_str_def)

lemma length_cbor_head:
  "length (cbor_head m n) =
     (if n < 24 then 1 else if n < 2 ^ 8 then 2 else if n < 2 ^ 16 then 3 else if n < 2 ^ 32 then 5 else 9)"
  by (simp add: cbor_head_def)

section \<open>The header\<close>

fun session_id_wire :: "header_session_id \<Rightarrow> u8 list" where
  "session_id_wire (Session_id_random r) = cbor_array 1 @ cbor_bstr r"
| "session_id_wire (Session_id_sequential tag seqn) = cbor_array 2 @ cbor_bstr tag @ cbor_uint (unat seqn)"

definition role_wire :: "pouch_role \<Rightarrow> nat" where
  "role_wire r = (case r of POUCH_ROLE_DEVICE \<Rightarrow> 0 | POUCH_ROLE_SERVER \<Rightarrow> 1)"

definition algorithm_wire :: "algorithm \<Rightarrow> nat" where
  "algorithm_wire a = (case a of Chacha20_poly1305 \<Rightarrow> 1 | Aes_gcm \<Rightarrow> 2)"

definition session_info_wire :: "session_info \<Rightarrow> u8 list" where
  "session_info_wire si = cbor_array 5 @ session_id_wire (si_id si) @ cbor_uint (role_wire (si_initiator si))
     @ cbor_uint (algorithm_wire (si_algorithm si)) @ cbor_uint (unat (si_max_block_size_log si)) @ cbor_bstr (si_cert_ref si)"

fun encryption_info_wire :: "encryption_info \<Rightarrow> u8 list" where
  "encryption_info_wire (Plaintext_info d) = cbor_array 2 @ cbor_uint 0 @ cbor_tstr d"
| "encryption_info_wire (Saead_info si pouch_id) =
     cbor_array 3 @ cbor_uint 1 @ session_info_wire si @ cbor_uint (unat pouch_id)"

definition header_wire :: "pouch_header \<Rightarrow> u8 list" where
  "header_wire h = cbor_array 2 @ cbor_uint (unat (ph_version h)) @ encryption_info_wire (ph_encryption_info h)"






definition cddl_encode :: header_encoder where
  "cddl_encode n h = (if length (header_wire h) \<le> n then Inr (header_wire h) else Inl 1)"

text \<open>Headers that the CDDL allows.\<close>

fun header_valid :: "encryption_info \<Rightarrow> bool" where
  "header_valid (Plaintext_info d) = (length d < 2 ^ 64)"
| "header_valid (Saead_info si p) = (length (si_cert_ref si) = 6
     \<and> (case si_id si of Session_id_random r \<Rightarrow> length r = 16 | Session_id_sequential t n \<Rightarrow> length t = 8))"

lemmas wire_defs = cbor_uint_def cbor_bstr_def cbor_tstr_def cbor_array_def

lemma unat_less_64 [simp]:
  "unat (x :: u8) < 18446744073709551616" "unat (y :: u16) < 18446744073709551616" "unat (z :: u64) < 18446744073709551616"
  using unat_u8_lt [of x] unat_u16_lt [of y] unsigned_less [of z, where ?'a = nat] by (linarith, linarith, simp)




section \<open>Reading back\<close>

lemma header_wire_ne: "header_wire h \<noteq> []"
  by (simp add: header_wire_def wire_defs cbor_head_def)

lemma cddl_encoder_ok [simp]: "encoder_ok cddl_encode"
  by (simp add: encoder_ok_def cddl_encode_def)

text \<open>
  What is expected of the generated encoder, beyond \<open>encoder_ok\<close>: a header that the CDDL allows is
  written in this format when there is room for it, and refused otherwise.
\<close>

definition encoder_format :: "header_encoder \<Rightarrow> bool" where
  "encoder_format enc \<longleftrightarrow> (\<forall>n h. header_valid (ph_encryption_info h) \<longrightarrow>
     (if length (header_wire h) \<le> n then enc n h = Inr (header_wire h) else \<exists>e. enc n h = Inl e))"

lemma cddl_encoder_format: "encoder_format cddl_encode"
  by (simp add: encoder_format_def cddl_encode_def)



section \<open>Room for the header\<close>

lemma length_plaintext_header:
  "length d < 24 \<Longrightarrow> length (header_wire \<lparr>ph_version = 1, ph_encryption_info = Plaintext_info d\<rparr>) = 5 + length d"
  "24 \<le> length d \<Longrightarrow> length d < 256 \<Longrightarrow>
    length (header_wire \<lparr>ph_version = 1, ph_encryption_info = Plaintext_info d\<rparr>) = 6 + length d"
  by (simp_all add: header_wire_def wire_defs length_cbor_head)

lemma length_saead_header:
  assumes "header_valid (Saead_info si p)" and "unat (si_max_block_size_log si) < 24"
  shows "length (header_wire \<lparr>ph_version = 1, ph_encryption_info = Saead_info si p\<rparr>) \<le> 37"
proof -
  have p: "length (cbor_uint (unat p)) \<le> 3" using unat_u16_lt [of p] by (simp add: wire_defs length_cbor_head)
  have sid: "length (session_id_wire (si_id si)) \<le> 19" using assms(1) by (cases "si_id si") (simp_all add: wire_defs length_cbor_head)
  have si: "length (session_info_wire si) = 11 + length (session_id_wire (si_id si))"
    using assms by (cases "si_initiator si"; cases "si_algorithm si")
      (simp_all add: session_info_wire_def role_wire_def algorithm_wire_def wire_defs length_cbor_head)
  show ?thesis using p sid si by (simp add: header_wire_def wire_defs length_cbor_head)
qed

lemma plaintext_header_fits_iff:
  assumes "length d \<le> 32"
  shows "length (header_wire \<lparr>ph_version = 1, ph_encryption_info = Plaintext_info d\<rparr>) \<le> 37 \<longleftrightarrow> length d \<le> 31"
  using assms by (cases "length d < 24") (auto simp: length_plaintext_header)

lemma header_create_some:
  assumes "own h R" and "encoder_ok enc" and "co_header_max_len ops < SIZE_MOD"
    and "co_header_get ops c = Some (OK, info)" and "fst (buf_alloc (co_header_max_len ops) h) \<noteq> None"
    and "enc (co_header_max_len ops) \<lparr>ph_version = POUCH_HEADER_VERSION, ph_encryption_info = info\<rparr> = Inr bs"
    and "pouch_header_create ops enc c h = Some (p, h')"
  shows "p \<noteq> None"
  using assms(4-7) by (auto simp: pouch_header_create_def with_buf_def write_header_def bind_eq_Some_conv split: prod.splits option.splits)

text \<open>
  Property C30. A device id of the greatest length the configuration accepts cannot be used. With any
  encoder that writes the format, and memory for the buffer, \<^verbatim>\<open>pouch_uplink_start()\<close> of an idle plaintext uplink
  returns a session exactly for ids of at most 31 bytes, and its header is then the encoded id; for an id of
  \<^verbatim>\<open>POUCH_DEVICE_ID_MAX_LEN\<close> bytes, which \<^verbatim>\<open>crypto_init()\<close> has accepted, the header needs one byte
  more than \<^verbatim>\<open>POUCH_HEADER_MAX_LEN\<close>, and every attempt to start returns NULL and changes no flag.
\<close>

theorem device_id_limit:
  assumes "uplink_inv s" and "up_header (p_uplink s) = None" and "mallocs s"
    and "\<not> bit (up_flags (p_uplink s)) SESSION_ACTIVE" and "none_crypto_init (Some d) c = (OK, p_crypto s)"
    and "encoder_ok enc" and "encoder_format enc"
  shows "\<exists>r s'. pouch_uplink_start crypto_none enc s = Some (r, s') \<and> uplink_safe s s'
    \<and> (r \<noteq> None \<longleftrightarrow> length d < POUCH_DEVICE_ID_MAX_LEN)
    \<and> (r = None \<longrightarrow> up_header (p_uplink s') = None \<and> up_flags (p_uplink s') = up_flags (p_uplink s))
    \<and> (r \<noteq> None \<longrightarrow> (\<exists>a. up_header (p_uplink s') = Some a
        \<and> buf_contents (p_heap s') a = header_wire \<lparr>ph_version = 1, ph_encryption_info = Plaintext_info d\<rparr>))"
proof -
  let ?hd = "\<lparr>ph_version = 1, ph_encryption_info = Plaintext_info d\<rparr>"
  have d: "length d \<le> 32" "device_id (p_crypto s) = Some d"
    using assms(5)
    by (auto simp: none_crypto_init_def POUCH_DEVICE_ID_MAX_LEN_def split: if_splits dest: arg_cong [where f = device_id])
  have hg: "co_header_get crypto_none (p_crypto s) = Some (OK, Plaintext_info d)"
    using d(2) by (simp add: crypto_none_def none_crypto_header_get_def)
  obtain r s' where
    st: "pouch_uplink_start crypto_none enc s = Some (r, s')" "uplink_safe s s'"
      "r = None \<longrightarrow> up_header (p_uplink s') = None \<and> up_flags (p_uplink s') = up_flags (p_uplink s)"
      "r = Some () \<longrightarrow> (\<exists>a. up_header (p_uplink s') = Some a \<and> enc 37 ?hd = Inr (buf_contents (p_heap s') a))"
    using none.uplink_start_step [OF assms(1) assms(6) assms(2), of OK "Plaintext_info d"] hg
    by (auto simp: POUCH_HEADER_VERSION_def)
  have "header_valid (Plaintext_info d)" using d(1) by simp
  then have enc: "if length d \<le> 31 then enc 37 ?hd = Inr (header_wire ?hd) else \<exists>e. enc 37 ?hd = Inl e"
    using assms(7) plaintext_header_fits_iff [OF d(1)] by (simp add: encoder_format_def)
  have o: "own (p_heap s) []" using uplink_inv_heap [OF assms(1)] by (simp add: own_def)
  have alloc: "fst (buf_alloc 37 (p_heap s)) \<noteq> None"
    using assms(3) by (auto simp: buf_alloc_def mallocs_def Let_def split: option.splits)
  have "r \<noteq> None" if "length d \<le> 31"
  proof -
    obtain p h where p: "pouch_header_create crypto_none enc (p_crypto s) (p_heap s) = Some (p, h)"
      by (rule pouch_header_create_step [OF o assms(6) none.header_max_len hg])
    have "p \<noteq> None"
      by (rule header_create_some [OF o assms(6) none.header_max_len hg _ _ p])
         (use alloc enc that in \<open>simp_all add: POUCH_HEADER_VERSION_def\<close>)
    then show ?thesis
      using st(1) p assms(4) by (auto simp: pouch_uplink_start_def set_flag_def set_uplink_def Let_def)
  qed
  then show ?thesis using st enc by (cases r) (auto simp: POUCH_DEVICE_ID_MAX_LEN_def split: if_splits)
qed

lemma device_id_limit_witness:
  "(\<exists>s'. pouch_uplink_start crypto_none cddl_encode
      (pouch_static (\<lambda>_. Some (\<lambda>_. 0)) \<lparr>device_id = Some (replicate 32 0x64)\<rparr>) = Some (None, s'))
   \<and> (\<exists>s' a. pouch_uplink_start crypto_none cddl_encode
      (pouch_static (\<lambda>_. Some (\<lambda>_. 0)) \<lparr>device_id = Some (replicate 31 0x64)\<rparr>) = Some (Some (), s')
      \<and> up_header (p_uplink s') = Some a
      \<and> buf_contents (p_heap s') a = [0x82, 1, 0x82, 0, 0x78, 31] @ replicate 31 0x64)"
proof -
  let ?s = "\<lambda>d. pouch_static (\<lambda>_. Some (\<lambda>_. 0)) \<lparr>device_id = Some d\<rparr>"
  have s: "uplink_inv (?s d)" "up_header (p_uplink (?s d)) = None" "mallocs (?s d)"
      "\<not> bit (up_flags (p_uplink (?s d))) SESSION_ACTIVE" for d
    by (simp_all add: mallocs_def uplink_static_def)
  have i: "none_crypto_init (Some (replicate n 0x64)) \<lparr>device_id = None\<rparr> = (OK, p_crypto (?s (replicate n 0x64)))"
    if "n \<le> 32" for n
    using that by (simp add: none_crypto_init_def POUCH_DEVICE_ID_MAX_LEN_def pouch_static_def)
  have w: "header_wire \<lparr>ph_version = 1, ph_encryption_info = Plaintext_info (replicate 31 0x64)\<rparr>
      = [0x82, 1, 0x82, 0, 0x78, 31] @ replicate 31 0x64"
    by (simp add: header_wire_def wire_defs cbor_head_def)
  show ?thesis
    using device_id_limit [OF s i cddl_encoder_ok cddl_encoder_format, of 32]
      device_id_limit [OF s i cddl_encoder_ok cddl_encoder_format, of 31] w
    by (auto simp: POUCH_DEVICE_ID_MAX_LEN_def simp del: not_None_eq)
qed

end
